(* ===== verification/Yotta_Prelude.thy ===== *)
theory Yotta_Prelude
  imports Main "HOL-Library.Word"
begin

text \<open>
  Shared vocabulary of the development: C characters read as unsigned and as signed bytes, the
  result of a C computation (a value, an error return of the parser, or undefined behaviour and
  other ways the process dies), checked reads of a byte array, and the generic lemmas about them
  that the component theories use.
\<close>

section \<open>Characters\<close>

text \<open>
  A \<^verbatim>\<open>char\<close> of the program is a HOL character.  The code reads it in two ways: cast to
  \<^verbatim>\<open>unsigned char\<close> (\<open>uchar\<close>), and directly, which is signed on the x86 targets the build
  files address (\<open>schar\<close>).
\<close>

definition uchar :: "char \<Rightarrow> nat" where
  "uchar c = of_char c"

definition schar :: "char \<Rightarrow> int" where
  "schar c = (if uchar c < 128 then int (uchar c) else int (uchar c) - 256)"

lemma uchar_less: "uchar c < 256"
  by (simp add: uchar_def)

lemma uchar_eq_iff: "uchar c = uchar d \<longleftrightarrow> c = d"
  by (simp add: uchar_def)

lemma schar_less_iff: "n \<le> 128 \<Longrightarrow> schar c < int n \<longleftrightarrow> uchar c < n \<or> 128 \<le> uchar c"
  using uchar_less [of c] unfolding schar_def by (cases "uchar c < 128") (auto simp del: uchar_less)

abbreviation CR :: char where "CR \<equiv> CHR 0x0D"
abbreviation LF :: char where "LF \<equiv> CHR 0x0A"
abbreviation HT :: char where "HT \<equiv> CHR 0x09"
abbreviation SP :: char where "SP \<equiv> CHR 0x20"
abbreviation DEL :: char where "DEL \<equiv> CHR 0x7F"
abbreviation NUL :: char where "NUL \<equiv> CHR 0x00"

section \<open>Results of C computations\<close>

text \<open>
  \<open>Ret x\<close> is a normal return.  \<open>Fail r\<close> is the parser's error return
  (\<^verbatim>\<open>*ret = r; return NULL\<close>).  \<open>Crash k\<close> says that the execution runs into undefined
  behaviour or aborts: it is a value of the model, so that its absence can be proved.
\<close>

datatype crash =
    OutOfBounds        \<comment> \<open>a read or write outside the array\<close>
  | SignedOverflow     \<comment> \<open>overflow of a signed \<^verbatim>\<open>int\<close>\<close>
  | UncaughtException  \<comment> \<open>a C++ exception nobody catches\<close>
  | AssertFailed       \<comment> \<open>\<^verbatim>\<open>assert(0)\<close>\<close>
  | UnboundedRead      \<comment> \<open>a C string function runs past its array: there is no terminator\<close>
  | NullPointer        \<comment> \<open>a null pointer of the program is called or dereferenced\<close>
  | LibraryNull        \<comment> \<open>a null pointer that a library function returned is used\<close>
  | BadFree            \<comment> \<open>a double free or a use after free\<close>
  | ProcessExit int    \<comment> \<open>\<^verbatim>\<open>exit(n)\<close>\<close>
  | ProcessReplaced    \<comment> \<open>\<^verbatim>\<open>execve\<close> has started another program\<close>

datatype 'a outcome = Ret 'a | Fail int | Crash crash

primrec obind :: "'a outcome \<Rightarrow> ('a \<Rightarrow> 'b outcome) \<Rightarrow> 'b outcome" where
  "obind (Ret x) f = f x"
| "obind (Fail r) f = Fail r"
| "obind (Crash k) f = Crash k"

lemma obind_cong [fundef_cong]:
  "m = m' \<Longrightarrow> (\<And>x. m' = Ret x \<Longrightarrow> f x = f' x) \<Longrightarrow> obind m f = obind m' f'"
  by (cases m') auto

lemma obind_assoc: "obind (obind m f) g = obind m (\<lambda>x. obind (f x) g)"
  by (cases m) auto

lemma obind_Ret_iff: "obind m f = Ret y \<longleftrightarrow> (\<exists>x. m = Ret x \<and> f x = Ret y)"
  by (cases m) auto

lemma obind_Fail_iff:
  "obind m f = Fail r \<longleftrightarrow> m = Fail r \<or> (\<exists>x. m = Ret x \<and> f x = Fail r)"
  by (cases m) auto

lemma obind_Crash_iff:
  "obind m f = Crash k \<longleftrightarrow> m = Crash k \<or> (\<exists>x. m = Ret x \<and> f x = Crash k)"
  by (cases m) auto

lemmas obind_iffs = obind_Ret_iff obind_Fail_iff obind_Crash_iff

section \<open>C computations that write to a state\<close>

text \<open>
  A function with output parameters takes the state they live in and returns it with the result:
  what was written before an error return stays written.
\<close>

type_synonym ('s, 'a) stateful = "'s \<Rightarrow> 's \<times> 'a outcome"

definition slift :: "'a outcome \<Rightarrow> ('s, 'a) stateful" where
  "slift m = (\<lambda>s. (s, m))"

definition smodify :: "('s \<Rightarrow> 's) \<Rightarrow> ('s, unit) stateful" where
  "smodify f = (\<lambda>s. (f s, Ret ()))"

definition sbind :: "('s, 'a) stateful \<Rightarrow> ('a \<Rightarrow> ('s, 'b) stateful) \<Rightarrow> ('s, 'b) stateful" where
  "sbind m f = (\<lambda>s. case m s of
      (s', Ret x) \<Rightarrow> f x s'
    | (s', Fail r) \<Rightarrow> (s', Fail r)
    | (s', Crash k) \<Rightarrow> (s', Crash k))"

definition sreturn :: "'a \<Rightarrow> ('s, 'a) stateful" where
  "sreturn x = slift (Ret x)"

definition sget :: "('s \<Rightarrow> 'a) \<Rightarrow> ('s, 'a) stateful" where
  "sget f = (\<lambda>s. (s, Ret (f s)))"

text \<open>A body run on each element of a list, in order.\<close>

primrec each :: "('b \<Rightarrow> ('s, unit) stateful) \<Rightarrow> 'b list \<Rightarrow> ('s, unit) stateful" where
  "each f [] = sreturn ()"
| "each f (x # xs) = sbind (f x) (\<lambda>_. each f xs)"

lemma stateful_run [simp]:
  "sreturn x s = (s, Ret x)" "slift m s = (s, m)" "smodify g s = (g s, Ret ())" "sget h s = (s, Ret (h s))"
  by (simp_all add: sreturn_def slift_def smodify_def sget_def)

lemma sbind_run: "sbind m f s = (case m s of
      (s', Ret x) \<Rightarrow> f x s' | (s', Fail r) \<Rightarrow> (s', Fail r) | (s', Crash k) \<Rightarrow> (s', Crash k))"
  by (simp add: sbind_def)

lemma sbind_sget [simp]: "sbind (sget g) f s = f (g s) s"
  by (simp add: sbind_def)

lemma sbind_slift_simps [simp]:
  "sbind (slift (Ret x)) f s = f x s" "sbind (slift (Crash k)) f s = (s, Crash k)" "sbind (slift (Fail r)) f s = (s, Fail r)"
  by (simp_all add: sbind_def slift_def)

lemma sbind_smodify' [simp]: "sbind (smodify g) f s = f () (g s)"
  by (simp add: sbind_def)

lemma sbind_sreturn [simp]: "sbind (sreturn x) f s = f x s"
  by (simp add: sbind_def)

lemma sbind_slift: "sbind (slift m) f s =
  (case m of Ret x \<Rightarrow> f x s | Fail r \<Rightarrow> (s, Fail r) | Crash k \<Rightarrow> (s, Crash k))"
  by (simp add: sbind_def slift_def split: outcome.splits)

lemma sbind_smodify: "sbind (smodify g) f s = f () (g s)"
  by (simp add: sbind_def smodify_def)

lemma sbind_assoc: "sbind (sbind m f) g = sbind m (\<lambda>x. sbind (f x) g)"
  by (rule ext) (simp add: sbind_def split: prod.splits outcome.splits)

lemma sbind_eq_cases: "sbind m f s = (s2, y) \<longleftrightarrow>
  (\<exists>s1 x. m s = (s1, Ret x) \<and> f x s1 = (s2, y)) \<or>
  (\<exists>r. m s = (s2, Fail r) \<and> y = Fail r) \<or>
  (\<exists>k. m s = (s2, Crash k) \<and> y = Crash k)"
  by (auto simp: sbind_def split: prod.splits outcome.splits)

section \<open>Reading a byte array through a pointer\<close>

text \<open>
  A pointer into the bytes \<open>b\<close> that lie between \<^verbatim>\<open>buf_start\<close> and \<^verbatim>\<open>buf_end\<close> is its
  offset from \<^verbatim>\<open>buf_start\<close>.  Reading at or behind the end is a crash of the model.
\<close>

definition rd :: "char list \<Rightarrow> nat \<Rightarrow> char outcome" where
  "rd b p = (if p < length b then Ret (b ! p) else Crash OutOfBounds)"

lemma rd_in [simp]: "p < length b \<Longrightarrow> rd b p = Ret (b ! p)"
  by (simp add: rd_def)

lemma rd_Ret_iff: "rd b p = Ret c \<longleftrightarrow> p < length b \<and> c = b ! p"
  by (auto simp: rd_def)

lemma rd_Fail [simp]: "rd b p \<noteq> Fail r"
  by (simp add: rd_def)

lemma rd_Crash_iff: "rd b p = Crash k \<longleftrightarrow> length b \<le> p \<and> k = OutOfBounds"
  by (auto simp: rd_def)

section \<open>Lists\<close>

lemma takeWhile_drop_Cons:
  "p < length b \<Longrightarrow> takeWhile Q (drop p b) =
     (if Q (b ! p) then b ! p # takeWhile Q (drop (Suc p) b) else [])"
  by (simp add: Cons_nth_drop_Suc [symmetric])

lemma length_takeWhile_drop_le: "p \<le> length b \<Longrightarrow> p + length (takeWhile Q (drop p b)) \<le> length b"
  using length_takeWhile_le [of Q "drop p b"] by simp

lemma takeWhile_drop_nth:
  "i < length (takeWhile Q (drop p b)) \<Longrightarrow> Q (b ! (p + i))"
  using nth_mem [of i "takeWhile Q (drop p b)"]
    takeWhile_nth [of i Q "drop p b"] length_takeWhile_le [of Q "drop p b"]
  by (auto dest: set_takeWhileD)

lemma takeWhile_drop_stop:
  assumes "p + length (takeWhile Q (drop p b)) < length b"
  shows "\<not> Q (b ! (p + length (takeWhile Q (drop p b))))"
proof -
  have "length (takeWhile Q (drop p b)) < length (drop p b)"
    using assms by simp
  from nth_length_takeWhile [OF this] show ?thesis
    using assms by simp
qed

text \<open>A position past a stretch that satisfies \<open>Q\<close> scans to the same end.\<close>

lemma scan_end_skip:
  assumes "p \<le> q" "q \<le> length b" "\<And>i. p \<le> i \<Longrightarrow> i < q \<Longrightarrow> Q (b ! i)"
  shows "p + length (takeWhile Q (drop p b)) = q + length (takeWhile Q (drop q b))"
  using assms
proof (induction "q - p" arbitrary: p)
  case 0
  then show ?case by simp
next
  case (Suc n)
  then have lt: "p < q" "p < length b" by auto
  have "Suc p + length (takeWhile Q (drop (Suc p) b)) = q + length (takeWhile Q (drop q b))"
    using Suc.hyps(2) Suc.prems lt by (intro Suc.hyps(1)) auto
  with lt Suc.prems(3) [of p] show ?case
    by (simp add: takeWhile_drop_Cons)
qed

end
