(* ===== verification/Buffer_Parsing.thy ===== *)
theory Buffer_Parsing
  imports Yotta_Prelude
begin

text \<open>
  The interfaces of the parser.  \<open>finder\<close> is what an accelerated search for a stop byte promises
  (it never passes one), with the lemma that a byte-by-byte loop gives the same answer when it is
  started from where the search stopped.  \<open>buffer_parser\<close> is what every parsing function of
  \<^verbatim>\<open>picohttpparser.c\<close> promises about the array \<^verbatim>\<open>[buf, buf_end)\<close>; \<open>parser_seq\<close> is
  two of them in a row.
\<close>

section \<open>The end of a scan\<close>

definition scan_end :: "(char \<Rightarrow> bool) \<Rightarrow> char list \<Rightarrow> nat \<Rightarrow> nat" where
  "scan_end Q b p = p + length (takeWhile Q (drop p b))"

lemma scan_end_bounds: "p \<le> length b \<Longrightarrow> p \<le> scan_end Q b p \<and> scan_end Q b p \<le> length b"
  using length_takeWhile_drop_le by (simp add: scan_end_def)

lemma scan_end_step:
  "p < length b \<Longrightarrow> scan_end Q b p = (if Q (b ! p) then scan_end Q b (Suc p) else p)"
  by (simp add: scan_end_def takeWhile_drop_Cons)

lemma scan_end_at_end [simp]: "scan_end Q b (length b) = length b"
  by (simp add: scan_end_def)

lemma scan_end_inside: "p \<le> i \<Longrightarrow> i < scan_end Q b p \<Longrightarrow> Q (b ! i)"
  using takeWhile_drop_nth [of "i - p" Q p b] by (simp add: scan_end_def)

lemma scan_end_stop: "scan_end Q b p < length b \<Longrightarrow> \<not> Q (b ! scan_end Q b p)"
  by (simp add: scan_end_def takeWhile_drop_stop)

lemma scan_end_from:
  assumes "p \<le> q" "q \<le> length b" "\<And>i. p \<le> i \<Longrightarrow> i < q \<Longrightarrow> Q (b ! i)"
  shows "scan_end Q b p = scan_end Q b q"
  unfolding scan_end_def by (rule scan_end_skip) fact+

lemma scan_end_eqI:
  assumes "p \<le> e" "e \<le> length b" "\<And>i. p \<le> i \<Longrightarrow> i < e \<Longrightarrow> Q (b ! i)"
    and "e < length b \<Longrightarrow> \<not> Q (b ! e)"
  shows "scan_end Q b p = e"
proof (cases "e < length b")
  case True
  with assms scan_end_from [of p e b Q] show ?thesis by (simp add: scan_end_step)
next
  case False
  with assms scan_end_from [of p e b Q] show ?thesis by simp
qed

lemma scan_end_append:
  assumes "scan_end Q b p < length b"
  shows "scan_end Q (b @ c) p = scan_end Q b p"
proof (rule scan_end_eqI)
  show "p \<le> scan_end Q b p" by (simp add: scan_end_def)
  show "scan_end Q b p \<le> length (b @ c)" using assms by simp
  show "Q ((b @ c) ! i)" if "p \<le> i" "i < scan_end Q b p" for i
    using that assms scan_end_inside [of p i Q b] by (simp add: nth_append)
  show "\<not> Q ((b @ c) ! scan_end Q b p)"
    using assms scan_end_stop [OF assms] by (simp add: nth_append)
qed

section \<open>Accelerated search\<close>

locale finder =
  fixes find :: "char list \<Rightarrow> nat \<Rightarrow> (nat \<times> bool) outcome"
    and stop :: "char \<Rightarrow> bool"
  assumes find_total: "p \<le> length b \<Longrightarrow> \<exists>q f. find b p = Ret (q, f) \<and> p \<le> q \<and> q \<le> length b \<and>
    (\<forall>i. p \<le> i \<longrightarrow> i < q \<longrightarrow> \<not> stop (b ! i)) \<and> (f \<longrightarrow> q < length b \<and> stop (b ! q))"
begin

lemma accelerate:
  assumes "p \<le> length b"
    and "\<And>q. q \<le> length b \<Longrightarrow> cont (q, False) = R (scan_end (\<lambda>c. \<not> stop c) b q)"
    and "\<And>q. q < length b \<Longrightarrow> stop (b ! q) \<Longrightarrow> cont (q, True) = R q"
  shows "obind (find b p) cont = R (scan_end (\<lambda>c. \<not> stop c) b p)"
proof -
  obtain q f where q: "find b p = Ret (q, f)" "p \<le> q" "q \<le> length b"
    "\<forall>i. p \<le> i \<longrightarrow> i < q \<longrightarrow> \<not> stop (b ! i)" "f \<longrightarrow> q < length b \<and> stop (b ! q)"
    using find_total [OF assms(1)] by blast
  have se: "scan_end (\<lambda>c. \<not> stop c) b p = scan_end (\<lambda>c. \<not> stop c) b q"
    using q by (intro scan_end_from) auto
  show ?thesis
  proof (cases f)
    case True
    with q have "scan_end (\<lambda>c. \<not> stop c) b q = q" by (simp add: scan_end_step)
    with True q se assms(3) show ?thesis by simp
  next
    case False
    with q se assms(2) show ?thesis by simp
  qed
qed

end

section \<open>The contract of a parsing function\<close>

text \<open>
  A parsing function that starts inside the array (or at its end) ends inside it or at its end and
  never before it started, fails with \<open>-1\<close> or \<open>-2\<close> only, and never reads outside the array.
\<close>

locale safe_parser =
  fixes run :: "char list \<Rightarrow> nat \<Rightarrow> 'a outcome"
    and rest :: "'a \<Rightarrow> nat"
  assumes run_Ret: "p \<le> length b \<Longrightarrow> run b p = Ret x \<Longrightarrow> p \<le> rest x \<and> rest x \<le> length b"
    and run_Fail: "p \<le> length b \<Longrightarrow> run b p = Fail r \<Longrightarrow> r = -1 \<or> r = -2"
    and run_safe: "p \<le> length b \<Longrightarrow> run b p \<noteq> Crash OutOfBounds"

text \<open>
  Most of them moreover do not depend on how the data is cut into pieces: unless the function asks
  for more data (\<open>-2\<close>), it gives the same answer when more data follows.
\<close>

locale buffer_parser = safe_parser +
  assumes run_stable: "p \<le> length b \<Longrightarrow> run b p \<noteq> Fail (-2) \<Longrightarrow> run (b @ c) p = run b p"
begin

lemma stable_Ret: "p \<le> length b \<Longrightarrow> run b p = Ret x \<Longrightarrow> run (b @ c) p = Ret x"
  using run_stable [of p b c] by simp

lemma prefix_cases:
  "p \<le> length b \<Longrightarrow> run b p = Fail (-2) \<or> run (b @ c) p = run b p"
  using run_stable by blast

end

text \<open>
  Two parsing functions in a row.  The second one may use the start of the first and its result.
\<close>

locale safe_seq = safe_parser run1 rest1
  for run1 :: "char list \<Rightarrow> nat \<Rightarrow> 'a outcome" and rest1 :: "'a \<Rightarrow> nat" +
  fixes run2 :: "nat \<Rightarrow> 'a \<Rightarrow> char list \<Rightarrow> nat \<Rightarrow> 'b outcome" and rest2 :: "'b \<Rightarrow> nat"
  assumes second_safe: "safe_parser (run2 p x) rest2"
begin

sublocale seq: safe_parser "\<lambda>b p. obind (run1 b p) (\<lambda>x. run2 p x b (rest1 x))" rest2
proof
  fix p :: nat and b :: "char list" and x :: 'b and r :: int
  assume p: "p \<le> length b"
  show "p \<le> rest2 x \<and> rest2 x \<le> length b"
    if "obind (run1 b p) (\<lambda>x. run2 p x b (rest1 x)) = Ret x"
    using that run_Ret [OF p] safe_parser.run_Ret [OF second_safe]
    by (fastforce simp: obind_Ret_iff)
  show "r = -1 \<or> r = -2" if "obind (run1 b p) (\<lambda>x. run2 p x b (rest1 x)) = Fail r"
    using that run_Fail [OF p] run_Ret [OF p] safe_parser.run_Fail [OF second_safe]
    by (fastforce simp: obind_Fail_iff)
  show "obind (run1 b p) (\<lambda>x. run2 p x b (rest1 x)) \<noteq> Crash OutOfBounds"
    using run_safe [OF p] run_Ret [OF p] safe_parser.run_safe [OF second_safe]
    by (fastforce simp: obind_Crash_iff)
qed

lemma seq_safe: "safe_parser (\<lambda>b p. obind (run1 b p) (\<lambda>x. run2 p x b (rest1 x))) rest2"
  by (rule seq.safe_parser_axioms)

end

locale parser_seq = buffer_parser run1 rest1
  for run1 :: "char list \<Rightarrow> nat \<Rightarrow> 'a outcome" and rest1 :: "'a \<Rightarrow> nat" +
  fixes run2 :: "nat \<Rightarrow> 'a \<Rightarrow> char list \<Rightarrow> nat \<Rightarrow> 'b outcome" and rest2 :: "'b \<Rightarrow> nat"
  assumes second: "buffer_parser (run2 p x) rest2"
begin

sublocale safe_seq run1 rest1 run2 rest2
  using second by unfold_locales (auto simp: buffer_parser_def safe_parser_def)

sublocale stable_seq: buffer_parser "\<lambda>b p. obind (run1 b p) (\<lambda>x. run2 p x b (rest1 x))" rest2
proof
  fix p :: nat and b c :: "char list"
  assume p: "p \<le> length b"
  show "obind (run1 (b @ c) p) (\<lambda>x. run2 p x (b @ c) (rest1 x)) =
        obind (run1 b p) (\<lambda>x. run2 p x b (rest1 x))"
    if "obind (run1 b p) (\<lambda>x. run2 p x b (rest1 x)) \<noteq> Fail (-2)"
  proof (cases "run1 b p")
    case (Ret y)
    then have "rest1 y \<le> length b" using run_Ret [OF p] by blast
    with Ret that show ?thesis
      using stable_Ret [OF p Ret, of c] buffer_parser.run_stable [OF second, of "rest1 y" b p y c]
      by simp
  next
    case (Fail r)
    with that have "run1 b p \<noteq> Fail (-2)" by auto
    from run_stable [OF p this, of c] Fail show ?thesis by simp
  next
    case (Crash k)
    then have "run1 b p \<noteq> Fail (-2)" by auto
    from run_stable [OF p this, of c] Crash show ?thesis by simp
  qed
qed

lemma seq_parser: "buffer_parser (\<lambda>b p. obind (run1 b p) (\<lambda>x. run2 p x b (rest1 x))) rest2"
  by (rule stable_seq.buffer_parser_axioms)

end

lemma parser_seqI:
  assumes "buffer_parser run1 rest1" "\<And>p x. buffer_parser (run2 p x) rest2"
  shows "buffer_parser (\<lambda>b p. obind (run1 b p) (\<lambda>x. run2 p x b (rest1 x))) rest2"
proof -
  have "parser_seq run1 rest1 run2 rest2"
    using assms by (intro parser_seq.intro parser_seq_axioms.intro)
  then show ?thesis by (rule parser_seq.seq_parser)
qed

text \<open>Changing the result, not the position.\<close>

lemma safe_mapI:
  assumes "safe_parser run rest" "\<And>x. rest' (f x) = rest x"
  shows "safe_parser (\<lambda>b p. obind (run b p) (\<lambda>x. Ret (f x))) rest'"
  using safe_parser.run_Ret [OF assms(1)] safe_parser.run_Fail [OF assms(1)]
    safe_parser.run_safe [OF assms(1)] assms(2)
  by unfold_locales (auto simp: obind_iffs)

lemma buffer_parser_safe: "buffer_parser run rest \<Longrightarrow> safe_parser run rest"
  by (rule buffer_parser.axioms(1))

lemma parser_mapI:
  assumes "buffer_parser run rest" "\<And>x. rest' (f x) = rest x"
  shows "buffer_parser (\<lambda>b p. obind (run b p) (\<lambda>x. Ret (f x))) rest'"
proof (rule buffer_parser.intro)
  show "safe_parser (\<lambda>b p. obind (run b p) (\<lambda>x. Ret (f x))) rest'"
    using assms by (intro safe_mapI buffer_parser_safe)
  show "buffer_parser_axioms (\<lambda>b p. obind (run b p) (\<lambda>x. Ret (f x)))"
    using buffer_parser.run_stable [OF assms(1)]
    by unfold_locales (metis obind.simps(2))
qed

end
