(* ===== verification/Pico_Scan.thy ===== *)
theory Pico_Scan
  imports Buffer_Parsing
begin

unbundle bit_operations_syntax

text \<open>
  The scanners of \<^verbatim>\<open>picohttpparser.c\<close>: the macros \<^verbatim>\<open>CHECK_EOF\<close>, \<^verbatim>\<open>EXPECT_CHAR\<close> and
  \<^verbatim>\<open>ADVANCE_TOKEN\<close>, and the functions \<^verbatim>\<open>findchar_fast\<close>, \<^verbatim>\<open>get_token_to_eol\<close>,
  \<^verbatim>\<open>is_complete\<close>, \<^verbatim>\<open>parse_int\<close> and \<^verbatim>\<open>parse_http_version\<close>.  \<open>b\<close> is the array
  \<^verbatim>\<open>[buf_start, buf_end)\<close> and a pointer is an offset into it.  \<open>sse\<close> says whether the file
  is compiled with SSE 4.2, which selects other code in \<^verbatim>\<open>findchar_fast\<close> and
  \<^verbatim>\<open>get_token_to_eol\<close>; every scanner is proved equal to one reference definition that
  does not depend on it.
\<close>

section \<open>Macros\<close>

definition check_eof :: "char list \<Rightarrow> nat \<Rightarrow> unit outcome" where
  "check_eof b p = (if p = length b then Fail (-2) else Ret ())"

definition expect_char :: "char \<Rightarrow> char list \<Rightarrow> nat \<Rightarrow> nat outcome" where
  "expect_char ch b p =
     obind (check_eof b p) (\<lambda>_.
     obind (rd b p) (\<lambda>c. if c \<noteq> ch then Fail (-1) else Ret (Suc p)))"

definition is_printable_ascii :: "char \<Rightarrow> bool" where
  "is_printable_ascii c \<longleftrightarrow> (word_of_nat (uchar c) - 32 :: 32 word) < 95"

lemma is_printable_ascii_iff: "is_printable_ascii c \<longleftrightarrow> 32 \<le> uchar c \<and> uchar c < 127"
proof (cases "32 \<le> uchar c")
  case True
  then have "(word_of_nat (uchar c) - 32 :: 32 word) = word_of_nat (uchar c - 32)"
    by (simp add: of_nat_diff)
  moreover have "unat (word_of_nat (uchar c - 32) :: 32 word) = uchar c - 32"
  proof -
    have "uchar c - 32 < 4294967296" using uchar_less [of c] by linarith
    then show ?thesis by (simp add: unat_of_nat)
  qed
  ultimately show ?thesis
    using True by (simp add: is_printable_ascii_def word_less_nat_alt) linarith
next
  case False
  have *: "uint (word_of_nat (uchar c) :: 32 word) = int (uchar c)"
  proof -
    have "uchar c < 4294967296" using uchar_less [of c] by linarith
    then show ?thesis by (simp add: uint_nat unat_of_nat)
  qed
  have "uint (word_of_nat (uchar c) - 32 :: 32 word) = (int (uchar c) - 32) mod 2 ^ 32"
    using * by (simp add: uint_word_ariths)
  also have "\<dots> = (int (uchar c) - 32 + 2 ^ 32) mod 2 ^ 32"
    by (simp only: mod_add_self2)
  also have "\<dots> = int (uchar c) - 32 + 2 ^ 32"
    using False by (intro mod_pos_pos_trivial) auto
  finally have "\<not> (word_of_nat (uchar c) - 32 :: 32 word) < 95"
    using False by (simp add: word_less_def)
  with False show ?thesis by (simp add: is_printable_ascii_def)
qed

section \<open>findchar_fast\<close>

text \<open>
  \<^verbatim>\<open>_mm_cmpestri\<close> in the mode the code uses (unsigned bytes, ranges, least significant
  index): the index of the first byte of the block inside one of the ranges, 16 if there is none.
\<close>

fun in_ranges :: "char list \<Rightarrow> char \<Rightarrow> bool" where
  "in_ranges (lo # hi # rs) c \<longleftrightarrow>
     uchar lo \<le> uchar c \<and> uchar c \<le> uchar hi \<or> in_ranges rs c"
| "in_ranges _ c \<longleftrightarrow> False"

definition cmpestri :: "char list \<Rightarrow> char list \<Rightarrow> nat" where
  "cmpestri ranges block =
     (let i = length (takeWhile (\<lambda>c. \<not> in_ranges ranges c) (take 16 block))
      in if i < length block then i else 16)"

definition load16 :: "char list \<Rightarrow> nat \<Rightarrow> char list outcome" where
  "load16 b p = (if p + 16 \<le> length b then Ret (take 16 (drop p b)) else Crash OutOfBounds)"

function findchar_blocks :: "char list \<Rightarrow> char list \<Rightarrow> nat \<Rightarrow> nat \<Rightarrow> (nat \<times> bool) outcome" where
  "findchar_blocks ranges b p left =
     obind (load16 b p) (\<lambda>b16.
       let r = cmpestri ranges b16 in
       if r \<noteq> 16 then Ret (p + r, True)
       else if left - 16 \<noteq> 0 then findchar_blocks ranges b (p + 16) (left - 16)
       else Ret (p + 16, False))"
  by pat_completeness auto
termination
  by (relation "measure (\<lambda>(ranges, b, p, left). left)") auto

declare findchar_blocks.simps [simp del]

definition findchar_fast :: "bool \<Rightarrow> char list \<Rightarrow> nat \<Rightarrow> char list \<Rightarrow> (nat \<times> bool) outcome" where
  "findchar_fast sse b p ranges =
     (if sse \<and> 16 \<le> length b - p
      then findchar_blocks ranges b p (16 * ((length b - p) div 16))
      else Ret (p, False))"

section \<open>ADVANCE_TOKEN\<close>

function token_loop :: "char list \<Rightarrow> nat \<Rightarrow> nat outcome" where
  "token_loop b p =
     obind (rd b p) (\<lambda>c.
       if c = SP then Ret p
       else if \<not> is_printable_ascii c \<and> (uchar c < 32 \<or> c = DEL) then Fail (-1)
       else obind (check_eof b (Suc p)) (\<lambda>_. token_loop b (Suc p)))"
  by pat_completeness auto
termination
  by (relation "measure (\<lambda>(b, p). length b - p)") (auto simp: rd_Ret_iff)

declare token_loop.simps [simp del]

definition advance_token :: "bool \<Rightarrow> char list \<Rightarrow> nat \<Rightarrow> (nat \<times> nat \<times> nat) outcome" where
  "advance_token sse b p =
     obind (findchar_fast sse b p [NUL, SP, DEL, DEL]) (\<lambda>(q, found2).
     obind (if \<not> found2 then check_eof b q else Ret ()) (\<lambda>_.
     obind (token_loop b q) (\<lambda>e. Ret (p, e - p, e))))"

section \<open>get_token_to_eol\<close>

definition is_ctl :: "char \<Rightarrow> bool" where
  "is_ctl c \<longleftrightarrow> uchar c < 32 \<and> c \<noteq> HT \<or> c = DEL"

text \<open>
  The loop over groups of eight bytes (\<^verbatim>\<open>DOIT\<close>, eight times): the first component is the
  pointer where the group stopped, the second says that it stopped at a byte that is not
  printable.
\<close>

fun doit :: "nat \<Rightarrow> char list \<Rightarrow> nat \<Rightarrow> (nat \<times> bool) outcome" where
  "doit 0 b p = Ret (p, False)"
| "doit (Suc n) b p =
     obind (rd b p) (\<lambda>c. if \<not> is_printable_ascii c then Ret (p, True) else doit n b (Suc p))"

lemma doit_progress:
  "doit n b p = Ret (q, np) \<Longrightarrow> p \<le> q \<and> (np \<longrightarrow> q < length b) \<and> (\<not> np \<longrightarrow> q = p + n)"
proof (induction n arbitrary: p)
  case (Suc n)
  then show ?case
    by (fastforce simp: obind_Ret_iff rd_Ret_iff split: if_splits)
qed simp

function eol_groups :: "char list \<Rightarrow> nat \<Rightarrow> (nat \<times> bool) outcome" where
  "eol_groups b p =
     (if 8 \<le> length b - p then
        obind (doit 8 b p) (\<lambda>(q, non_printable).
          if \<not> non_printable then eol_groups b q
          else obind (rd b q) (\<lambda>c.
            if is_ctl c then Ret (q, True) else eol_groups b (Suc q)))
      else Ret (p, False))"
  by pat_completeness auto
termination
  by (relation "measure (\<lambda>(b, p). length b - p)") (auto dest: doit_progress)

declare eol_groups.simps [simp del]

function eol_loop :: "char list \<Rightarrow> nat \<Rightarrow> nat outcome" where
  "eol_loop b p =
     obind (check_eof b p) (\<lambda>_.
     obind (rd b p) (\<lambda>c.
       if \<not> is_printable_ascii c \<and> is_ctl c then Ret p else eol_loop b (Suc p)))"
  by pat_completeness auto
termination
  by (relation "measure (\<lambda>(b, p). length b - p)") (auto simp: rd_Ret_iff)

declare eol_loop.simps [simp del]

definition get_token_to_eol :: "bool \<Rightarrow> char list \<Rightarrow> nat \<Rightarrow> (nat \<times> nat \<times> nat) outcome" where
  "get_token_to_eol sse b p =
     obind (if sse then findchar_fast sse b p
                [NUL, CHR 0x08, LF, CHR 0x1F, DEL, DEL]
            else eol_groups b p) (\<lambda>(q, found).
     obind (if found then Ret q else eol_loop b q) (\<lambda>e.
     obind (rd b e) (\<lambda>c.
       if c = CR then obind (expect_char LF b (Suc e)) (\<lambda>e'. Ret (p, e' - 2 - p, e'))
       else if c = LF then Ret (p, e - p, Suc e)
       else Fail (-1))))"

section \<open>is_complete\<close>

function complete_loop :: "char list \<Rightarrow> nat \<Rightarrow> nat \<Rightarrow> nat outcome" where
  "complete_loop b p ret_cnt =
     obind (check_eof b p) (\<lambda>_.
     obind (rd b p) (\<lambda>c.
       if c = CR then
         obind (check_eof b (Suc p)) (\<lambda>_.
         obind (expect_char LF b (Suc p)) (\<lambda>q.
           if Suc ret_cnt = 2 then Ret q else complete_loop b q (Suc ret_cnt)))
       else if c = LF then
         (if Suc ret_cnt = 2 then Ret (Suc p) else complete_loop b (Suc p) (Suc ret_cnt))
       else complete_loop b (Suc p) 0))"
  by pat_completeness auto
termination
  by (relation "measure (\<lambda>(b, p, n). length b - p)")
     (auto simp: rd_Ret_iff expect_char_def check_eof_def obind_Ret_iff split: if_splits)

declare complete_loop.simps [simp del]

definition is_complete :: "char list \<Rightarrow> nat \<Rightarrow> nat outcome" where
  "is_complete b last_len = complete_loop b (if last_len < 3 then 0 else last_len - 3) 0"

section \<open>parse_int and parse_http_version\<close>

definition INT_MAX :: int where "INT_MAX = 2147483647"

definition is_digit :: "char \<Rightarrow> bool" where
  "is_digit c \<longleftrightarrow> schar CHR ''0'' \<le> schar c \<and> schar c \<le> schar CHR ''9''"

text \<open>
  \<^verbatim>\<open>v = v * 10 + *buf - '0'\<close> on \<^verbatim>\<open>int\<close>: the product and the sum overflow before the
  subtraction can bring them back.
\<close>

function int_loop :: "char list \<Rightarrow> nat \<Rightarrow> int \<Rightarrow> (int \<times> nat) outcome" where
  "int_loop b p v =
     obind (check_eof b p) (\<lambda>_.
     obind (rd b p) (\<lambda>c.
       if is_digit c then
         (if INT_MAX < v * 10 + schar c then Crash SignedOverflow
          else int_loop b (Suc p) (v * 10 + schar c - schar CHR ''0''))
       else Ret (v, p)))"
  by pat_completeness auto
termination
  by (relation "measure (\<lambda>(b, p, v). length b - p)") (auto simp: rd_Ret_iff)

declare int_loop.simps [simp del]

definition parse_int :: "char list \<Rightarrow> nat \<Rightarrow> (int \<times> nat) outcome" where
  "parse_int b p =
     obind (check_eof b p) (\<lambda>_.
     obind (rd b p) (\<lambda>c. if \<not> is_digit c then Fail (-1) else int_loop b p 0))"

definition parse_http_version :: "char list \<Rightarrow> nat \<Rightarrow> (int \<times> nat) outcome" where
  "parse_http_version b p =
     obind (expect_char CHR ''H'' b p) (\<lambda>p.
     obind (expect_char CHR ''T'' b p) (\<lambda>p.
     obind (expect_char CHR ''T'' b p) (\<lambda>p.
     obind (expect_char CHR ''P'' b p) (\<lambda>p.
     obind (expect_char CHR ''/'' b p) (\<lambda>p.
     obind (expect_char CHR ''1'' b p) (\<lambda>p.
     obind (expect_char CHR ''.'' b p) (\<lambda>p.
     parse_int b p)))))))"

section \<open>The scanners and their reference definitions\<close>

subsection \<open>Accelerated searches\<close>

lemma cmpestri_spec:
  assumes "length blk = 16"
  shows "cmpestri rs blk = length (takeWhile (\<lambda>c. \<not> in_ranges rs c) blk)"
  using assms length_takeWhile_le [of "\<lambda>c. \<not> in_ranges rs c" blk]
  by (auto simp: cmpestri_def Let_def)

lemma findchar_blocks_spec:
  assumes "p + left \<le> length b" "0 < left" "16 dvd left"
  shows "\<exists>q f. findchar_blocks rs b p left = Ret (q, f) \<and> p \<le> q \<and> q \<le> p + left \<and>
           (\<forall>i. p \<le> i \<longrightarrow> i < q \<longrightarrow> \<not> in_ranges rs (b ! i)) \<and>
           (if f then q < length b \<and> in_ranges rs (b ! q) else q = p + left)"
  using assms
proof (induction rs b p left rule: findchar_blocks.induct)
  case (1 rs b p left)
  define r where "r = length (takeWhile (\<lambda>c. \<not> in_ranges rs c) (take 16 (drop p b)))"
  have le16: "16 \<le> left" using 1(3,4) by (auto elim: dvdE)
  have l16: "load16 b p = Ret (take 16 (drop p b))" and len: "length (take 16 (drop p b)) = 16"
    using 1(2) le16 by (auto simp: load16_def)
  have cr: "cmpestri rs (take 16 (drop p b)) = r"
    using cmpestri_spec [OF len] by (simp add: r_def)
  have r: "r \<le> 16" unfolding r_def using length_takeWhile_le len by (metis)
  have skip: "\<not> in_ranges rs (b ! i)" if "p \<le> i" "i < p + r" for i
  proof -
    have "take 16 (drop p b) ! (i - p) = b ! i" using that r le16 1(2) by simp
    with takeWhile_nth [of "i - p" _ "take 16 (drop p b)"] nth_mem that show ?thesis
      by (metis (no_types, lifting) add.commute less_diff_conv2 r_def set_takeWhileD)
  qed
  show ?case
  proof (cases "r = 16")
    case False
    then have "in_ranges rs (take 16 (drop p b) ! r)"
      using nth_length_takeWhile [of "\<lambda>c. \<not> in_ranges rs c" "take 16 (drop p b)"] r len
      by (auto simp: r_def)
    then have "in_ranges rs (b ! (p + r))" using False r 1(2) le16 by simp
    with False r skip 1(2) le16 l16 cr show ?thesis
      by (subst findchar_blocks.simps) (auto simp: Let_def)
  next
    case True
    show ?thesis
    proof (cases "left - 16 = 0")
      case True
      with \<open>r = 16\<close> skip l16 cr le16 show ?thesis
        by (subst findchar_blocks.simps) (auto simp: Let_def)
    next
      case False
      have "16 dvd left - 16" using 1(4) by (simp add: dvd_diff_nat)
      with 1(1) [OF l16 refl _ False] True cr 1(2) False le16
      obtain q f where "findchar_blocks rs b (p + 16) (left - 16) = Ret (q, f)"
        "p + 16 \<le> q" "q \<le> p + left"
        "\<forall>i. p + 16 \<le> i \<longrightarrow> i < q \<longrightarrow> \<not> in_ranges rs (b ! i)"
        "if f then q < length b \<and> in_ranges rs (b ! q) else q = p + left"
        by auto
      moreover have "findchar_blocks rs b p left = findchar_blocks rs b (p + 16) (left - 16)"
        using False True l16 cr by (subst findchar_blocks.simps) (simp add: Let_def)
      moreover have "\<not> in_ranges rs (b ! i)" if "p \<le> i" "i < q" for i
        using that skip [of i] calculation(4) True by (cases "i < p + 16") auto
      ultimately show ?thesis by auto
    qed
  qed
qed

lemma finder_findchar_fast: "finder (\<lambda>b p. findchar_fast sse b p rs) (in_ranges rs)"
proof
  fix p :: nat and b :: "char list"
  assume le: "p \<le> length b"
  show "\<exists>q f. findchar_fast sse b p rs = Ret (q, f) \<and> p \<le> q \<and> q \<le> length b \<and>
    (\<forall>i. p \<le> i \<longrightarrow> i < q \<longrightarrow> \<not> in_ranges rs (b ! i)) \<and>
    (f \<longrightarrow> q < length b \<and> in_ranges rs (b ! q))"
  proof (cases "sse \<and> 16 \<le> length b - p")
    case True
    define left where "left = 16 * ((length b - p) div 16)"
    have l: "p + left \<le> length b" "0 < left" "16 dvd left"
      using True le times_div_less_eq_dividend [of 16 "length b - p"]
      by (auto simp: left_def)
    from findchar_blocks_spec [OF this, of rs] True l show ?thesis
      unfolding findchar_fast_def left_def [symmetric]
      by (auto split: if_splits intro: order.trans)
  next
    case False
    with le show ?thesis by (auto simp: findchar_fast_def)
  qed
qed

lemma findchar_accelerate:
  "p \<le> length b \<Longrightarrow>
   (\<And>q. q \<le> length b \<Longrightarrow> cont (q, False) = R (scan_end (\<lambda>c. \<not> in_ranges rs c) b q)) \<Longrightarrow>
   (\<And>q. q < length b \<Longrightarrow> in_ranges rs (b ! q) \<Longrightarrow> cont (q, True) = R q) \<Longrightarrow>
   obind (findchar_fast sse b p rs) cont = R (scan_end (\<lambda>c. \<not> in_ranges rs c) b p)"
  by (rule finder.accelerate [OF finder_findchar_fast])

lemma doit_spec:
  assumes "p + n \<le> length b"
  shows "\<exists>q np. doit n b p = Ret (q, np) \<and> p \<le> q \<and> q \<le> p + n \<and>
    (\<forall>i. p \<le> i \<longrightarrow> i < q \<longrightarrow> is_printable_ascii (b ! i)) \<and>
    (if np then q < p + n \<and> \<not> is_printable_ascii (b ! q) else q = p + n)"
  using assms
proof (induction n arbitrary: p)
  case (Suc n)
  show ?case
  proof (cases "is_printable_ascii (b ! p)")
    case True
    from Suc.prems have "Suc p + n \<le> length b" by simp
    from Suc.IH [OF this] obtain q np where "doit n b (Suc p) = Ret (q, np)" "Suc p \<le> q"
      "q \<le> Suc p + n" "\<forall>i. Suc p \<le> i \<longrightarrow> i < q \<longrightarrow> is_printable_ascii (b ! i)"
      "if np then q < Suc p + n \<and> \<not> is_printable_ascii (b ! q) else q = Suc p + n" by blast
    moreover from this True have "\<forall>i. p \<le> i \<longrightarrow> i < q \<longrightarrow> is_printable_ascii (b ! i)"
      by (metis Suc_leI le_neq_implies_less)
    ultimately show ?thesis using True Suc.prems
      by (intro exI [of _ q] exI [of _ np]) (auto split: if_splits)
  next
    case False
    with Suc.prems show ?thesis by auto
  qed
next
  case 0
  then show ?case by (intro exI [of _ p] exI [of _ False]) simp
qed

lemma is_ctl_not_printable: "is_ctl c \<Longrightarrow> \<not> is_printable_ascii c"
  by (auto simp: is_ctl_def is_printable_ascii_iff uchar_def)

lemma eol_groups_spec:
  "p \<le> length b \<Longrightarrow> \<exists>q f. eol_groups b p = Ret (q, f) \<and> p \<le> q \<and> q \<le> length b \<and>
    (\<forall>i. p \<le> i \<longrightarrow> i < q \<longrightarrow> \<not> is_ctl (b ! i)) \<and> (f \<longrightarrow> q < length b \<and> is_ctl (b ! q))"
proof (induction b p rule: eol_groups.induct)
  case (1 b p)
  show ?case
  proof (cases "8 \<le> length b - p")
    case True
    then have "p + 8 \<le> length b" by simp
    from doit_spec [OF this] obtain q np where d: "doit 8 b p = Ret (q, np)" "p \<le> q" "q \<le> p + 8"
      "\<And>i. p \<le> i \<Longrightarrow> i < q \<Longrightarrow> is_printable_ascii (b ! i)"
      "if np then q < p + 8 \<and> \<not> is_printable_ascii (b ! q) else q = p + 8" by blast
    then have pr: "\<And>i. p \<le> i \<Longrightarrow> i < q \<Longrightarrow> \<not> is_ctl (b ! i)"
      using is_ctl_not_printable by blast
    consider "\<not> np" | "np" "is_ctl (b ! q)" | "np" "\<not> is_ctl (b ! q)" by blast
    then show ?thesis
    proof cases
      case 1
      with \<open>p + 8 \<le> length b\<close> d have "q \<le> length b" by simp
      have "eol_groups b p = eol_groups b q"
        using 1 True d by (subst eol_groups.simps) simp
      moreover obtain q' f where "eol_groups b q = Ret (q', f)" "q \<le> q'" "q' \<le> length b"
        "\<forall>i. q \<le> i \<longrightarrow> i < q' \<longrightarrow> \<not> is_ctl (b ! i)" "f \<longrightarrow> q' < length b \<and> is_ctl (b ! q')"
        using "1.IH"(1) [OF True d(1) refl 1 \<open>q \<le> length b\<close>] by blast
      ultimately show ?thesis using pr \<open>p \<le> q\<close>
        by (intro exI [of _ q'] exI [of _ f]) (metis le_trans not_le)
    next
      case 2
      with True d pr \<open>p + 8 \<le> length b\<close> show ?thesis
        by (subst eol_groups.simps) auto
    next
      case 3
      then have q: "q < length b" using d \<open>p + 8 \<le> length b\<close> by simp
      have "eol_groups b p = eol_groups b (Suc q)"
        using 3 True d q by (subst eol_groups.simps) simp
      moreover obtain q' f where "eol_groups b (Suc q) = Ret (q', f)" "Suc q \<le> q'" "q' \<le> length b"
        "\<forall>i. Suc q \<le> i \<longrightarrow> i < q' \<longrightarrow> \<not> is_ctl (b ! i)" "f \<longrightarrow> q' < length b \<and> is_ctl (b ! q')"
        using "1.IH"(2) [OF True d(1) refl] 3 q by auto
      ultimately show ?thesis using pr \<open>p \<le> q\<close> 3(2)
        by (intro exI [of _ q'] exI [of _ f]) (metis Suc_leD Suc_leI le_trans not_less_iff_gr_or_eq not_le)
    qed
  next
    case False
    with "1.prems" show ?thesis by (subst eol_groups.simps) auto
  qed
qed

definition tok_char :: "char \<Rightarrow> bool" where
  "tok_char c \<longleftrightarrow> 32 < uchar c \<and> c \<noteq> DEL"

definition token_spec :: "char list \<Rightarrow> nat \<Rightarrow> (nat \<times> nat \<times> nat) outcome" where
  "token_spec b p =
     (let e = scan_end tok_char b p in
      if e = length b then Fail (-2)
      else if b ! e = SP then Ret (p, e - p, e) else Fail (-1))"

lemma SP_uchar: "c = SP \<longleftrightarrow> uchar c = 32" and DEL_uchar: "c = DEL \<longleftrightarrow> uchar c = 127"
  using uchar_eq_iff [of c SP] uchar_eq_iff [of c DEL] by (simp_all add: uchar_def)

lemma token_loop_spec:
  "p < length b \<Longrightarrow> token_loop b p =
     (let e = scan_end tok_char b p in
      if e = length b then Fail (-2) else if b ! e = SP then Ret e else Fail (-1))"
proof (induction b p rule: token_loop.induct)
  case (1 b p)
  have c: "b ! p \<noteq> SP \<and> \<not> (\<not> is_printable_ascii (b ! p) \<and> (uchar (b ! p) < 32 \<or> b ! p = DEL))"
    if "tok_char (b ! p)" using that by (auto simp: tok_char_def SP_uchar)
  have *: "token_loop b p = (if b ! p = SP then Ret p
       else if \<not> is_printable_ascii (b ! p) \<and> (uchar (b ! p) < 32 \<or> b ! p = DEL) then Fail (-1)
       else if Suc p = length b then Fail (-2) else token_loop b (Suc p))"
    using 1(2) by (subst token_loop.simps) (simp add: check_eof_def)
  show ?case
  proof (cases "tok_char (b ! p)")
    case True
    then have "token_loop b p = (if Suc p = length b then Fail (-2) else token_loop b (Suc p))"
      by (subst *) (auto simp: tok_char_def SP_uchar)
    moreover have "scan_end tok_char b p = scan_end tok_char b (Suc p)"
      using True 1(2) by (simp add: scan_end_def takeWhile_drop_Cons)
    moreover have "Suc p = length b \<Longrightarrow> scan_end tok_char b (Suc p) = length b"
      by (simp add: scan_end_def)
    moreover have "Suc p \<noteq> length b \<Longrightarrow> token_loop b (Suc p) =
      (let e = scan_end tok_char b (Suc p) in
      if e = length b then Fail (-2) else if b ! e = SP then Ret e else Fail (-1))"
      using 1(1) [of "b ! p"] 1(2) c [OF True] by (simp add: check_eof_def)
    ultimately show ?thesis by auto
  next
    case False
    then have "scan_end tok_char b p = p"
      using 1(2) by (simp add: scan_end_def takeWhile_drop_Cons)
    with False 1(2) show ?thesis
      by (subst *) (auto simp: tok_char_def SP_uchar DEL_uchar is_printable_ascii_iff)
  qed
qed

lemma in_token_ranges: "in_ranges [NUL, SP, DEL, DEL] c \<longleftrightarrow> \<not> tok_char c"
  by (auto simp: tok_char_def DEL_uchar) (auto simp: uchar_def)

theorem advance_token_eq_spec: "p \<le> length b \<Longrightarrow> advance_token sse b p = token_spec b p"
proof -
  assume p: "p \<le> length b"
  have *: "\<And>q. q < length b \<Longrightarrow>
     obind (token_loop b q) (\<lambda>e. Ret (p, e - p, e)) =
       (let e = scan_end tok_char b q in
        if e = length b then Fail (-2) else if b ! e = SP then Ret (p, e - p, e) else Fail (-1))"
    by (simp add: token_loop_spec Let_def)
  have "advance_token sse b p = (\<lambda>e. if e = length b then Fail (-2)
      else if b ! e = SP then Ret (p, e - p, e) else Fail (-1))
     (scan_end (\<lambda>c. \<not> in_ranges [NUL, SP, DEL, DEL] c) b p)"
    unfolding advance_token_def
  proof (rule findchar_accelerate [OF p])
    fix q assume "q \<le> length b"
    then show "(case (q, False) of (q, found2) \<Rightarrow>
         obind (if \<not> found2 then check_eof b q else Ret ()) (\<lambda>_.
         obind (token_loop b q) (\<lambda>e. Ret (p, e - p, e)))) =
       (\<lambda>e. if e = length b then Fail (-2)
         else if b ! e = SP then Ret (p, e - p, e) else Fail (-1))
       (scan_end (\<lambda>c. \<not> in_ranges [NUL, SP, DEL, DEL] c) b q)"
      by (cases "q = length b") (simp_all add: check_eof_def * in_token_ranges Let_def del: in_ranges.simps)
  next
    fix q assume q: "q < length b" "in_ranges [NUL, SP, DEL, DEL] (b ! q)"
    then have "scan_end tok_char b q = q"
      by (simp add: scan_end_step in_token_ranges del: in_ranges.simps)
    then show "(case (q, True) of (q, found2) \<Rightarrow>
         obind (if \<not> found2 then check_eof b q else Ret ()) (\<lambda>_.
         obind (token_loop b q) (\<lambda>e. Ret (p, e - p, e)))) =
       (\<lambda>e. if e = length b then Fail (-2)
         else if b ! e = SP then Ret (p, e - p, e) else Fail (-1)) q"
      using q by (simp add: * Let_def del: in_ranges.simps)
  qed
  then show ?thesis by (simp add: token_spec_def Let_def in_token_ranges del: in_ranges.simps)
qed

lemma in_eol_ranges: "in_ranges [NUL, CHR 0x08, LF, CHR 0x1F, DEL, DEL] c \<longleftrightarrow> is_ctl c"
  using uchar_eq_iff [of c HT]
  by (auto simp: is_ctl_def DEL_uchar) (auto simp: uchar_def)

lemma finder_eol:
  "finder (\<lambda>b p. if sse then findchar_fast sse b p [NUL, CHR 0x08, LF, CHR 0x1F, DEL, DEL]
                 else eol_groups b p) is_ctl"
proof (cases sse)
  case True
  have "in_ranges [NUL, CHR 0x08, LF, CHR 0x1F, DEL, DEL] = is_ctl"
    by (rule ext) (rule in_eol_ranges)
  with True finder_findchar_fast [of sse "[NUL, CHR 0x08, LF, CHR 0x1F, DEL, DEL]"]
  show ?thesis by (simp del: in_ranges.simps)
next
  case False
  then show ?thesis by (simp add: finder_def eol_groups_spec)
qed

lemma eol_loop_spec:
  "p \<le> length b \<Longrightarrow> eol_loop b p =
     (let e = scan_end (\<lambda>c. \<not> is_ctl c) b p in if e = length b then Fail (-2) else Ret e)"
proof (induction b p rule: eol_loop.induct)
  case (1 b p)
  show ?case
  proof (cases "p = length b")
    case True
    then show ?thesis by (subst eol_loop.simps) (simp add: check_eof_def)
  next
    case False
    with 1 show ?thesis
      by (subst eol_loop.simps)
         (auto simp: check_eof_def is_ctl_not_printable scan_end_step Let_def)
  qed
qed

definition eol_spec :: "char list \<Rightarrow> nat \<Rightarrow> (nat \<times> nat \<times> nat) outcome" where
  "eol_spec b p =
     (let e = scan_end (\<lambda>c. \<not> is_ctl c) b p in
      if e = length b then Fail (-2)
      else if b ! e = LF then Ret (p, e - p, Suc e)
      else if b ! e \<noteq> CR then Fail (-1)
      else if Suc e = length b then Fail (-2)
      else if b ! Suc e = LF then Ret (p, e - p, e + 2)
      else Fail (-1))"

theorem get_token_to_eol_eq_spec: "p \<le> length b \<Longrightarrow> get_token_to_eol sse b p = eol_spec b p"
proof -
  assume p: "p \<le> length b"
  define tail where "tail e = obind (rd b e) (\<lambda>c.
       if c = CR then obind (expect_char LF b (Suc e)) (\<lambda>e'. Ret (p, e' - 2 - p, e'))
       else if c = LF then Ret (p, e - p, Suc e)
       else Fail (-1))" for e
  have "get_token_to_eol sse b p =
    (\<lambda>e. if e = length b then Fail (-2) else tail e) (scan_end (\<lambda>c. \<not> is_ctl c) b p)"
    unfolding get_token_to_eol_def tail_def
    by (rule finder.accelerate [OF finder_eol p])
       (auto simp: eol_loop_spec Let_def)
  also have "\<dots> = eol_spec b p"
  proof -
    define e where "e = scan_end (\<lambda>c. \<not> is_ctl c) b p"
    have "e \<le> length b" using scan_end_bounds [OF p] by (simp add: e_def)
    then consider "e = length b" | "e < length b" "Suc e = length b" | "e < length b" "Suc e < length b"
      by linarith
    then show ?thesis
      by cases (simp_all add: tail_def eol_spec_def e_def [symmetric] expect_char_def check_eof_def)
  qed
  finally show ?thesis .
qed

interpretation fast: finder "\<lambda>b p. findchar_fast sse b p rs" "in_ranges rs" for sse rs
  by (rule finder_findchar_fast)

interpretation ctl: finder
  "\<lambda>b p. if sse then findchar_fast sse b p [NUL, CHR 0x08, LF, CHR 0x1F, DEL, DEL]
         else eol_groups b p" is_ctl for sse
  by (rule finder_eol)

subsection \<open>Contracts\<close>

text \<open>Every scanner keeps the contract of a parsing function.\<close>

lemma expect_char_parser: "buffer_parser (expect_char ch) (\<lambda>p. p)"
  by unfold_locales
     (auto simp: expect_char_def check_eof_def obind_iffs rd_Ret_iff rd_Crash_iff nth_append
           split: if_splits)

lemma token_spec_parser: "buffer_parser token_spec (\<lambda>(tok, toklen, p). p)"
proof
  fix p :: nat and b c :: "char list"
  assume p: "p \<le> length b"
  note bd = scan_end_bounds [OF p, of tok_char]
  show "token_spec (b @ c) p = token_spec b p" if "token_spec b p \<noteq> Fail (-2)"
  proof -
    have lt: "scan_end tok_char b p < length b"
      using that bd by (auto simp: token_spec_def Let_def split: if_splits)
    with scan_end_append [OF lt, of c] show ?thesis
      by (simp add: token_spec_def Let_def nth_append)
  qed
qed (use scan_end_bounds in \<open>auto simp: token_spec_def Let_def split: if_splits\<close>)

lemma eol_spec_parser: "buffer_parser eol_spec (\<lambda>(tok, toklen, p). p)"
proof
  fix p :: nat and b c :: "char list" and x :: "nat \<times> nat \<times> nat"
  assume p: "p \<le> length b"
  define e where "e = scan_end (\<lambda>c. \<not> is_ctl c) b p"
  have bd: "p \<le> e" "e \<le> length b" using scan_end_bounds [OF p] by (auto simp: e_def)
  show "p \<le> (case x of (tok, toklen, p) \<Rightarrow> p) \<and> (case x of (tok, toklen, p) \<Rightarrow> p) \<le> length b"
    if "eol_spec b p = Ret x"
    using that bd unfolding eol_spec_def e_def [symmetric] by (auto simp: Let_def split: if_splits)
  show "eol_spec (b @ c) p = eol_spec b p" if "eol_spec b p \<noteq> Fail (-2)"
  proof -
    have lt: "e < length b"
      using that bd by (auto simp: eol_spec_def e_def Let_def split: if_splits)
    then have "scan_end (\<lambda>c. \<not> is_ctl c) (b @ c) p = e"
      using scan_end_append [of _ b p c] by (simp add: e_def)
    with lt that show ?thesis
      by (auto simp: eol_spec_def Let_def nth_append e_def [symmetric] split: if_splits)
  qed
qed (auto simp: eol_spec_def Let_def split: if_splits)

text \<open>The code's scanners inherit the contract from their reference definitions.\<close>

lemma buffer_parser_cong:
  assumes "buffer_parser spec rest" "\<And>b p. p \<le> length b \<Longrightarrow> run b p = spec b p"
  shows "buffer_parser run rest"
  using assms(2) safe_parser.run_Ret [OF buffer_parser_safe [OF assms(1)]]
    safe_parser.run_Fail [OF buffer_parser_safe [OF assms(1)]]
    safe_parser.run_safe [OF buffer_parser_safe [OF assms(1)]]
    buffer_parser.run_stable [OF assms(1)]
  by unfold_locales auto

lemma advance_token_parser: "buffer_parser (advance_token sse) (\<lambda>(tok, toklen, p). p)"
  by (rule buffer_parser_cong [OF token_spec_parser advance_token_eq_spec])

lemma get_token_to_eol_parser: "buffer_parser (get_token_to_eol sse) (\<lambda>(tok, toklen, p). p)"
  by (rule buffer_parser_cong [OF eol_spec_parser get_token_to_eol_eq_spec])

lemma int_loop_contract:
  "p \<le> length b \<Longrightarrow>
     (\<forall>v' q. int_loop b p v = Ret (v', q) \<longrightarrow> p \<le> q \<and> q < length b) \<and>
     (\<forall>r. int_loop b p v = Fail r \<longrightarrow> r = -2) \<and>
     int_loop b p v \<noteq> Crash OutOfBounds \<and>
     (int_loop b p v \<noteq> Fail (-2) \<longrightarrow> int_loop (b @ c) p v = int_loop b p v)"
proof (induction b p v rule: int_loop.induct)
  case (1 b p v)
  show ?case
  proof (cases "p = length b")
    case True
    then show ?thesis by (subst (1 2 3 4 6) int_loop.simps) (simp add: check_eof_def)
  next
    case False
    with "1.prems" have p: "p < length b" by simp
    define w where "w = v * 10 + schar (b ! p) - schar CHR ''0''"
    have unf: "int_loop b p v = (if is_digit (b ! p) then
         (if INT_MAX < v * 10 + schar (b ! p) then Crash SignedOverflow else int_loop b (Suc p) w)
       else Ret (v, p))" and
      unf': "int_loop (b @ c) p v = (if is_digit (b ! p) then
         (if INT_MAX < v * 10 + schar (b ! p) then Crash SignedOverflow else int_loop (b @ c) (Suc p) w)
       else Ret (v, p))"
      unfolding w_def using p by (subst int_loop.simps, simp add: check_eof_def nth_append)+
    show ?thesis
    proof (cases "is_digit (b ! p) \<and> \<not> INT_MAX < v * 10 + schar (b ! p)")
      case True
      have "Suc p \<le> length b" using p by simp
      with "1.IH" [of "()" "b ! p"] True p
      show ?thesis unfolding unf unf'
        by (auto simp: check_eof_def w_def dest: Suc_leD)
    next
      case False
      with p show ?thesis unfolding unf unf' by auto
    qed
  qed
qed

lemma parse_int_parser: "buffer_parser parse_int (\<lambda>(v, p). p)"
proof
  fix p :: nat and b c :: "char list" and x :: "int \<times> nat" and r :: int
  assume p: "p \<le> length b"
  note I = int_loop_contract [OF p, of 0]
  show "p \<le> (case x of (v, p) \<Rightarrow> p) \<and> (case x of (v, p) \<Rightarrow> p) \<le> length b" if "parse_int b p = Ret x"
    using that I by (cases x) (auto simp: parse_int_def obind_Ret_iff less_imp_le split: if_splits)
  show "r = -1 \<or> r = -2" if "parse_int b p = Fail r"
    using that I by (auto simp: parse_int_def obind_Fail_iff check_eof_def split: if_splits)
  show "parse_int b p \<noteq> Crash OutOfBounds"
    using p I by (auto simp: parse_int_def obind_Crash_iff check_eof_def rd_Crash_iff split: if_splits)
  show "parse_int (b @ c) p = parse_int b p" if "parse_int b p \<noteq> Fail (-2)"
    using that p I by (auto simp: parse_int_def check_eof_def nth_append split: if_splits)
qed

lemma parse_http_version_parser: "buffer_parser parse_http_version (\<lambda>(v, p). p)"
  unfolding parse_http_version_def
  by (intro parser_seqI [where ?rest1.0 = "\<lambda>p. p"] expect_char_parser parse_int_parser)

interpretation expect: buffer_parser "expect_char ch" "\<lambda>p. p" for ch
  by (rule expect_char_parser)

interpretation token: buffer_parser "advance_token sse" "\<lambda>(tok, toklen, p). p" for sse
  by (rule advance_token_parser)

interpretation to_eol: buffer_parser "get_token_to_eol sse" "\<lambda>(tok, toklen, p). p" for sse
  by (rule get_token_to_eol_parser)

interpretation version: buffer_parser parse_http_version "\<lambda>(v, p). p"
  by (rule parse_http_version_parser)

text \<open>The byte behind the version exists.\<close>

lemma parse_int_inside: "p \<le> length b \<Longrightarrow> parse_int b p = Ret (v, q) \<Longrightarrow> q < length b"
  using int_loop_contract [of p b 0] by (auto simp: parse_int_def obind_Ret_iff split: if_splits)

lemma parse_http_version_inside:
  "p \<le> length b \<Longrightarrow> parse_http_version b p = Ret (v, q) \<Longrightarrow> q < length b"
  using expect.run_Ret parse_int_inside
  unfolding parse_http_version_def obind_Ret_iff by metis

lemma complete_loop_end: "complete_loop b (length b) n = Fail (-2)"
  by (subst complete_loop.simps) (simp add: check_eof_def)

lemma complete_loop_unfold:
  "p < length b \<Longrightarrow> complete_loop b p n =
     (if b ! p = CR then
        (if Suc p = length b then Fail (-2)
         else if b ! Suc p \<noteq> LF then Fail (-1)
         else if n = 1 then Ret (Suc (Suc p)) else complete_loop b (Suc (Suc p)) (Suc n))
      else if b ! p = LF then
        (if n = 1 then Ret (Suc p) else complete_loop b (Suc p) (Suc n))
      else complete_loop b (Suc p) 0)"
  by (subst complete_loop.simps) (simp add: check_eof_def expect_char_def)

lemma complete_loop_contract:
  "p \<le> length b \<Longrightarrow>
     (\<forall>q. complete_loop b p n = Ret q \<longrightarrow> p < q \<and> q \<le> length b) \<and>
     (\<forall>r. complete_loop b p n = Fail r \<longrightarrow> r = -1 \<or> r = -2) \<and>
     (\<forall>k. complete_loop b p n \<noteq> Crash k) \<and>
     (complete_loop b p n \<noteq> Fail (-2) \<longrightarrow> complete_loop (b @ c) p n = complete_loop b p n)"
proof (induction "length b - p" arbitrary: p n rule: less_induct)
  case less
  show ?case
  proof (cases "p < length b")
    case False
    with less.prems have "p = length b" by simp
    then show ?thesis by (simp add: complete_loop_end)
  next
    case True
    have IH: "(\<forall>r. complete_loop b q m = Ret r \<longrightarrow> q < r \<and> r \<le> length b) \<and>
      (\<forall>r. complete_loop b q m = Fail r \<longrightarrow> r = -1 \<or> r = -2) \<and>
      (\<forall>k. complete_loop b q m \<noteq> Crash k) \<and>
      (complete_loop b q m \<noteq> Fail (-2) \<longrightarrow> complete_loop (b @ c) q m = complete_loop b q m)"
      if "p < q" "q \<le> length b" for q m
      using True that by (intro less.hyps) auto
    note U = complete_loop_unfold [OF True, of n]
    have U': "complete_loop (b @ c) p n =
      (if b ! p = CR then
         (if Suc p = length (b @ c) then Fail (-2)
          else if (b @ c) ! Suc p \<noteq> LF then Fail (-1)
          else if n = 1 then Ret (Suc (Suc p)) else complete_loop (b @ c) (Suc (Suc p)) (Suc n))
       else if b ! p = LF then
         (if n = 1 then Ret (Suc p) else complete_loop (b @ c) (Suc p) (Suc n))
       else complete_loop (b @ c) (Suc p) 0)"
      using True by (subst complete_loop_unfold) (simp_all add: nth_append)
    consider (fin) "b ! p = CR" "Suc p = length b"
      | (cr) "b ! p = CR" "Suc (Suc p) \<le> length b"
      | (lf) "b ! p = LF" | (other) "b ! p \<noteq> CR" "b ! p \<noteq> LF"
      using True by linarith
    then show ?thesis
    proof cases
      case fin
      then show ?thesis by (simp add: U)
    next
      case cr
      then have "(b @ c) ! Suc p = b ! Suc p" "Suc p \<noteq> length b" "Suc p \<noteq> length (b @ c)"
        by (simp_all add: nth_append)
      with cr IH [of "Suc (Suc p)" "Suc n"] show ?thesis
        unfolding U U' by (auto dest: Suc_lessD)
    next
      case lf
      then have "b ! p \<noteq> CR" by simp
      with lf True IH [of "Suc p" "Suc n"] show ?thesis unfolding U U' by (auto simp: Suc_le_eq dest: Suc_lessD)
    next
      case other
      with True IH [of "Suc p" 0] show ?thesis unfolding U U' by (auto simp: Suc_le_eq dest: Suc_lessD)
    qed
  qed
qed

lemma complete_loop_parser: "buffer_parser (\<lambda>b p. complete_loop b p n) (\<lambda>p. p)"
proof
  fix p :: nat and b c :: "char list" and x :: nat and r :: int
  assume p: "p \<le> length b"
  note C = complete_loop_contract [OF p, of n]
  show "p \<le> x \<and> x \<le> length b" if "complete_loop b p n = Ret x" using that C by (simp add: less_imp_le)
  show "r = -1 \<or> r = -2" if "complete_loop b p n = Fail r" using that C by blast
  show "complete_loop b p n \<noteq> Crash OutOfBounds" using C by blast
  show "complete_loop (b @ c) p n = complete_loop b p n" if "complete_loop b p n \<noteq> Fail (-2)"
    using that C by blast
qed

text \<open>The number a run of digits denotes.\<close>

definition dec_value :: "char list \<Rightarrow> int" where
  "dec_value ds = foldl (\<lambda>v c. v * 10 + (int (uchar c) - 48)) 0 ds"

lemma is_digit_iff: "is_digit c \<longleftrightarrow> 48 \<le> uchar c \<and> uchar c \<le> 57"
proof -
  have "schar CHR ''0'' = 48" "schar CHR ''9'' = 57" by (simp_all add: schar_def uchar_def)
  then show ?thesis using uchar_less [of c] unfolding is_digit_def
    by (cases "uchar c < 128") (auto simp: schar_def [of c])
qed

subsection \<open>Resuming the completeness check\<close>

text \<open>
  \<^verbatim>\<open>is_complete\<close> restarts three bytes before the end of the part it has already seen, with
  a count of zero.  That loses nothing: a scan of the whole array that does not complete inside
  the old part passes through the restart point in an equivalent state.
\<close>

lemma complete_loop_resume:
  assumes "L = s + 3" "L \<le> length b" "p \<le> s" "n \<le> 1"
    and "complete_loop (take L b) p n = Fail (-2)"
  shows "complete_loop b p n = complete_loop b s 0"
  using assms(3-5)
proof (induction "s - p" arbitrary: p n rule: less_induct)
  case less
  have pL: "p < L" "Suc p < L" using less.prems assms(1) by auto
  then have pb: "p < length b" and pt: "p < length (take L b)" using assms(2) by auto
  have U: "complete_loop b p n =
     (if b ! p = CR then
        (if Suc p = length b then Fail (-2)
         else if b ! Suc p \<noteq> LF then Fail (-1)
         else if n = 1 then Ret (Suc (Suc p)) else complete_loop b (Suc (Suc p)) (Suc n))
      else if b ! p = LF then (if n = 1 then Ret (Suc p) else complete_loop b (Suc p) (Suc n))
      else complete_loop b (Suc p) 0)"
    by (rule complete_loop_unfold [OF pb])
  have T: "Fail (-2) =
     (if b ! p = CR then
        (if b ! Suc p \<noteq> LF then Fail (-1)
         else if n = 1 then Ret (Suc (Suc p)) else complete_loop (take L b) (Suc (Suc p)) (Suc n))
      else if b ! p = LF then
        (if n = 1 then Ret (Suc p) else complete_loop (take L b) (Suc p) (Suc n))
      else complete_loop (take L b) (Suc p) 0)"
  proof -
    have "take L b ! p = b ! p" "take L b ! Suc p = b ! Suc p" "Suc p \<noteq> length (take L b)"
      using pL assms(2) by auto
    then show ?thesis
      using complete_loop_unfold [OF pt, of n] less.prems(3) by (simp only: if_False)
  qed
  consider (at) "p = s" "n = 0" | (at1) "p = s" "n = 1" | (before) "p < s"
    using less.prems by linarith
  then show ?case
  proof cases
    case at
    then show ?thesis by simp
  next
    case at1
    with T have "b ! p \<noteq> CR" "b ! p \<noteq> LF" by (auto split: if_splits)
    with at1 U show ?thesis using complete_loop_unfold [OF pb, of 0] by simp
  next
    case before
    have n0: "n = 0" if "b ! p = CR \<or> b ! p = LF"
      using that T less.prems(2) by (auto split: if_splits)
    consider (cr) "b ! p = CR" "Suc p < s" | (mid) "b ! p = CR" "Suc p = s"
      | (lf) "b ! p = LF" | (other) "b ! p \<noteq> CR" "b ! p \<noteq> LF"
      using before by linarith
    then show ?thesis
    proof cases
      case cr
      with T n0 have "complete_loop (take L b) (Suc (Suc p)) (Suc n) = Fail (-2)" "b ! Suc p = LF"
        by (auto split: if_splits)
      with less.hyps [of "Suc (Suc p)" "Suc n"] cr U n0 pL assms(2) show ?thesis by simp
    next
      case mid
      with T n0 have "b ! s = LF" by (auto split: if_splits)
      moreover have "s < length b" using assms by simp
      ultimately have "complete_loop b s 0 = complete_loop b (Suc s) 1"
        using complete_loop_unfold [of s b 0] by simp
      with mid U n0 pL assms(2) \<open>b ! s = LF\<close> show ?thesis by auto
    next
      case lf
      with T n0 have "complete_loop (take L b) (Suc p) (Suc n) = Fail (-2)" by simp
      with less.hyps [of "Suc p" "Suc n"] lf before U n0 show ?thesis by simp
    next
      case other
      with T have "complete_loop (take L b) (Suc p) 0 = Fail (-2)" by simp
      with less.hyps [of "Suc p" 0] other before U show ?thesis by simp
    qed
  qed
qed

text \<open>
  C21.  The incremental check is exact: if the first \<open>last_len\<close> bytes alone were incomplete, the
  check that restarts near their end answers exactly as a check of the whole buffer does.
\<close>

theorem is_complete_resume:
  assumes "last_len \<le> length b" and "is_complete (take last_len b) 0 = Fail (-2)"
  shows "is_complete b last_len = is_complete b 0"
proof (cases "last_len < 3")
  case True
  then show ?thesis by (simp add: is_complete_def)
next
  case False
  with assms complete_loop_resume [of last_len "last_len - 3" b 0 0] show ?thesis
    by (simp add: is_complete_def)
qed

lemma is_complete_resume_witness:
  "is_complete [CR, LF, CR, LF] 3 = is_complete [CR, LF, CR, LF] 0"
  by (rule is_complete_resume) code_simp+

end
