(* ===== verification/Pico_Request.thy ===== *)
theory Pico_Request
  imports Pico_Scan
begin

text \<open>
  The parsers of \<^verbatim>\<open>picohttpparser.c\<close>: \<^verbatim>\<open>parse_headers\<close>, \<^verbatim>\<open>parse_request\<close>,
  \<^verbatim>\<open>parse_response\<close> and the entry points \<^verbatim>\<open>phr_parse_request\<close>,
  \<^verbatim>\<open>phr_parse_response\<close> and \<^verbatim>\<open>phr_parse_headers\<close>.  Their output parameters are the
  fields of a record that is threaded through, because the caller sees what was written before an
  error return too (\<^verbatim>\<open>*num_headers\<close> in particular).
\<close>

section \<open>Output parameters\<close>

text \<open>\<open>None\<close> is the null pointer, \<open>Some p\<close> the pointer \<^verbatim>\<open>buf_start + p\<close>.\<close>

record phr_header =
  hname :: "nat option"
  hname_len :: nat
  hvalue :: nat
  hvalue_len :: nat

record headers_out =
  headers :: "phr_header list"
  num_headers :: nat

record request_out = headers_out +
  rq_method :: "nat option"
  rq_method_len :: nat
  rq_path :: "nat option"
  rq_path_len :: nat
  rq_minor_version :: int

record response_out = headers_out +
  rs_minor_version :: int
  rs_status :: int
  rs_msg :: "nat option"
  rs_msg_len :: nat

text \<open>A store to \<^verbatim>\<open>headers[n]\<close>, an array of \<open>length (headers st)\<close> entries.\<close>

definition set_header :: "nat \<Rightarrow> (phr_header \<Rightarrow> phr_header) \<Rightarrow> ('a headers_out_scheme, unit) stateful" where
  "set_header n f st =
     (if n < length (headers st)
      then (st\<lparr>headers := (headers st)[n := f (headers st ! n)]\<rparr>, Ret ())
      else (st, Crash OutOfBounds))"

section \<open>Header lines\<close>

definition token_char_map :: "nat list" where
  "token_char_map =
    [0,0,0,0,0,0,0,0,0,0,0,0,0,0,0,0,0,0,0,0,0,0,0,0,0,0,0,0,0,0,0,0,
     0,1,1,1,1,1,1,1,0,0,1,1,0,1,1,0,1,1,1,1,1,1,1,1,1,1,0,0,0,0,0,0,
     0,1,1,1,1,1,1,1,1,1,1,1,1,1,1,1,1,1,1,1,1,1,1,1,1,1,1,0,0,0,1,1,
     1,1,1,1,1,1,1,1,1,1,1,1,1,1,1,1,1,1,1,1,1,1,1,1,1,1,1,0,1,0,1,0,
     0,0,0,0,0,0,0,0,0,0,0,0,0,0,0,0,0,0,0,0,0,0,0,0,0,0,0,0,0,0,0,0,
     0,0,0,0,0,0,0,0,0,0,0,0,0,0,0,0,0,0,0,0,0,0,0,0,0,0,0,0,0,0,0,0,
     0,0,0,0,0,0,0,0,0,0,0,0,0,0,0,0,0,0,0,0,0,0,0,0,0,0,0,0,0,0,0,0,
     0,0,0,0,0,0,0,0,0,0,0,0,0,0,0,0,0,0,0,0,0,0,0,0,0,0,0,0,0,0,0,0]"

text \<open>
  The loop over a header name.  \<^verbatim>\<open>*buf < ' '\<close> compares a plain \<^verbatim>\<open>char\<close>, so it also
  holds of the bytes from 128 on.
\<close>

function name_loop :: "char list \<Rightarrow> nat \<Rightarrow> nat outcome" where
  "name_loop b p =
     obind (rd b p) (\<lambda>c.
       if c = CHR '':'' then Ret p
       else if schar c < schar SP then Fail (-1)
       else obind (check_eof b (Suc p)) (\<lambda>_. name_loop b (Suc p)))"
  by pat_completeness auto
termination
  by (relation "measure (\<lambda>(b, p). length b - p)") (auto simp: rd_Ret_iff)

declare name_loop.simps [simp del]

definition header_name :: "bool \<Rightarrow> char list \<Rightarrow> nat \<Rightarrow> nat outcome" where
  "header_name sse b p =
     obind (findchar_fast sse b p [CHR '':'', CHR '':'', NUL, CHR 0x1F]) (\<lambda>(q, found).
     obind (if \<not> found then check_eof b q else Ret ()) (\<lambda>_.
     name_loop b q))"

function skip_blanks :: "char list \<Rightarrow> nat \<Rightarrow> nat outcome" where
  "skip_blanks b p =
     obind (check_eof b p) (\<lambda>_.
     obind (rd b p) (\<lambda>c. if \<not> (c = SP \<or> c = HT) then Ret p else skip_blanks b (Suc p)))"
  by pat_completeness auto
termination
  by (relation "measure (\<lambda>(b, p). length b - p)") (auto simp: rd_Ret_iff)

declare skip_blanks.simps [simp del]

definition parse_header_line :: "bool \<Rightarrow> char list \<Rightarrow> nat \<Rightarrow> ('a headers_out_scheme, nat) stateful" where
  "parse_header_line sse b p st =
     (let n = num_headers st in
      sbind (slift (rd b p)) (\<lambda>c.
      sbind (if \<not> (n \<noteq> 0 \<and> (c = SP \<or> c = HT)) then
               if token_char_map ! uchar c = 0 then slift (Fail (-1))
               else
                 sbind (set_header n (hname_update (\<lambda>_. Some p))) (\<lambda>_.
                 sbind (slift (header_name sse b p)) (\<lambda>e.
                 sbind (set_header n (hname_len_update (\<lambda>_. e - p))) (\<lambda>_.
                 slift (skip_blanks b (Suc e)))))
             else
               sbind (set_header n (hname_update (\<lambda>_. None))) (\<lambda>_.
               sbind (set_header n (hname_len_update (\<lambda>_. 0))) (\<lambda>_.
               slift (Ret p)))) (\<lambda>v.
      sbind (slift (get_token_to_eol sse b v)) (\<lambda>(tok, toklen, q).
      sbind (set_header n (\<lambda>h. h\<lparr>hvalue := tok, hvalue_len := toklen\<rparr>)) (\<lambda>_.
      slift (Ret q))))) st)"

text \<open>The empty line that ends the headers: \<open>Some q\<close> behind it, \<open>None\<close> if there is none here.\<close>

definition headers_end :: "char list \<Rightarrow> nat \<Rightarrow> nat option outcome" where
  "headers_end b p =
     obind (check_eof b p) (\<lambda>_.
     obind (rd b p) (\<lambda>c.
       if c = CR then obind (expect_char LF b (Suc p)) (\<lambda>q. Ret (Some q))
       else if c = LF then Ret (Some (Suc p))
       else Ret None))"

section \<open>Header lines and their reference definitions\<close>

lemma name_loop_step:
  "p < length b \<Longrightarrow> name_loop b p =
     (if b ! p = CHR '':'' then Ret p
      else if schar (b ! p) < 32 then Fail (-1)
      else if Suc p = length b then Fail (-2) else name_loop b (Suc p))"
  by (subst name_loop.simps) (simp add: check_eof_def schar_def uchar_def)

text \<open>Reference: the name ends at the first colon or control byte, which has to be a colon.\<close>

definition name_char :: "char \<Rightarrow> bool" where
  "name_char c \<longleftrightarrow> c \<noteq> CHR '':'' \<and> 32 \<le> uchar c \<and> uchar c < 128"

definition name_spec :: "char list \<Rightarrow> nat \<Rightarrow> nat outcome" where
  "name_spec b p =
     (let e = scan_end name_char b p in
      if e = length b then Fail (-2) else if b ! e = CHR '':'' then Ret e else Fail (-1))"

lemma name_char_iff: "name_char c \<longleftrightarrow> c \<noteq> CHR '':'' \<and> \<not> schar c < 32"
  using schar_less_iff [of 32 c] by (auto simp: name_char_def)

lemma name_loop_eq_spec: "p < length b \<Longrightarrow> name_loop b p = name_spec b p"
proof (induction "length b - p" arbitrary: p rule: less_induct)
  case less
  show ?case
  proof (cases "name_char (b ! p)")
    case True
    with less.prems have "scan_end name_char b p = scan_end name_char b (Suc p)"
      by (simp add: scan_end_step)
    with True less name_loop_step [OF less.prems] show ?thesis
      by (cases "Suc p = length b") (auto simp: name_char_iff name_spec_def Let_def)
  next
    case False
    with less.prems have "scan_end name_char b p = p" by (simp add: scan_end_step)
    with False less.prems name_loop_step [OF less.prems] show ?thesis
      by (auto simp: name_char_iff name_spec_def)
  qed
qed

lemma name_spec_parser: "buffer_parser name_spec (\<lambda>p. p)"
proof
  fix p :: nat and b c :: "char list"
  assume p: "p \<le> length b"
  note bd = scan_end_bounds [OF p, of name_char]
  show "name_spec (b @ c) p = name_spec b p" if "name_spec b p \<noteq> Fail (-2)"
  proof -
    have lt: "scan_end name_char b p < length b"
      using that bd by (auto simp: name_spec_def Let_def split: if_splits)
    with scan_end_append [OF lt, of c] show ?thesis
      by (simp add: name_spec_def Let_def nth_append)
  qed
qed (use scan_end_bounds in \<open>auto simp: name_spec_def Let_def split: if_splits\<close>)

lemma header_name_no_sse: "p \<le> length b \<Longrightarrow> header_name False b p = name_spec b p"
  by (cases "p = length b")
     (simp_all add: header_name_def findchar_fast_def check_eof_def name_loop_eq_spec,
      simp add: name_spec_def)

lemma in_name_ranges:
  "in_ranges [CHR '':'', CHR '':'', NUL, CHR 0x1F] c \<longleftrightarrow> c = CHR '':'' \<or> uchar c < 32"
  using uchar_eq_iff [of c "CHR '':''"] by (auto simp: uchar_def)

text \<open>With SSE the name is the same unless a byte from 128 on precedes its end.\<close>

lemma header_name_ascii:
  assumes p: "p \<le> length b" and ascii: "\<And>i. p \<le> i \<Longrightarrow> i < length b \<Longrightarrow> uchar (b ! i) < 128"
  shows "header_name sse b p = name_spec b p"
proof -
  let ?rs = "[CHR '':'', CHR '':'', NUL, CHR 0x1F]"
  define R where "R e = (if e = length b then Fail (-2)
      else if b ! e = CHR '':'' then Ret e else Fail (-1))" for e
  have *: "scan_end (\<lambda>c. \<not> in_ranges ?rs c) b q = scan_end name_char b q"
    if "p \<le> q" "q \<le> length b" for q
  proof (rule scan_end_eqI [symmetric], goal_cases)
    case 1 show ?case using scan_end_bounds [OF that(2)] by blast
  next
    case 2 show ?case using scan_end_bounds [OF that(2)] by blast
  next
    case (3 i)
    then have "\<not> in_ranges ?rs (b ! i)" by (rule scan_end_inside)
    moreover have "i < length b" using 3 scan_end_bounds [OF that(2)] by (meson order.strict_trans2)
    ultimately show ?case using ascii [of i] 3 that(1)
      by (simp add: in_name_ranges name_char_def del: in_ranges.simps)
  next
    case 4
    from scan_end_stop [OF this] show ?case
      by (auto simp: in_name_ranges name_char_def simp del: in_ranges.simps)
  qed
  have "header_name sse b p = obind (findchar_fast sse b p ?rs) (\<lambda>(q, found).
     if q = length b \<and> \<not> found then Fail (-2) else name_loop b q)"
    unfolding header_name_def
    by (rule arg_cong [where f = "obind _"]) (auto simp: check_eof_def)
  also obtain q f where q: "findchar_fast sse b p ?rs = Ret (q, f)" "p \<le> q" "q \<le> length b"
    "\<forall>i. p \<le> i \<longrightarrow> i < q \<longrightarrow> \<not> in_ranges ?rs (b ! i)" "f \<longrightarrow> q < length b \<and> in_ranges ?rs (b ! q)"
    using fast.find_total [OF p] by blast
  have "scan_end name_char b p = scan_end name_char b q"
    using q ascii by (intro scan_end_from)
      (auto simp: in_name_ranges name_char_def simp del: in_ranges.simps)
  then have "name_spec b p = name_spec b q" by (simp add: name_spec_def)
  with q have "obind (findchar_fast sse b p ?rs) (\<lambda>(q, found).
     if q = length b \<and> \<not> found then Fail (-2) else name_loop b q) = name_spec b p"
    by (auto simp: name_loop_eq_spec) (simp add: name_spec_def)
  finally show ?thesis .
qed

lemma header_name_bounds:
  assumes "p \<le> length b"
  shows "(\<forall>e. header_name sse b p = Ret e \<longrightarrow> p \<le> e \<and> e < length b \<and> b ! e = CHR '':'') \<and>
    (\<forall>r. header_name sse b p = Fail r \<longrightarrow> r = -1 \<or> r = -2) \<and>
    (\<forall>k. header_name sse b p \<noteq> Crash k)"
proof -
  obtain q f where q: "findchar_fast sse b p [CHR '':'', CHR '':'', NUL, CHR 0x1F] = Ret (q, f)"
    "p \<le> q" "q \<le> length b" "f \<longrightarrow> q < length b"
    using fast.find_total [OF assms] by blast
  then have "header_name sse b p = (if q = length b then Fail (-2) else name_spec b q)"
    by (auto simp: header_name_def check_eof_def name_loop_eq_spec)
  then show ?thesis
    using q scan_end_bounds [of q b name_char]
    by (auto simp: name_spec_def Let_def split: if_splits)
qed

lemma skip_blanks_spec:
  "p \<le> length b \<Longrightarrow> skip_blanks b p =
     (let e = scan_end (\<lambda>c. c = SP \<or> c = HT) b p in if e = length b then Fail (-2) else Ret e)"
proof (induction b p rule: skip_blanks.induct)
  case (1 b p)
  show ?case
  proof (cases "p = length b")
    case True
    then show ?thesis by (subst skip_blanks.simps) (simp add: check_eof_def)
  next
    case False
    with 1 show ?thesis
      by (subst skip_blanks.simps) (auto simp: check_eof_def scan_end_step Let_def)
  qed
qed

lemma skip_blanks_parser: "buffer_parser skip_blanks (\<lambda>p. p)"
proof
  fix p :: nat and b c :: "char list"
  assume p: "p \<le> length b"
  note bd = scan_end_bounds [OF p, of "\<lambda>c. c = SP \<or> c = HT"]
  show "skip_blanks (b @ c) p = skip_blanks b p" if "skip_blanks b p \<noteq> Fail (-2)"
  proof -
    have lt: "scan_end (\<lambda>c. c = SP \<or> c = HT) b p < length b"
      using that bd p by (auto simp: skip_blanks_spec Let_def split: if_splits)
    with scan_end_append [OF lt, of c] p show ?thesis
      by (simp add: skip_blanks_spec Let_def)
  qed
qed (use scan_end_bounds in \<open>auto simp: skip_blanks_spec Let_def split: if_splits\<close>)

interpretation blanks: buffer_parser skip_blanks "\<lambda>p. p"
  by (rule skip_blanks_parser)

lemma headers_end_parser_Some: "p \<le> length b \<Longrightarrow>
     (\<forall>q. headers_end b p = Ret (Some q) \<longrightarrow> p < q \<and> q \<le> length b) \<and>
     (headers_end b p = Ret None \<longrightarrow> p < length b) \<and>
     (\<forall>r. headers_end b p = Fail r \<longrightarrow> r = -1 \<or> r = -2) \<and>
     (\<forall>k. headers_end b p \<noteq> Crash k) \<and>
     (headers_end b p \<noteq> Fail (-2) \<longrightarrow> headers_end (b @ c) p = headers_end b p)"
  by (auto simp: headers_end_def expect_char_def check_eof_def nth_append obind_iffs rd_Ret_iff
      rd_Crash_iff split: if_splits)


text \<open>
  A whole header line as a value: the entry it fills (\<open>first\<close> says that no entry was filled
  before, so that the line cannot continue another) and the position behind it.
\<close>

definition header_line :: "bool \<Rightarrow> bool \<Rightarrow> char list \<Rightarrow> nat \<Rightarrow> (phr_header \<times> nat) outcome" where
  "header_line sse first b p =
     obind (rd b p) (\<lambda>c.
       if first \<or> \<not> (c = SP \<or> c = HT) then
         if token_char_map ! uchar c = 0 then Fail (-1)
         else obind (header_name sse b p) (\<lambda>e.
              obind (skip_blanks b (Suc e)) (\<lambda>v.
              obind (get_token_to_eol sse b v) (\<lambda>(tok, toklen, q).
              Ret (\<lparr>hname = Some p, hname_len = e - p, hvalue = tok, hvalue_len = toklen\<rparr>, q))))
       else obind (get_token_to_eol sse b p) (\<lambda>(tok, toklen, q).
              Ret (\<lparr>hname = None, hname_len = 0, hvalue = tok, hvalue_len = toklen\<rparr>, q)))"

lemma sbind_set_header:
  "n < length (headers st) \<Longrightarrow> sbind (set_header n f) g st =
     g () (st\<lparr>headers := (headers st)[n := f (headers st ! n)]\<rparr>)"
  by (simp add: set_header_def sbind_def)

lemma header_filled:
  "h\<lparr>hname := a, hname_len := l, hvalue := v, hvalue_len := m\<rparr> =
     \<lparr>hname = a, hname_len = l, hvalue = v, hvalue_len = m\<rparr>"
  by (cases h) simp

lemma headers_same: "st\<lparr>headers := (headers st)[n := headers st ! n]\<rparr> = st"
  by simp

text \<open>Filling a line: on success exactly the next entry, on failure at most parts of it.\<close>

definition fills :: "('a headers_out_scheme) \<Rightarrow> (phr_header \<times> nat) outcome \<Rightarrow>
    'a headers_out_scheme \<times> nat outcome \<Rightarrow> bool" where
  "fills st m r \<longleftrightarrow>
     (\<exists>h. fst r = st\<lparr>headers := (headers st)[num_headers st := h]\<rparr> \<and>
        snd r = obind m (\<lambda>(h', q). Ret q) \<and> (\<forall>h' q. m = Ret (h', q) \<longrightarrow> h = h'))"

lemma slift_apply: "slift m s = (s, m)"
  by (simp add: slift_def)

lemmas header_line_run = parse_header_line_def header_line_def Let_def sbind_assoc sbind_slift
  sbind_set_header slift_apply

lemma parse_header_line_fills:
  assumes n: "num_headers st < length (headers st)"
  shows "fills st (header_line sse (num_headers st = 0) b p) (parse_header_line sse b p st)"
proof (cases "rd b p")
  case (Ret c)
  have same: "\<exists>h. st = st\<lparr>headers := (headers st)[num_headers st := h]\<rparr>"
    by (rule exI [of _ "headers st ! num_headers st"]) simp
  have again: "\<exists>h. st\<lparr>headers := (headers st)[num_headers st := g]\<rparr> =
     st\<lparr>headers := (headers st)[num_headers st := h]\<rparr>" for g
    by blast
  consider (bad) "num_headers st = 0 \<or> \<not> (c = SP \<or> c = HT)" "token_char_map ! uchar c = 0"
    | (name) "num_headers st = 0 \<or> \<not> (c = SP \<or> c = HT)" "token_char_map ! uchar c \<noteq> 0"
    | (fold) "\<not> (num_headers st = 0 \<or> \<not> (c = SP \<or> c = HT))"
    by blast
  then show ?thesis
  proof cases
    case bad
    then have "parse_header_line sse b p st = (st, Fail (-1))"
      "header_line sse (num_headers st = 0) b p = Fail (-1)"
      by (auto simp: header_line_run Ret)
    then show ?thesis using same by (simp add: fills_def)
  next
    case name
    show ?thesis
    proof (cases "header_name sse b p")
      case N: (Ret e)
      show ?thesis
      proof (cases "skip_blanks b (Suc e)")
        case B: (Ret v)
        show ?thesis
        proof (cases "get_token_to_eol sse b v")
          case (Ret x)
          with name N B n \<open>rd b p = Ret c\<close> show ?thesis
            by (cases x) (auto simp: header_line_run fills_def header_filled)
        qed (use name N B n Ret again in \<open>auto simp: header_line_run fills_def\<close>)
      qed (use name N n Ret again in \<open>auto simp: header_line_run fills_def\<close>)
    qed (use name n Ret again in \<open>auto simp: header_line_run fills_def\<close>)
  next
    case fold
    show ?thesis
    proof (cases "get_token_to_eol sse b p")
      case T: (Ret x)
      with fold n Ret show ?thesis
        by (cases x) (auto simp: header_line_run fills_def header_filled)
    qed (use fold n Ret again in \<open>auto simp: header_line_run fills_def\<close>)
  qed
qed (auto simp: fills_def parse_header_line_def header_line_def sbind_slift
     intro: exI [of _ "headers st ! num_headers st"])


text \<open>What a filled entry promises: its name and its value lie inside the array.\<close>

definition header_inside :: "char list \<Rightarrow> phr_header \<Rightarrow> bool" where
  "header_inside b h \<longleftrightarrow>
     (case hname h of None \<Rightarrow> hname_len h = 0 | Some a \<Rightarrow> a + hname_len h \<le> length b) \<and>
     hvalue h + hvalue_len h \<le> length b"

lemma get_token_to_eol_progress:
  assumes "p \<le> length b" "get_token_to_eol sse b p = Ret (tok, l, q)"
  shows "tok = p \<and> p + l < q \<and> q \<le> length b"
  using assms scan_end_bounds [OF assms(1), of "\<lambda>c. \<not> is_ctl c"]
  by (auto simp: get_token_to_eol_eq_spec eol_spec_def Let_def split: if_splits)

lemma header_name_safe: "safe_parser (header_name sse) Suc"
proof
  fix p :: nat and b :: "char list" and x :: nat and r :: int
  assume "p \<le> length b"
  note N = header_name_bounds [OF this, of sse]
  show "p \<le> Suc x \<and> Suc x \<le> length b" if "header_name sse b p = Ret x"
    using N that by (simp add: Suc_le_eq le_SucI)
  show "r = -1 \<or> r = -2" if "header_name sse b p = Fail r" using N that by blast
  show "header_name sse b p \<noteq> Crash OutOfBounds" using N by blast
qed

lemma header_name_parser: "buffer_parser (header_name False) Suc"
proof (rule buffer_parser.intro)
  show "buffer_parser_axioms (header_name False)"
    using buffer_parser.run_stable [OF name_spec_parser]
    by unfold_locales (simp add: header_name_no_sse)
qed (rule header_name_safe)

text \<open>The two branches of a header line.\<close>

definition named_line :: "bool \<Rightarrow> char list \<Rightarrow> nat \<Rightarrow> (phr_header \<times> nat) outcome" where
  "named_line sse b p =
     obind (header_name sse b p) (\<lambda>e.
     obind (skip_blanks b (Suc e)) (\<lambda>v.
     obind (get_token_to_eol sse b v) (\<lambda>x. Ret (case x of (tok, toklen, q) \<Rightarrow>
       (\<lparr>hname = Some p, hname_len = e - p, hvalue = tok, hvalue_len = toklen\<rparr>, q)))))"

definition folded_line :: "bool \<Rightarrow> char list \<Rightarrow> nat \<Rightarrow> (phr_header \<times> nat) outcome" where
  "folded_line sse b p =
     obind (get_token_to_eol sse b p) (\<lambda>x. Ret (case x of (tok, toklen, q) \<Rightarrow>
       (\<lparr>hname = None, hname_len = 0, hvalue = tok, hvalue_len = toklen\<rparr>, q)))"

lemma header_line_branches: "p < length b \<Longrightarrow> header_line sse first b p =
   (if first \<or> \<not> (b ! p = SP \<or> b ! p = HT) then
      if token_char_map ! uchar (b ! p) = 0 then Fail (-1) else named_line sse b p
    else folded_line sse b p)"
  by (simp add: header_line_def named_line_def folded_line_def case_prod_unfold)

interpretation header_value: parser_seq skip_blanks "\<lambda>v. v" "\<lambda>_ _. get_token_to_eol sse"
  "\<lambda>(tok, toklen, p). p" for sse
  by (intro parser_seq.intro parser_seq_axioms.intro skip_blanks_parser get_token_to_eol_parser)

text \<open>What a header line does after its name, as the second of two parsers.\<close>

definition after_name :: "bool \<Rightarrow> nat \<Rightarrow> nat \<Rightarrow> char list \<Rightarrow> nat \<Rightarrow> (phr_header \<times> nat) outcome" where
  "after_name sse p e b q =
     obind (obind (skip_blanks b q) (get_token_to_eol sse b)) (\<lambda>x. Ret (case x of (tok, toklen, q) \<Rightarrow>
       (\<lparr>hname = Some p, hname_len = e - p, hvalue = tok, hvalue_len = toklen\<rparr>, q)))"

lemma named_line_seq:
  "named_line sse = (\<lambda>b p. obind (header_name sse b p) (\<lambda>e. after_name sse p e b (Suc e)))"
  by (simp add: fun_eq_iff named_line_def after_name_def obind_assoc)

lemma after_name_parser: "buffer_parser (after_name sse p e) snd"
  unfolding after_name_def
  by (intro parser_mapI [OF header_value.seq_parser]) (auto split: prod.splits)

interpretation named: safe_seq "header_name sse" Suc "after_name sse" snd for sse
  by (intro safe_seq.intro safe_seq_axioms.intro header_name_safe buffer_parser_safe [OF after_name_parser])

interpretation line: safe_parser "named_line sse" snd for sse
  unfolding named_line_seq by (rule named.seq_safe)

lemma named_line_parser: "buffer_parser (named_line False) snd"
  unfolding named_line_seq
  by (rule parser_seqI [OF header_name_parser after_name_parser])

lemma folded_line_parser: "buffer_parser (folded_line sse) snd"
  unfolding folded_line_def
  by (intro parser_mapI [where rest = "\<lambda>(tok, toklen, p). p"] get_token_to_eol_parser)
     (auto split: prod.splits)

interpretation folded: buffer_parser "folded_line sse" snd for sse
  by (rule folded_line_parser)

lemma named_line_inside:
  assumes "p \<le> length b" "named_line sse b p = Ret (h, q)"
  shows "p < q \<and> q \<le> length b \<and> header_inside b h"
proof -
  obtain e v tok l where "header_name sse b p = Ret e" "skip_blanks b (Suc e) = Ret v"
    "get_token_to_eol sse b v = Ret (tok, l, q)"
    "h = \<lparr>hname = Some p, hname_len = e - p, hvalue = tok, hvalue_len = l\<rparr>"
    using assms(2) by (auto simp: named_line_def obind_Ret_iff)
  moreover from this have "p \<le> e" "e < length b" using header_name_bounds [OF assms(1)] by auto
  moreover from calculation have "Suc e \<le> v \<and> v \<le> length b"
    using blanks.run_Ret [of "Suc e" b v] by simp
  ultimately show ?thesis
    using get_token_to_eol_progress [of v b sse tok l q] by (auto simp: header_inside_def)
qed

lemma folded_line_inside:
  assumes "p \<le> length b" "folded_line sse b p = Ret (h, q)"
  shows "p < q \<and> q \<le> length b \<and> header_inside b h"
proof -
  obtain tok l where "get_token_to_eol sse b p = Ret (tok, l, q)"
    "h = \<lparr>hname = None, hname_len = 0, hvalue = tok, hvalue_len = l\<rparr>"
    using assms(2) by (auto simp: folded_line_def obind_Ret_iff)
  with get_token_to_eol_progress [of p b sse tok l q] assms(1) show ?thesis
    by (auto simp: header_inside_def)
qed

lemma header_line_inside:
  "p < length b \<Longrightarrow> header_line sse first b p = Ret (h, q) \<Longrightarrow>
   p < q \<and> q \<le> length b \<and> header_inside b h"
  using named_line_inside [of p b sse h q] folded_line_inside [of p b sse h q]
  by (simp add: header_line_branches split: if_splits)

lemma header_line_Fail:
  "p < length b \<Longrightarrow> header_line sse first b p = Fail r \<Longrightarrow> r = -1 \<or> r = -2"
  using line.run_Fail [of p b sse]
    folded.run_Fail [of p b sse]
  by (auto simp: header_line_branches split: if_splits)

lemma header_line_no_crash:
  assumes p: "p < length b"
  shows "header_line sse first b p \<noteq> Crash k"
proof -
  have T: "get_token_to_eol sse b v \<noteq> Crash k" if "v \<le> length b" for v
    using that by (auto simp: get_token_to_eol_eq_spec eol_spec_def Let_def)
  have N: "header_name sse b p \<noteq> Crash k" "header_name sse b p = Ret e \<Longrightarrow> e < length b" for e
    using header_name_bounds [of p b sse] p by auto
  have B: "skip_blanks b e \<noteq> Crash k" "skip_blanks b e = Ret v \<Longrightarrow> v \<le> length b"
    if "e \<le> length b" for e v
    using that scan_end_bounds [OF that, of "\<lambda>c. c = SP \<or> c = HT"]
    by (auto simp: skip_blanks_spec Let_def split: if_splits)
  have "named_line sse b p \<noteq> Crash k"
  proof (cases "header_name sse b p")
    case (Ret e)
    then have e: "Suc e \<le> length b" using N(2) by (simp add: Suc_le_eq)
    show ?thesis
    proof (cases "skip_blanks b (Suc e)")
      case R2: (Ret v)
      with B(2) [OF e] have "v \<le> length b" by blast
      with Ret R2 T show ?thesis by (simp add: named_line_def obind_Crash_iff)
    qed (use Ret B(1) [OF e] in \<open>simp_all add: named_line_def\<close>)
  qed (use N in \<open>simp_all add: named_line_def\<close>)
  moreover have "folded_line sse b p \<noteq> Crash k"
    using T [of p] p by (simp add: folded_line_def obind_Crash_iff)
  ultimately show ?thesis using p by (simp add: header_line_branches)
qed

lemma header_line_stable:
  assumes "p < length b" "header_line False first b p \<noteq> Fail (-2)"
  shows "header_line False first (b @ c) p = header_line False first b p"
  using assms buffer_parser.run_stable [OF named_line_parser, of p b c]
    folded.run_stable [of p b False c]
  by (auto simp: header_line_branches nth_append split: if_splits)

lemma header_line_ascii:
  assumes "p < length b" "\<And>i. i < length b \<Longrightarrow> uchar (b ! i) < 128"
  shows "header_line sse first b p = header_line False first b p"
proof -
  have "get_token_to_eol sse b v = get_token_to_eol False b v" if "v \<le> length b" for v
    using that by (simp add: get_token_to_eol_eq_spec)
  moreover have "header_name sse b p = header_name False b p"
    using assms by (simp add: header_name_ascii header_name_no_sse)
  moreover have "Suc e \<le> length b" if "header_name False b p = Ret e" for e
    using that header_name_bounds [of p b False] assms(1) by (simp add: Suc_le_eq)
  moreover have "v \<le> length b" if "skip_blanks b e = Ret v" "e \<le> length b" for v e
    using that blanks.run_Ret by blast
  ultimately have "named_line sse b p = named_line False b p"
    "folded_line sse b p = folded_line False b p"
    using assms(1) unfolding named_line_def folded_line_def by (auto intro!: obind_cong)
  then show ?thesis using assms(1) by (simp add: header_line_branches)
qed

lemma parse_header_line_Ret:
  assumes "p < length b" "parse_header_line sse b p st = (st', Ret q)"
  shows "p < q \<and> q \<le> length b"
proof -
  have "num_headers st < length (headers st)"
    using assms by (auto simp: parse_header_line_def Let_def sbind_eq_cases slift_def set_header_def
        split: if_splits)
  from parse_header_line_fills [OF this, of sse b p] assms(2)
  obtain h where "header_line sse (num_headers st = 0) b p = Ret (h, q)"
    by (cases "header_line sse (num_headers st = 0) b p") (auto simp: fills_def)
  with header_line_inside [OF assms(1)] show ?thesis by blast
qed


end
