(* ===== verification/Pico_Parse.thy ===== *)
theory Pico_Parse
  imports Pico_Request
begin

text \<open>
  The loop over the header lines, the request and response parsers and the entry points
  \<^verbatim>\<open>phr_parse_request\<close>, \<^verbatim>\<open>phr_parse_response\<close> and \<^verbatim>\<open>phr_parse_headers\<close> of
  \<^verbatim>\<open>picohttpparser.c\<close>, and their correctness: no read or write outside the arrays, the return
  codes, the slices they hand out, and independence of how the input was cut into pieces.
\<close>

section \<open>The loop over the header lines\<close>

lemma headers_end_None: "headers_end b p = Ret None \<Longrightarrow> p < length b"
  by (auto simp: headers_end_def obind_Ret_iff rd_Ret_iff split: if_splits)

function parse_headers :: "bool \<Rightarrow> char list \<Rightarrow> nat \<Rightarrow> nat \<Rightarrow> ('a headers_out_scheme, nat) stateful" where
  "parse_headers sse b max_headers p st =
     (case headers_end b p of
        Fail r \<Rightarrow> (st, Fail r)
      | Crash k \<Rightarrow> (st, Crash k)
      | Ret (Some q) \<Rightarrow> (st, Ret q)
      | Ret None \<Rightarrow>
          if num_headers st = max_headers then (st, Fail (-1))
          else (case parse_header_line sse b p st of
                  (st', Fail r) \<Rightarrow> (st', Fail r)
                | (st', Crash k) \<Rightarrow> (st', Crash k)
                | (st', Ret q) \<Rightarrow>
                    parse_headers sse b max_headers q
                      (st'\<lparr>num_headers := Suc (num_headers st')\<rparr>)))"
  by pat_completeness auto
termination
  by (relation "measure (\<lambda>(sse, b, m, p, st). length b - p)")
     (auto dest!: headers_end_None parse_header_line_Ret [OF _ sym])

declare parse_headers.simps [simp del]

section \<open>Requests and responses\<close>

text \<open>The line end after the version: CRLF or LF.\<close>

definition line_end :: "char list \<Rightarrow> nat \<Rightarrow> nat outcome" where
  "line_end b p =
     obind (rd b p) (\<lambda>c.
       if c = CR then expect_char LF b (Suc p)
       else if c = LF then Ret (Suc p)
       else Fail (-1))"

text \<open>The empty line some clients send before the request.\<close>

definition skip_empty_line :: "char list \<Rightarrow> nat \<Rightarrow> nat outcome" where
  "skip_empty_line b p =
     obind (check_eof b p) (\<lambda>_.
     obind (rd b p) (\<lambda>c.
       if c = CR then expect_char LF b (Suc p)
       else if c = LF then Ret (Suc p)
       else Ret p))"

definition parse_request :: "bool \<Rightarrow> char list \<Rightarrow> nat \<Rightarrow> nat \<Rightarrow> (request_out, nat) stateful" where
  "parse_request sse b max_headers p =
     sbind (slift (skip_empty_line b p)) (\<lambda>p.
     sbind (slift (advance_token sse b p)) (\<lambda>(tok, toklen, p).
     sbind (smodify (\<lambda>st. st\<lparr>rq_method := Some tok, rq_method_len := toklen\<rparr>)) (\<lambda>_.
     sbind (slift (advance_token sse b (Suc p))) (\<lambda>(tok, toklen, p).
     sbind (smodify (\<lambda>st. st\<lparr>rq_path := Some tok, rq_path_len := toklen\<rparr>)) (\<lambda>_.
     sbind (slift (parse_http_version b (Suc p))) (\<lambda>(v, p).
     sbind (smodify (\<lambda>st. st\<lparr>rq_minor_version := v\<rparr>)) (\<lambda>_.
     sbind (slift (line_end b p)) (\<lambda>p.
     parse_headers sse b max_headers p))))))))"

text \<open>\<^verbatim>\<open>phr_parse_request\<close>: the number of headers goes in as the size of the array.\<close>

definition phr_parse_request :: "bool \<Rightarrow> char list \<Rightarrow> nat \<Rightarrow> (request_out, int) stateful" where
  "phr_parse_request sse b last_len st =
     (let max_headers = num_headers st;
          st = st\<lparr>rq_method := None, rq_method_len := 0, rq_path := None, rq_path_len := 0,
                  rq_minor_version := -1, num_headers := 0\<rparr>
      in case (if last_len \<noteq> 0 then is_complete b last_len else Ret 0) of
           Fail r \<Rightarrow> (st, Ret r)
         | Crash k \<Rightarrow> (st, Crash k)
         | Ret _ \<Rightarrow>
             (case parse_request sse b max_headers 0 st of
                (st', Ret q) \<Rightarrow> (st', Ret (int q))
              | (st', Fail r) \<Rightarrow> (st', Ret r)
              | (st', Crash k) \<Rightarrow> (st', Crash k)))"

definition parse_response :: "bool \<Rightarrow> char list \<Rightarrow> nat \<Rightarrow> nat \<Rightarrow> (response_out, nat) stateful" where
  "parse_response sse b max_headers p =
     sbind (slift (parse_http_version b p)) (\<lambda>(v, p).
     sbind (smodify (\<lambda>st. st\<lparr>rs_minor_version := v\<rparr>)) (\<lambda>_.
     sbind (slift (rd b p)) (\<lambda>c.
     sbind (slift (if c \<noteq> SP then Fail (-1) else Ret (Suc p))) (\<lambda>p.
     sbind (slift (parse_int b p)) (\<lambda>(s, p).
     sbind (smodify (\<lambda>st. st\<lparr>rs_status := s\<rparr>)) (\<lambda>_.
     sbind (slift (rd b p)) (\<lambda>c.
     sbind (slift (if c \<noteq> SP then Fail (-1) else Ret (Suc p))) (\<lambda>p.
     sbind (slift (get_token_to_eol sse b p)) (\<lambda>(tok, toklen, p).
     sbind (smodify (\<lambda>st. st\<lparr>rs_msg := Some tok, rs_msg_len := toklen\<rparr>)) (\<lambda>_.
     parse_headers sse b max_headers p))))))))))"

definition phr_parse_response :: "bool \<Rightarrow> char list \<Rightarrow> nat \<Rightarrow> (response_out, int) stateful" where
  "phr_parse_response sse b last_len st =
     (let max_headers = num_headers st;
          st = st\<lparr>rs_minor_version := -1, rs_status := 0, rs_msg := None, rs_msg_len := 0,
                  num_headers := 0\<rparr>
      in case (if last_len \<noteq> 0 then is_complete b last_len else Ret 0) of
           Fail r \<Rightarrow> (st, Ret r)
         | Crash k \<Rightarrow> (st, Crash k)
         | Ret _ \<Rightarrow>
             (case parse_response sse b max_headers 0 st of
                (st', Ret q) \<Rightarrow> (st', Ret (int q))
              | (st', Fail r) \<Rightarrow> (st', Ret r)
              | (st', Crash k) \<Rightarrow> (st', Crash k)))"

definition phr_parse_headers :: "bool \<Rightarrow> char list \<Rightarrow> nat \<Rightarrow> (headers_out, int) stateful" where
  "phr_parse_headers sse b last_len st =
     (let max_headers = num_headers st;
          st = st\<lparr>num_headers := 0\<rparr>
      in case (if last_len \<noteq> 0 then is_complete b last_len else Ret 0) of
           Fail r \<Rightarrow> (st, Ret r)
         | Crash k \<Rightarrow> (st, Crash k)
         | Ret _ \<Rightarrow>
             (case parse_headers sse b max_headers 0 st of
                (st', Ret q) \<Rightarrow> (st', Ret (int q))
              | (st', Fail r) \<Rightarrow> (st', Ret r)
              | (st', Crash k) \<Rightarrow> (st', Crash k)))"

section \<open>Correctness of the header loop\<close>

lemmas headers_end_facts = headers_end_parser_Some

text \<open>
  What a run of the loop does to the output record: it only appends entries, never more than
  \<open>max\<close>, and every entry it counts has its name and value inside the array.
\<close>

definition headers_grow :: "char list \<Rightarrow> nat \<Rightarrow> 'a headers_out_scheme \<Rightarrow> 'a headers_out_scheme \<Rightarrow> bool" where
  "headers_grow b m st st' \<longleftrightarrow>
     num_headers st \<le> num_headers st' \<and> num_headers st' \<le> m \<and>
     length (headers st') = length (headers st) \<and>
     (\<forall>i < num_headers st. headers st' ! i = headers st ! i) \<and>
     (\<forall>i. num_headers st \<le> i \<longrightarrow> i < num_headers st' \<longrightarrow> header_inside b (headers st' ! i)) \<and>
     st' = st\<lparr>headers := headers st', num_headers := num_headers st'\<rparr>"

lemma headers_grow_refl: "num_headers st \<le> m \<Longrightarrow> headers_grow b m st st"
  by (simp add: headers_grow_def)

lemma headers_grow_partial:
  "num_headers st \<le> m \<Longrightarrow> headers_grow b m st (st\<lparr>headers := (headers st)[num_headers st := h]\<rparr>)"
  by (simp add: headers_grow_def)

lemma headers_grow_entry:
  assumes "num_headers st < m" "num_headers st < length (headers st)" "header_inside b h"
    and "headers_grow b m (st\<lparr>headers := (headers st)[num_headers st := h],
        num_headers := Suc (num_headers st)\<rparr>) st'"
  shows "headers_grow b m st st'"
proof -
  have st': "st' = st\<lparr>headers := headers st', num_headers := num_headers st'\<rparr>"
    using assms(4) by (simp add: headers_grow_def)
  have "header_inside b (headers st' ! i)" if "num_headers st \<le> i" "i < num_headers st'" for i
    using assms that by (cases "i = num_headers st") (auto simp: headers_grow_def)
  then show ?thesis
    using assms unfolding headers_grow_def by (subst st') (auto simp: nth_list_update)
qed

lemma parse_headers_safe:
  assumes "p \<le> length b" "num_headers st \<le> m" "m \<le> length (headers st)"
    and "parse_headers sse b m p st = (st', out)"
  shows "headers_grow b m st st' \<and>
    (case out of Ret q \<Rightarrow> p < q \<and> q \<le> length b | Fail r \<Rightarrow> r = -1 \<or> r = -2 | Crash k \<Rightarrow> False)"
  using assms
proof (induction sse b m p st rule: parse_headers.induct)
  case (1 sse b m p st)
  note E = headers_end_facts [OF "1.prems"(1)]
  have U: "parse_headers sse b m p st = (st', out)" by (rule "1.prems"(4))
  show ?case
  proof (cases "headers_end b p")
    case (Fail r)
    with U E "1.prems" show ?thesis
      by (subst (asm) parse_headers.simps) (auto simp: headers_grow_refl)
  next
    case (Crash k)
    with E show ?thesis by blast
  next
    case (Ret x)
    show ?thesis
    proof (cases x)
      case (Some q)
      with Ret U E "1.prems" show ?thesis
        by (subst (asm) parse_headers.simps) (auto simp: headers_grow_refl)
    next
      case None
      with Ret E have p: "p < length b" by blast
      show ?thesis
      proof (cases "num_headers st = m")
        case True
        with None Ret U "1.prems" show ?thesis
          by (subst (asm) parse_headers.simps) (auto simp: headers_grow_refl)
      next
        case False
        with "1.prems" have n: "num_headers st < length (headers st)" "num_headers st < m" by auto
        obtain st1 o1 where l: "parse_header_line sse b p st = (st1, o1)" by fastforce
        obtain h where h: "st1 = st\<lparr>headers := (headers st)[num_headers st := h]\<rparr>"
          "o1 = obind (header_line sse (num_headers st = 0) b p) (\<lambda>(h', q). Ret q)"
          "\<forall>h' q. header_line sse (num_headers st = 0) b p = Ret (h', q) \<longrightarrow> h = h'"
          using parse_header_line_fills [OF n(1), of sse b p] l by (auto simp: fills_def)
        show ?thesis
        proof (cases o1)
          case (Fail r)
          with h have "header_line sse (num_headers st = 0) b p = Fail r"
            by (cases "header_line sse (num_headers st = 0) b p") auto
          with header_line_Fail [OF p] have "r = -1 \<or> r = -2" by blast
          moreover have "st' = st1" "out = Fail r"
            using Fail U None Ret False l by (subst (asm) parse_headers.simps, simp)+
          ultimately show ?thesis using h(1) n by (simp add: headers_grow_partial)
        next
          case (Crash k)
          with h header_line_no_crash [OF p] show ?thesis
            by (cases "header_line sse (num_headers st = 0) b p") auto
        next
          case R: (Ret q)
          then obtain h' where "header_line sse (num_headers st = 0) b p = Ret (h', q)"
            using h by (cases "header_line sse (num_headers st = 0) b p") auto
          with h header_line_inside [OF p] have q: "p < q" "q \<le> length b" "header_inside b h"
            by auto
          have "parse_headers sse b m q (st1\<lparr>num_headers := Suc (num_headers st1)\<rparr>) = (st', out)"
            using U R None Ret False l by (subst (asm) parse_headers.simps) simp
          from "1.IH" [OF Ret None False l [symmetric] R _ _ _ this] q(2) n "1.prems" h
          have "headers_grow b m (st1\<lparr>num_headers := Suc (num_headers st1)\<rparr>) st' \<and>
            (case out of Ret q' \<Rightarrow> q < q' \<and> q' \<le> length b | Fail r \<Rightarrow> r = -1 \<or> r = -2 | Crash k \<Rightarrow> False)"
            by simp
          with headers_grow_entry [OF n(2,1) q(3)] q h show ?thesis
            by (auto split: outcome.splits)
        qed
      qed
    qed
  qed
qed

lemma parse_header_line_stable:
  assumes "p < length b" "num_headers st < length (headers st)"
    and "snd (parse_header_line False b p st) \<noteq> Fail (-2)"
  shows "parse_header_line False (b @ c) p st = parse_header_line False b p st"
proof -
  have r: "rd (b @ c) p = Ret (b ! p)" "rd b p = Ret (b ! p)"
    using assms(1) by (auto simp: rd_def nth_append)
  note N = buffer_parser.run_stable [OF header_name_parser less_imp_le [OF assms(1)], of c]
  note T = to_eol.run_stable [of _ b False c]
  note B = blanks.run_stable [of _ b c]
  consider (bad) "num_headers st = 0 \<or> \<not> (b ! p = SP \<or> b ! p = HT)" "token_char_map ! uchar (b ! p) = 0"
    | (name) "num_headers st = 0 \<or> \<not> (b ! p = SP \<or> b ! p = HT)" "token_char_map ! uchar (b ! p) \<noteq> 0"
    | (fold) "\<not> (num_headers st = 0 \<or> \<not> (b ! p = SP \<or> b ! p = HT))"
    by blast
  then show ?thesis
  proof cases
    case bad
    then show ?thesis by (auto simp: header_line_run r)
  next
    case name
    show ?thesis
    proof (cases "header_name False b p")
      case (Ret e)
      then have N': "header_name False (b @ c) p = Ret e" using N by simp
      from Ret have e: "Suc e \<le> length b"
        using header_name_bounds [of p b False] assms(1) by (simp add: Suc_le_eq)
      show ?thesis
      proof (cases "skip_blanks b (Suc e)")
        case R: (Ret v)
        then have B': "skip_blanks (b @ c) (Suc e) = Ret v" using B [OF e] by simp
        have v: "v \<le> length b"
          using blanks.run_Ret [OF e R] by blast
        have "get_token_to_eol False b v \<noteq> Fail (-2)"
          using name r Ret R assms(2,3) by (auto simp: header_line_run)
        with T [OF v] name r Ret N' R B' assms(2) show ?thesis by (auto simp: header_line_run)
      next
        case (Fail k)
        with name r Ret assms(2,3) have "k \<noteq> -2" by (auto simp: header_line_run)
        with Fail B [OF e] name r Ret N' assms(2) show ?thesis by (auto simp: header_line_run)
      next
        case (Crash k)
        with B [OF e] name r Ret N' assms(2) show ?thesis by (auto simp: header_line_run)
      qed
    next
      case (Fail k)
      with name r assms(2,3) have "k \<noteq> -2" by (auto simp: header_line_run)
      with Fail N name r assms(2) show ?thesis by (auto simp: header_line_run)
    next
      case (Crash k)
      with N name r assms(2) show ?thesis by (auto simp: header_line_run)
    qed
  next
    case fold
    then have "get_token_to_eol False b p \<noteq> Fail (-2)"
      using r assms(2,3) by (auto simp: header_line_run)
    with T [of p] fold r assms(1,2) show ?thesis by (auto simp: header_line_run)
  qed
qed

lemma parse_headers_stable:
  assumes "p \<le> length b" "num_headers st \<le> m" "m \<le> length (headers st)"
    and "snd (parse_headers False b m p st) \<noteq> Fail (-2)"
  shows "parse_headers False (b @ c) m p st = parse_headers False b m p st"
  using assms
proof (induction False b m p st rule: parse_headers.induct)
  case (1 b m p st)
  note E = headers_end_facts [OF "1.prems"(1), of c]
  have ne: "headers_end b p \<noteq> Fail (-2)"
    using "1.prems"(4) by (subst (asm) parse_headers.simps) auto
  with E have E': "headers_end (b @ c) p = headers_end b p" by blast
  show ?case
  proof (cases "headers_end b p = Ret None \<and> num_headers st \<noteq> m")
    case False
    then show ?thesis
      by (subst (1 2) parse_headers.simps) (auto simp: E' split: outcome.splits option.splits)
  next
    case True
    with E have p: "p < length b" by blast
    have n: "num_headers st < length (headers st)" using True "1.prems" by auto
    obtain st1 o1 where l: "parse_header_line False b p st = (st1, o1)" by fastforce
    have U: "parse_headers False b m p st = (case o1 of Fail r \<Rightarrow> (st1, Fail r)
       | Crash k \<Rightarrow> (st1, Crash k)
       | Ret q \<Rightarrow> parse_headers False b m q (st1\<lparr>num_headers := Suc (num_headers st1)\<rparr>))"
      using True l by (subst parse_headers.simps) (simp split: outcome.splits)
    with "1.prems"(4) have "snd (parse_header_line False b p st) \<noteq> Fail (-2)"
      by (auto simp: l split: outcome.splits)
    with parse_header_line_stable [OF p n] l
    have l': "parse_header_line False (b @ c) p st = (st1, o1)" by simp
    have U': "parse_headers False (b @ c) m p st = (case o1 of Fail r \<Rightarrow> (st1, Fail r)
       | Crash k \<Rightarrow> (st1, Crash k)
       | Ret q \<Rightarrow> parse_headers False (b @ c) m q (st1\<lparr>num_headers := Suc (num_headers st1)\<rparr>))"
      using True l' E' by (subst parse_headers.simps) (simp split: outcome.splits)
    show ?thesis
    proof (cases o1)
      case R: (Ret q)
      have q: "q \<le> length b" using parse_header_line_Ret [OF p] l R by blast
      obtain h where "st1 = st\<lparr>headers := (headers st)[num_headers st := h]\<rparr>"
        using parse_header_line_fills [OF n, of False b p] l by (auto simp: fills_def)
      with "1.hyps" [OF conjunct1 [OF True] refl conjunct2 [OF True] l [symmetric] R q] "1.prems" True
        U U' R n show ?thesis by simp
    qed (use U U' in simp_all)
  qed
qed


section \<open>Correctness of the request parser\<close>

definition slice :: "char list \<Rightarrow> nat \<Rightarrow> nat \<Rightarrow> char list" where
  "slice b p n = take n (drop p b)"

text \<open>A non-null token: inside the array and made of token characters.\<close>

definition token_inside :: "char list \<Rightarrow> nat option \<Rightarrow> nat \<Rightarrow> bool" where
  "token_inside b p n \<longleftrightarrow>
     (\<exists>q. p = Some q \<and> q + n \<le> length b \<and> (\<forall>c \<in> set (slice b q n). tok_char c))"

text \<open>What the caller may rely on after a successful parse.\<close>

definition request_inside :: "char list \<Rightarrow> request_out \<Rightarrow> bool" where
  "request_inside b st \<longleftrightarrow>
     token_inside b (rq_method st) (rq_method_len st) \<and>
     token_inside b (rq_path st) (rq_path_len st) \<and>
     (\<forall>i < num_headers st. header_inside b (headers st ! i))"

lemma skip_empty_line_parser: "buffer_parser skip_empty_line (\<lambda>p. p)"
  by unfold_locales
     (auto simp: skip_empty_line_def expect_char_def check_eof_def obind_iffs rd_Ret_iff
        rd_Crash_iff nth_append split: if_splits)

interpretation empty_line: buffer_parser skip_empty_line "\<lambda>p. p"
  by (rule skip_empty_line_parser)

lemma skip_empty_line_no_crash: "p \<le> length b \<Longrightarrow> skip_empty_line b p \<noteq> Crash k"
  by (auto simp: skip_empty_line_def expect_char_def check_eof_def obind_Crash_iff rd_Crash_iff
      split: if_splits)

lemma line_end_facts: "p < length b \<Longrightarrow>
     (\<forall>q. line_end b p = Ret q \<longrightarrow> p < q \<and> q \<le> length b) \<and>
     (\<forall>r. line_end b p = Fail r \<longrightarrow> r = -1 \<or> r = -2) \<and>
     (\<forall>k. line_end b p \<noteq> Crash k) \<and>
     (line_end b p \<noteq> Fail (-2) \<longrightarrow> line_end (b @ c) p = line_end b p)"
  by (auto simp: line_end_def expect_char_def check_eof_def nth_append obind_iffs rd_Ret_iff
      rd_Crash_iff split: if_splits)

lemma advance_token_Ret:
  assumes "p \<le> length b" "advance_token sse b p = Ret (tok, n, q)"
  shows "tok = p \<and> q = p + n \<and> q < length b \<and> b ! q = SP \<and> token_inside b (Some tok) n"
proof -
  define e where "e = scan_end tok_char b p"
  have bd: "p \<le> e" "e \<le> length b" using scan_end_bounds [OF assms(1)] by (auto simp: e_def)
  have r: "tok = p" "n = e - p" "q = e" "e < length b" "b ! e = SP"
    using assms bd unfolding advance_token_eq_spec [OF assms(1)] token_spec_def e_def [symmetric]
    by (auto simp: Let_def split: if_splits)
  have "tok_char c" if "c \<in> set (slice b p n)" for c
  proof -
    from that obtain i where "i < n" "c = b ! (p + i)"
      using bd r by (auto simp: slice_def in_set_conv_nth)
    then show ?thesis using scan_end_inside [of p "p + i" tok_char b] r bd by (simp add: e_def)
  qed
  with r bd show ?thesis by (simp add: token_inside_def)
qed

lemma advance_token_no_crash: "p \<le> length b \<Longrightarrow> advance_token sse b p \<noteq> Crash k"
  by (auto simp: advance_token_eq_spec token_spec_def Let_def)

lemma parse_int_crash: "p \<le> length b \<Longrightarrow> parse_int b p = Crash k \<Longrightarrow> k = SignedOverflow"
proof -
  assume p: "p \<le> length b" and c: "parse_int b p = Crash k"
  have "int_loop b p v = Crash k \<Longrightarrow> p \<le> length b \<Longrightarrow> k = SignedOverflow" for v
  proof (induction b p v rule: int_loop.induct)
    case (1 b p v)
    then show ?case
      by (subst (asm) (2) int_loop.simps)
         (auto simp: obind_Crash_iff check_eof_def rd_Crash_iff rd_Ret_iff Suc_le_eq split: if_splits)
  qed
  with p c show ?thesis
    by (auto simp: parse_int_def obind_Crash_iff check_eof_def rd_Crash_iff split: if_splits)
qed

lemma expect_char_CrashE:
  assumes "obind (expect_char ch b p) f = Crash k" "p \<le> length b"
  obtains q where "f q = Crash k" "q \<le> length b"
  using assms by (auto simp: expect_char_def check_eof_def obind_Crash_iff rd_Crash_iff rd_Ret_iff
      Suc_le_eq split: if_splits)

lemma parse_http_version_crash:
  "p \<le> length b \<Longrightarrow> parse_http_version b p = Crash k \<Longrightarrow> k = SignedOverflow"
  unfolding parse_http_version_def
  by (elim expect_char_CrashE parse_int_crash [rotated]) assumption+

text \<open>
  The request line as a value: where the method and the path are, the version, and the position
  behind the line.
\<close>

definition request_line :: "bool \<Rightarrow> char list \<Rightarrow> nat \<Rightarrow>
    (nat \<times> nat \<times> nat \<times> nat \<times> int \<times> nat) outcome" where
  "request_line sse b p =
     obind (skip_empty_line b p) (\<lambda>p.
     obind (advance_token sse b p) (\<lambda>(t1, n1, p).
     obind (advance_token sse b (Suc p)) (\<lambda>(t2, n2, p).
     obind (parse_http_version b (Suc p)) (\<lambda>(v, p).
     obind (line_end b p) (\<lambda>q. Ret (t1, n1, t2, n2, v, q))))))"

lemma parse_request_line:
  "parse_request sse b m p st = (case request_line sse b p of
     Ret (t1, n1, t2, n2, v, q) \<Rightarrow> parse_headers sse b m q
       (st\<lparr>rq_method := Some t1, rq_method_len := n1, rq_path := Some t2, rq_path_len := n2,
           rq_minor_version := v\<rparr>)
   | Fail r \<Rightarrow> (fst (parse_request sse b m p st), Fail r)
   | Crash k \<Rightarrow> (fst (parse_request sse b m p st), Crash k))"
  by (simp add: parse_request_def request_line_def sbind_slift sbind_smodify slift_apply
      split: outcome.split prod.split)

lemma parse_request_snd:
  "request_line sse b p = Fail r \<Longrightarrow> snd (parse_request sse b m p st) = Fail r"
  "request_line sse b p = Crash k \<Longrightarrow> snd (parse_request sse b m p st) = Crash k"
  by (subst parse_request_line, simp)+

lemma parse_request_frame_cases:
  "case request_line sse b p of Ret x \<Rightarrow> True
   | _ \<Rightarrow> headers (fst (parse_request sse b m p st)) = headers st \<and>
         num_headers (fst (parse_request sse b m p st)) = num_headers st"
  by (simp add: parse_request_def request_line_def sbind_slift sbind_smodify slift_apply
      split: outcome.split prod.split)

lemma parse_request_frame:
  assumes "\<And>x. request_line sse b p \<noteq> Ret x"
  shows "headers (fst (parse_request sse b m p st)) = headers st \<and>
    num_headers (fst (parse_request sse b m p st)) = num_headers st"
proof (cases "request_line sse b p")
  case (Ret x)
  with assms show ?thesis by blast
qed (use parse_request_frame_cases [where sse = sse and b = b and p = p and m = m and st = st]
     in auto)

lemma request_line_Ret:
  assumes "p \<le> length b" "request_line sse b p = Ret (t1, n1, t2, n2, v, q)"
  shows "p < q \<and> q \<le> length b \<and> token_inside b (Some t1) n1 \<and> token_inside b (Some t2) n2"
proof -
  obtain p1 p2 p3 p4 where c: "skip_empty_line b p = Ret p1" "advance_token sse b p1 = Ret (t1, n1, p2)"
    "advance_token sse b (Suc p2) = Ret (t2, n2, p3)" "parse_http_version b (Suc p3) = Ret (v, p4)"
    "line_end b p4 = Ret q"
    using assms(2) by (auto simp: request_line_def obind_Ret_iff)
  have 1: "p \<le> p1" "p1 \<le> length b"
    using empty_line.run_Ret [OF assms(1) c(1)] by auto
  note 2 = advance_token_Ret [OF 1(2) c(2)]
  then have "Suc p2 \<le> length b" by simp
  note 3 = advance_token_Ret [OF this c(3)]
  then have b3: "Suc p3 \<le> length b" by simp
  note 4 = parse_http_version_inside [OF b3 c(4)]
    version.run_Ret [OF b3 c(4)]
  from line_end_facts [OF 4(1)] c(5) have "p4 < q \<and> q \<le> length b" by blast
  with 1 2 3 4 show ?thesis by auto
qed

lemma request_line_Fail:
  assumes "p \<le> length b" "request_line sse b p = Fail r"
  shows "r = -1 \<or> r = -2"
proof -
  have A: "p \<le> length b \<Longrightarrow> advance_token sse b p = Fail r \<Longrightarrow> r = -1 \<or> r = -2" for p
    by (rule token.run_Fail)
  have V: "p \<le> length b \<Longrightarrow> parse_http_version b p = Fail r \<Longrightarrow> r = -1 \<or> r = -2" for p
    by (rule version.run_Fail)
  have E: "skip_empty_line b p = Fail r \<Longrightarrow> r = -1 \<or> r = -2"
    by (rule empty_line.run_Fail [OF assms(1)])
  have Eb: "skip_empty_line b p = Ret q \<Longrightarrow> q \<le> length b" for q
    using empty_line.run_Ret [OF assms(1)] by blast
  have Ab: "p \<le> length b \<Longrightarrow> advance_token sse b p = Ret (t, n, q) \<Longrightarrow> Suc q \<le> length b" for p t n q
    using advance_token_Ret [of p b sse t n q] by simp
  have L: "p \<le> length b \<Longrightarrow> parse_http_version b p = Ret (v, q) \<Longrightarrow> line_end b q = Fail r \<Longrightarrow>
     r = -1 \<or> r = -2" for p v q
    using parse_http_version_inside [of p b v q] line_end_facts [of q b] by blast
  show ?thesis
    using assms(2) E A [OF Eb] A [OF Ab [OF Eb]] V [OF Ab [OF Ab [OF Eb]]] L [OF Ab [OF Ab [OF Eb]]]
    unfolding request_line_def obind_Fail_iff by (auto simp: obind_Fail_iff)
qed

lemma request_line_Crash:
  assumes "p \<le> length b" "request_line sse b p = Crash k"
  shows "k = SignedOverflow"
proof -
  have Eb: "skip_empty_line b p = Ret q \<Longrightarrow> q \<le> length b" for q
    using empty_line.run_Ret [OF assms(1)] by blast
  have Ab: "p \<le> length b \<Longrightarrow> advance_token sse b p = Ret (t, n, q) \<Longrightarrow> Suc q \<le> length b" for p t n q
    using advance_token_Ret [of p b sse t n q] by simp
  have L: "p \<le> length b \<Longrightarrow> parse_http_version b p = Ret (v, q) \<Longrightarrow> line_end b q \<noteq> Crash k" for p v q
    using parse_http_version_inside [of p b v q] line_end_facts [of q b] by blast
  have V: "p \<le> length b \<Longrightarrow> parse_http_version b p = Crash k \<Longrightarrow> k = SignedOverflow" for p
    by (rule parse_http_version_crash)
  show ?thesis
    using assms(2) skip_empty_line_no_crash [OF assms(1), of k]
      advance_token_no_crash [OF Eb, of _ sse k] advance_token_no_crash [OF Ab [OF Eb], of _ _ _ _ sse k]
      V [OF Ab [OF Ab [OF Eb]]] L [OF Ab [OF Ab [OF Eb]]]
    unfolding request_line_def obind_Crash_iff by (auto simp: obind_Crash_iff)
qed

lemma request_line_stable:
  assumes "p \<le> length b" "request_line sse b p \<noteq> Fail (-2)"
  shows "request_line sse (b @ c) p = request_line sse b p"
proof -
  have E: "skip_empty_line b p \<noteq> Fail (-2) \<Longrightarrow> skip_empty_line (b @ c) p = skip_empty_line b p"
    by (rule empty_line.run_stable [OF assms(1)])
  have A: "advance_token sse b p \<noteq> Fail (-2) \<Longrightarrow> advance_token sse (b @ c) p = advance_token sse b p"
    if "p \<le> length b" for p
    by (rule token.run_stable [OF that])
  have V: "parse_http_version b p \<noteq> Fail (-2) \<Longrightarrow> parse_http_version (b @ c) p = parse_http_version b p"
    if "p \<le> length b" for p
    by (rule version.run_stable [OF that])
  show ?thesis
  proof (cases "skip_empty_line b p")
    case (Ret p1)
    then have b1: "p1 \<le> length b"
      using empty_line.run_Ret [OF assms(1)] by blast
    note R1 = Ret E
    show ?thesis
    proof (cases "advance_token sse b p1")
      case (Ret x)
      then obtain t n p2 where x: "advance_token sse b p1 = Ret (t, n, p2)" by (cases x) auto
      then have b2: "Suc p2 \<le> length b" using advance_token_Ret [OF b1] by fastforce
      note R2 = x A [OF b1]
      show ?thesis
      proof (cases "advance_token sse b (Suc p2)")
        case (Ret y)
        then obtain t' n' p3 where y: "advance_token sse b (Suc p2) = Ret (t', n', p3)"
          by (cases y) auto
        then have b3: "Suc p3 \<le> length b" using advance_token_Ret [OF b2] by fastforce
        note R3 = y A [OF b2]
        show ?thesis
        proof (cases "parse_http_version b (Suc p3)")
          case (Ret z)
          then obtain v p4 where z: "parse_http_version b (Suc p3) = Ret (v, p4)" by (cases z) auto
          from line_end_facts [OF parse_http_version_inside [OF b3 z], of c]
          have "line_end b p4 \<noteq> Fail (-2) \<Longrightarrow> line_end (b @ c) p4 = line_end b p4" by blast
          moreover have "line_end b p4 \<noteq> Fail (-2)"
            using assms(2) R1 R2 R3 z by (auto simp: request_line_def)
          ultimately show ?thesis using R1 R2 R3 z V [OF b3] by (simp add: request_line_def)
        qed (use assms R1 R2 R3 V [OF b3] in \<open>auto simp: request_line_def\<close>)
      qed (use assms R1 R2 A [OF b2] in \<open>auto simp: request_line_def\<close>)
    qed (use assms R1 A [OF b1] in \<open>auto simp: request_line_def\<close>)
  qed (use assms E in \<open>auto simp: request_line_def\<close>)
qed

lemma parse_request_result:
  assumes "p \<le> length b" "num_headers st = 0" "m \<le> length (headers st)"
    and "parse_request sse b m p st = (st', out)"
  shows "num_headers st' \<le> m \<and> length (headers st') = length (headers st) \<and>
    (case out of Ret q \<Rightarrow> p < q \<and> q \<le> length b \<and> request_inside b st'
     | Fail r \<Rightarrow> r = -1 \<or> r = -2 | Crash k \<Rightarrow> k = SignedOverflow)"
proof (cases "request_line sse b p")
  case (Ret x)
  then obtain t1 n1 t2 n2 v q where x: "request_line sse b p = Ret (t1, n1, t2, n2, v, q)"
    by (cases x) auto
  note R = request_line_Ret [OF assms(1) x]
  define st1 where "st1 = st\<lparr>rq_method := Some t1, rq_method_len := n1, rq_path := Some t2,
    rq_path_len := n2, rq_minor_version := v\<rparr>"
  have "parse_headers sse b m q st1 = (st', out)"
    using parse_request_line [of sse b m p st] x assms(4) by (simp add: st1_def)
  with parse_headers_safe [of q b st1 m sse st' out] R assms(2,3)
  have G: "headers_grow b m st1 st'" and
    O: "case out of Ret q' \<Rightarrow> q < q' \<and> q' \<le> length b | Fail r \<Rightarrow> r = -1 \<or> r = -2 | Crash k \<Rightarrow> False"
    by (auto simp: st1_def)
  from G have S: "st' = st1\<lparr>headers := headers st', num_headers := num_headers st'\<rparr>"
    by (simp add: headers_grow_def)
  have "rq_method st' = Some t1" "rq_method_len st' = n1" "rq_path st' = Some t2" "rq_path_len st' = n2"
    by (subst S, simp add: st1_def)+
  with R G assms(2) have "request_inside b st'"
    by (auto simp: request_inside_def headers_grow_def st1_def)
  moreover have "length (headers st') = length (headers st)"
    using G by (simp add: headers_grow_def st1_def)
  ultimately show ?thesis using G O R by (auto simp: headers_grow_def split: outcome.splits)
next
  case (Fail r)
  with request_line_Fail [OF assms(1)] parse_request_frame [of sse b p m st]
    parse_request_snd(1) [OF Fail, of m st] assms(2,4)
  show ?thesis by auto
next
  case (Crash k)
  with request_line_Crash [OF assms(1)] parse_request_frame [of sse b p m st]
    parse_request_snd(2) [OF Crash, of m st] assms(2,4)
  show ?thesis by auto
qed

lemma parse_request_stable:
  assumes "p \<le> length b" "num_headers st = 0" "m \<le> length (headers st)"
    and "parse_request False b m p st = (st', out)" "out \<noteq> Fail (-2)"
  shows "snd (parse_request False (b @ c) m p st) = out \<and>
    (\<forall>q. out = Ret q \<longrightarrow> parse_request False (b @ c) m p st = (st', out))"
proof (cases "request_line False b p")
  case (Ret x)
  then obtain t1 n1 t2 n2 v q where x: "request_line False b p = Ret (t1, n1, t2, n2, v, q)"
    by (cases x) auto
  then have x': "request_line False (b @ c) p = Ret (t1, n1, t2, n2, v, q)"
    using request_line_stable [OF assms(1), of False c] by simp
  have q: "q \<le> length b" using request_line_Ret [OF assms(1) x] by blast
  define st1 where "st1 = st\<lparr>rq_method := Some t1, rq_method_len := n1, rq_path := Some t2,
    rq_path_len := n2, rq_minor_version := v\<rparr>"
  have "parse_headers False b m q st1 = (st', out)"
    using parse_request_line [of False b m p st] x assms(4) by (simp add: st1_def)
  moreover have "parse_request False (b @ c) m p st = parse_headers False (b @ c) m q st1"
    using parse_request_line [of False "b @ c" m p st] x' by (simp add: st1_def)
  ultimately show ?thesis
    using parse_headers_stable [OF q, of st1 m c] assms by (simp add: st1_def)
next
  case (Fail r)
  then have o: "out = Fail r" using parse_request_snd(1) [of False b p r m st] assms(4) by simp
  with Fail assms(5) request_line_stable [OF assms(1), of False c] show ?thesis
    by (auto intro: parse_request_snd(1))
next
  case (Crash k)
  then have o: "out = Crash k" using parse_request_snd(2) [of False b p k m st] assms(4) by simp
  with Crash assms(5) request_line_stable [OF assms(1), of False c] show ?thesis
    by (auto intro: parse_request_snd(2))
qed

lemma phr_parse_request_contract:
  assumes "last_len \<le> length b" "num_headers st \<le> length (headers st)"
    and "phr_parse_request sse b last_len st = (st', out)"
  shows "num_headers st' \<le> num_headers st \<and> length (headers st') = length (headers st) \<and>
    (out = Crash SignedOverflow \<or> out = Ret (-1) \<or> out = Ret (-2) \<or>
     (\<exists>n. out = Ret (int n) \<and> 0 < n \<and> n \<le> length b \<and> request_inside b st'))"
proof -
  define st0 where "st0 = st\<lparr>rq_method := None, rq_method_len := 0, rq_path := None,
    rq_path_len := 0, rq_minor_version := -1, num_headers := 0\<rparr>"
  define ic where "ic = (if last_len \<noteq> 0 then is_complete b last_len else Ret 0)"
  have ic: "ic \<noteq> Crash k" "ic = Fail r \<Longrightarrow> r = -1 \<or> r = -2" for k r
    using complete_loop_contract [of "last_len - 3" b 0] complete_loop_contract [of 0 b 0] assms(1)
    by (auto simp: ic_def is_complete_def split: if_splits)
  have run: "(case ic of Fail r \<Rightarrow> (st0, Ret r) | Crash k \<Rightarrow> (st0, Crash k)
     | Ret _ \<Rightarrow> (case parse_request sse b (num_headers st) 0 st0 of
          (st', Ret q) \<Rightarrow> (st', Ret (int q))
        | (st', Fail r) \<Rightarrow> (st', Ret r) | (st', Crash k) \<Rightarrow> (st', Crash k))) = (st', out)"
    using assms(3) unfolding phr_parse_request_def Let_def st0_def ic_def .
  obtain st1 o1 where p: "parse_request sse b (num_headers st) 0 st0 = (st1, o1)" by fastforce
  have "num_headers st1 \<le> num_headers st \<and> length (headers st1) = length (headers st0) \<and>
    (case o1 of Ret q \<Rightarrow> 0 < q \<and> q \<le> length b \<and> request_inside b st1
     | Fail r \<Rightarrow> r = -1 \<or> r = -2 | Crash k \<Rightarrow> k = SignedOverflow)"
    using assms(2) by (intro parse_request_result [OF _ _ _ p]) (auto simp: st0_def)
  with run p ic show ?thesis
    by (cases ic; cases o1) (auto simp: st0_def)
qed



text \<open>The output parameters before a call, with an array of \<open>n\<close> headers.\<close>

definition fresh_request :: "nat \<Rightarrow> request_out" where
  "fresh_request n =
     \<lparr>headers = replicate n \<lparr>hname = None, hname_len = 0, hvalue = 0, hvalue_len = 0\<rparr>,
      num_headers = n, rq_method = None, rq_method_len = 0, rq_path = None, rq_path_len = 0,
      rq_minor_version = 0\<rparr>"

definition sample_request :: "char list" where
  "sample_request = ''GET / HTTP/1.1'' @ [CR, LF] @ ''Host: a'' @ [CR, LF] @ [CR, LF]"

lemma sample_request_run:
  "snd (phr_parse_request False sample_request 0 (fresh_request 2)) = Ret 27"
  by code_simp



end
