(* ===== verification/Http_Path.thy ===== *)
theory Http_Path
  imports Yotta_Prelude
begin

text \<open>
  \<^verbatim>\<open>clean_path\<close> of \<^verbatim>\<open>http/yta_http.cpp\<close>: the lexical normalisation of a URL path, on
  the output array \<open>np\<close> and the output pointer \<open>w\<close> the code uses, with every read and write
  checked; and its specification on lists of path components.
\<close>

section \<open>The code\<close>

text \<open>\<^verbatim>\<open>*output++ = c\<close>\<close>

definition put :: "char \<Rightarrow> char list \<times> nat \<Rightarrow> (char list \<times> nat) outcome" where
  "put c out = (case out of (np, w) \<Rightarrow>
     if w < length np then Ret (np[w := c], Suc w) else Crash OutOfBounds)"

text \<open>\<^verbatim>\<open>path[r] == '.' && (r + 1 == length || path[r + 1] == '/')\<close>\<close>

definition at_dot :: "char list \<Rightarrow> nat \<Rightarrow> bool outcome" where
  "at_dot path r =
     obind (rd path r) (\<lambda>c.
       if c \<noteq> CHR ''.'' then Ret False
       else if r + 1 = length path then Ret True
       else obind (rd path (r + 1)) (\<lambda>d. Ret (d = CHR ''/'')))"

text \<open>
  \<^verbatim>\<open>path[r] == '.' && path[r + 1] == '.' && (r + 2 == length || path[r + 2] == '/')\<close>
\<close>

definition at_dotdot :: "char list \<Rightarrow> nat \<Rightarrow> bool outcome" where
  "at_dotdot path r =
     obind (rd path r) (\<lambda>c.
       if c \<noteq> CHR ''.'' then Ret False
       else obind (rd path (r + 1)) (\<lambda>d.
         if d \<noteq> CHR ''.'' then Ret False
         else if r + 2 = length path then Ret True
         else obind (rd path (r + 2)) (\<lambda>e. Ret (e = CHR ''/''))))"

text \<open>The loop that moves the output pointer back to the last slash, not below \<open>dotdot\<close>.\<close>

function back_to_slash :: "char list \<Rightarrow> nat \<Rightarrow> nat \<Rightarrow> nat outcome" where
  "back_to_slash np dotdot w =
     (if dotdot < w
      then obind (rd np w) (\<lambda>c. if c \<noteq> CHR ''/'' then back_to_slash np dotdot (w - 1) else Ret w)
      else Ret w)"
  by pat_completeness auto
termination
  by (relation "measure (\<lambda>(np, dotdot, w). w)") auto

declare back_to_slash.simps [simp del]

text \<open>The loop that copies a path element.\<close>

function copy_name :: "char list \<Rightarrow> nat \<Rightarrow> char list \<times> nat \<Rightarrow> (nat \<times> char list \<times> nat) outcome" where
  "copy_name path r out =
     (if r < length path then
        obind (rd path r) (\<lambda>c.
          if c \<noteq> CHR ''/'' then obind (put c out) (\<lambda>out. copy_name path (Suc r) out)
          else Ret (r, out))
      else Ret (r, out))"
  by pat_completeness auto
termination
  by (relation "measure (\<lambda>(path, r, out). length path - r)") auto

declare copy_name.simps [simp del]

lemma copy_name_mono: "copy_name path r out = Ret (r', out') \<Longrightarrow> r \<le> r'"
proof (induction path r out rule: copy_name.induct)
  case (1 path r out)
  show ?case
  proof (cases "r < length path \<and> path ! r \<noteq> CHR ''/''")
    case True
    with "1.prems" obtain o1 where o1: "put (path ! r) out = Ret o1"
      "copy_name path (Suc r) o1 = Ret (r', out')"
      by (subst (asm) copy_name.simps) (auto simp: obind_Ret_iff)
    from "1.IH" [OF _ _ _ o1] True have "Suc r \<le> r'" by simp
    then show ?thesis by simp
  next
    case False
    with "1.prems" show ?thesis by (subst (asm) copy_name.simps) (auto split: if_splits)
  qed
qed

lemma copy_name_progress:
  "copy_name path r out = Ret (r', out') \<Longrightarrow> r < length path \<Longrightarrow> path ! r \<noteq> CHR ''/'' \<Longrightarrow> r < r'"
  by (subst (asm) copy_name.simps) (auto simp: obind_Ret_iff dest!: copy_name_mono)

text \<open>The main loop.\<close>

function clean_loop :: "char list \<Rightarrow> bool \<Rightarrow> nat \<Rightarrow> nat \<Rightarrow> char list \<times> nat \<Rightarrow> (char list \<times> nat) outcome" where
  "clean_loop path rooted r dotdot out =
     (if r < length path then
        obind (rd path r) (\<lambda>c.
        if c = CHR ''/'' then clean_loop path rooted (Suc r) dotdot out
        else obind (at_dot path r) (\<lambda>dot.
        if dot then clean_loop path rooted (Suc r) dotdot out
        else obind (at_dotdot path r) (\<lambda>dots.
        if dots then
          (case out of (np, w) \<Rightarrow>
             if dotdot < w then
               obind (back_to_slash np dotdot (w - 1)) (\<lambda>w. clean_loop path rooted (r + 2) dotdot (np, w))
             else if \<not> rooted then
               obind (if 0 < w then put CHR ''/'' (np, w) else Ret (np, w)) (\<lambda>out.
               obind (put CHR ''.'' out) (\<lambda>out.
               obind (put CHR ''.'' out) (\<lambda>(np, w).
               clean_loop path rooted (r + 2) w (np, w))))
             else clean_loop path rooted (r + 2) dotdot (np, w))
        else
          obind (if rooted \<and> snd out \<noteq> 1 \<or> \<not> rooted \<and> snd out \<noteq> 0
                 then put CHR ''/'' out else Ret out) (\<lambda>out.
          obind (copy_name path r out) (\<lambda>(r', out).
          clean_loop path rooted r' dotdot out)))))
      else Ret out)"
  by pat_completeness auto
termination
  by (relation "measure (\<lambda>(path, rooted, r, dotdot, out). length path - r)")
     (auto simp: rd_Ret_iff dest: copy_name_progress)

declare clean_loop.simps [simp del]

definition clean_path :: "char list \<Rightarrow> char list \<Rightarrow> (char list \<times> nat) outcome" where
  "clean_path path np =
     (if length path = 0 then obind (put CHR ''.'' (np, 0)) (\<lambda>(np, w). Ret (np, 1))
      else
        obind (rd path 0) (\<lambda>c0.
        let rooted = (c0 = CHR ''/'') in
        obind (if rooted then put CHR ''/'' (np, 0) else Ret (np, 0)) (\<lambda>out.
        obind (clean_loop path rooted (if rooted then 1 else 0) (if rooted then 1 else 0) out) (\<lambda>out.
        if snd out = 0 then put CHR ''.'' out else Ret out))))"

end
