(* ===== verification/C_Integers.thy ===== *)
theory C_Integers
  imports Yotta_Prelude
begin

text \<open>
  Integers of C and their decimal text: what \<^verbatim>\<open>sprintf\<close> prints for \<^verbatim>\<open>%d\<close> and
  \<^verbatim>\<open>%lu\<close>, what \<^verbatim>\<open>std::stoi\<close> and \<^verbatim>\<open>atoi\<close> read, and the 32-bit
  \<^verbatim>\<open>int\<close>, whose conversions wrap and whose overflow is undefined.
\<close>

section \<open>Decimal numbers\<close>

definition dig :: "nat \<Rightarrow> char" where
  "dig n = char_of (48 + n)"

fun dec :: "nat \<Rightarrow> char list" where
  "dec n = (if n < 10 then [dig n] else dec (n div 10) @ [dig (n mod 10)])"

declare dec.simps [simp del]

definition dec2 :: "nat \<Rightarrow> char list" where
  "dec2 n = [dig (n div 10), dig (n mod 10)]"

definition ascii_digit :: "char \<Rightarrow> bool" where
  "ascii_digit c \<longleftrightarrow> 48 \<le> uchar c \<and> uchar c \<le> 57"

definition digit_val :: "char \<Rightarrow> nat" where
  "digit_val c = uchar c - 48"

definition dec_val :: "char list \<Rightarrow> nat" where
  "dec_val ds = foldl (\<lambda>v c. v * 10 + digit_val c) 0 ds"

lemma uchar_dig: "n < 10 \<Longrightarrow> uchar (dig n) = 48 + n"
  by (simp add: uchar_def dig_def)

lemma dig_digit: "n < 10 \<Longrightarrow> ascii_digit (dig n) \<and> digit_val (dig n) = n"
  by (simp add: ascii_digit_def digit_val_def uchar_dig)

lemma dec_digits: "\<forall>c \<in> set (dec n). ascii_digit c"
  by (induction n rule: dec.induct) (subst dec.simps, auto simp: dig_digit)

lemma dec_not_Nil: "dec n \<noteq> []"
  by (subst dec.simps) simp

lemma dec_val_dec: "dec_val (dec n) = n"
proof (induction n rule: dec.induct)
  case (1 n)
  then show ?case by (subst dec.simps) (auto simp: dec_val_def dig_digit)
qed

lemma length_dec: "n < 10 ^ k \<Longrightarrow> 0 < k \<Longrightarrow> length (dec n) \<le> k"
proof (induction k arbitrary: n)
  case (Suc k)
  show ?case
  proof (cases "n < 10")
    case False
    then have "0 < k" using Suc.prems by (cases k) auto
    moreover have "n div 10 < 10 ^ k" using Suc.prems(1) by (simp add: less_mult_imp_div_less mult.commute)
    ultimately have "length (dec (n div 10)) \<le> k" by (intro Suc.IH)
    with False show ?thesis by (subst dec.simps) simp
  qed (subst dec.simps, simp)
qed simp

text \<open>\<^verbatim>\<open>%d\<close>\<close>

definition int_text :: "int \<Rightarrow> char list" where
  "int_text x = (if x < 0 then ''-'' @ dec (nat (- x)) else dec (nat x))"

section \<open>Reading a number\<close>

definition is_space :: "char \<Rightarrow> bool" where
  "is_space c \<longleftrightarrow> c = SP \<or> 9 \<le> uchar c \<and> uchar c \<le> 13"

text \<open>
  White space, a sign and digits, as \<^verbatim>\<open>strtol\<close> reads them: the digits found and the number.
\<close>

definition scan_int :: "char list \<Rightarrow> char list \<times> int" where
  "scan_int s =
     (let s = dropWhile is_space s;
          (neg, s) = (case s of [] \<Rightarrow> (False, s)
             | c # s' \<Rightarrow> if c = CHR ''-'' then (True, s') else if c = CHR ''+'' then (False, s') else (False, s));
          ds = takeWhile ascii_digit s
      in (ds, if neg then - int (dec_val ds) else int (dec_val ds)))"

definition fits_int :: "int \<Rightarrow> bool" where
  "fits_int x \<longleftrightarrow> -2147483648 \<le> x \<and> x \<le> 2147483647"

text \<open>
  \<^verbatim>\<open>std::stoi\<close> throws when there is no digit and when the number does not fit into an
  \<^verbatim>\<open>int\<close>, and nobody catches; \<^verbatim>\<open>atoi\<close> is 0 without digits, and undefined when the number
  does not fit.
\<close>

definition stoi :: "char list \<Rightarrow> int outcome" where
  "stoi s = (case scan_int s of (ds, x) \<Rightarrow>
     if ds = [] \<or> \<not> fits_int x then Crash UncaughtException else Ret x)"

definition atoi :: "char list \<Rightarrow> int outcome" where
  "atoi s = (case scan_int s of (ds, x) \<Rightarrow> if fits_int x then Ret x else Crash SignedOverflow)"

text \<open>Conversion to a 32-bit \<^verbatim>\<open>int\<close>, and arithmetic on it, whose overflow is undefined.\<close>

definition to_int :: "int \<Rightarrow> int" where
  "to_int x = (x + 2147483648) mod 4294967296 - 2147483648"

definition int_op :: "int \<Rightarrow> int outcome" where
  "int_op x = (if fits_int x then Ret x else Crash SignedOverflow)"

lemma to_int_fits: "fits_int x \<Longrightarrow> to_int x = x"
  by (simp add: to_int_def fits_int_def)

lemma fits_to_int: "fits_int (to_int x)"
  using pos_mod_bound [of 4294967296 "x + 2147483648"] pos_mod_sign [of 4294967296 "x + 2147483648"]
  by (simp add: to_int_def fits_int_def)

text \<open>What \<^verbatim>\<open>sprintf\<close> prints is read back, up to the next character that is no digit.\<close>

lemma ascii_digit_not_space: "ascii_digit c \<Longrightarrow> c \<noteq> SP \<and> \<not> is_space c"
  by (auto simp: ascii_digit_def is_space_def uchar_def)

lemma ascii_digit_no_sign: "ascii_digit c \<Longrightarrow> c \<noteq> CHR ''-'' \<and> c \<noteq> CHR ''+'' \<and> c \<noteq> NUL"
  by (auto simp: ascii_digit_def uchar_def)

lemma scan_dec:
  assumes "rest = [] \<or> \<not> ascii_digit (List.hd rest)"
  shows "scan_int (dec n @ rest) = (dec n, int n)"
proof -
  obtain c cs where d: "dec n = c # cs" using dec_not_Nil by (cases "dec n") auto
  then have c: "ascii_digit c" using dec_digits [of n] by simp
  have "takeWhile ascii_digit (dec n @ rest) = dec n"
    using assms dec_digits [of n] by (cases rest) (auto simp: takeWhile_append)
  then show ?thesis
    using d ascii_digit_not_space [OF c] ascii_digit_no_sign [OF c] dec_val_dec [of n]
    by (simp add: scan_int_def)
qed

end
