(* ===== verification/Http_Time.thy ===== *)
theory Http_Time
  imports C_Integers
begin

text \<open>
  What the server uses of the C library for dates, in the C locale: \<^verbatim>\<open>gmtime\<close>, \<^verbatim>\<open>timegm\<close>, and \<^verbatim>\<open>strftime\<close> and
  \<^verbatim>\<open>strptime\<close> on the one format of \<^verbatim>\<open>http_time_format\<close>,
  \<^verbatim>\<open>"%a, %d %b %Y %H:%M:%S %Z"\<close>.  The Gregorian calendar is computed on unbounded
  integers.  The main lemma is the round trip: what \<^verbatim>\<open>strftime\<close> prints of a time,
  \<^verbatim>\<open>strptime\<close> and \<^verbatim>\<open>timegm\<close> read back.
\<close>

section \<open>The calendar\<close>

record tm =
  tm_sec :: nat
  tm_min :: nat
  tm_hour :: nat
  tm_mday :: nat
  tm_mon :: nat
  tm_year :: int     \<comment> \<open>the year itself, not the year minus 1900\<close>
  tm_wday :: nat

definition leap :: "int \<Rightarrow> bool" where
  "leap y \<longleftrightarrow> 4 dvd y \<and> (\<not> 100 dvd y \<or> 400 dvd y)"

text \<open>Days between 1970-01-01 and the first of January of the year.\<close>

definition days_to_year :: "int \<Rightarrow> int" where
  "days_to_year y = 365 * (y - 1970) + ((y - 1) div 4 - (y - 1) div 100 + (y - 1) div 400) - 477"

definition month_length :: "int \<Rightarrow> nat \<Rightarrow> nat" where
  "month_length y m =
     (if m = 1 then (if leap y then 29 else 28) else [31, 28, 31, 30, 31, 30, 31, 31, 30, 31, 30, 31] ! m)"

definition days_to_month :: "int \<Rightarrow> nat \<Rightarrow> nat" where
  "days_to_month y m = sum_list (map (month_length y) [0..<m])"

definition timegm :: "tm \<Rightarrow> int" where
  "timegm t = (days_to_year (tm_year t) + int (days_to_month (tm_year t) (tm_mon t))
       + int (tm_mday t) - 1) * 86400
     + int (tm_hour t) * 3600 + int (tm_min t) * 60 + int (tm_sec t)"

lemma div_pred: "0 < k \<Longrightarrow> (y :: int) div k - (y - 1) div k = (if k dvd y then 1 else 0)"
proof -
  assume k: "0 < k"
  have y: "y = k * (y div k) + y mod k" by simp
  show ?thesis
  proof (cases "k dvd y")
    case True
    then have "y mod k = 0" by (simp add: dvd_eq_mod_eq_0)
    with y have "y - 1 = k * (y div k - 1) + (k - 1)" by (simp only: right_diff_distrib mult_1_right add_0_right)
    then have "(y - 1) div k = y div k - 1"
      using k by (intro int_div_pos_eq [where r = "k - 1"]) (simp_all add: algebra_simps)
    with True show ?thesis by simp
  next
    case False
    then have "y mod k \<noteq> 0" by (simp add: dvd_eq_mod_eq_0)
    then have "0 \<le> y mod k - 1" using k pos_mod_sign [of k y] by linarith
    moreover have "y - 1 = k * (y div k) + (y mod k - 1)" using y by simp
    ultimately have "(y - 1) div k = y div k"
      using pos_mod_bound [OF k, of y] by (intro int_div_pos_eq [where r = "y mod k - 1"]) auto
    with False show ?thesis by simp
  qed
qed

lemma days_to_year_Suc: "days_to_year (y + 1) = days_to_year y + (if leap y then 366 else 365)"
proof -
  have "(400::int) dvd y \<Longrightarrow> 100 dvd y" by (rule dvd_trans [of 100 400]) simp_all
  moreover have "(100::int) dvd y \<Longrightarrow> 4 dvd y" by (rule dvd_trans [of 4 100]) simp_all
  ultimately have "leap y \<longleftrightarrow> 4 dvd y \<and> \<not> 100 dvd y \<or> 400 dvd y"
    "(400::int) dvd y \<Longrightarrow> 100 dvd y" "(100::int) dvd y \<Longrightarrow> 4 dvd y"
    unfolding leap_def by blast+
  note l = this
  have e: "days_to_year (y + 1) = days_to_year y + 365 + (if 4 dvd y then 1 else 0)
      - (if 100 dvd y then 1 else 0) + (if 400 dvd y then 1 else 0)"
    using div_pred [of 4 y] div_pred [of 100 y] div_pred [of 400 y] by (simp add: days_to_year_def)
  show ?thesis
    unfolding e using l
    by (cases "4 dvd y"; cases "100 dvd y"; cases "400 dvd y") simp_all
qed

lemma month_length_le: "m < 12 \<Longrightarrow> 0 < month_length y m \<and> month_length y m \<le> 31"
  by (simp add: month_length_def nth_Cons')

function find_year :: "int \<Rightarrow> int \<Rightarrow> int" where
  "find_year y d = (if days_to_year (y + 1) \<le> d then find_year (y + 1) d else y)"
  by pat_completeness auto
termination
proof (relation "measure (\<lambda>(y, d). nat (d - days_to_year y))")
  fix y d :: int
  assume "days_to_year (y + 1) \<le> d"
  then show "((y + 1, d), (y, d)) \<in> measure (\<lambda>(y, d). nat (d - days_to_year y))"
    using days_to_year_Suc [of y] by (simp split: if_splits)
qed simp

declare find_year.simps [simp del]

lemma find_year_spec: "days_to_year y \<le> d \<Longrightarrow>
  days_to_year (find_year y d) \<le> d \<and> d < days_to_year (find_year y d + 1) \<and> y \<le> find_year y d"
proof (induction y d rule: find_year.induct)
  case (1 y d)
  show ?case
  proof (cases "days_to_year (y + 1) \<le> d")
    case True
    with 1 show ?thesis by (subst (1 2 3) find_year.simps) simp
  next
    case False
    with 1 show ?thesis by (subst (1 2 3) find_year.simps) simp
  qed
qed

text \<open>The month that contains the day \<open>r\<close> of the year.\<close>

fun find_month :: "int \<Rightarrow> nat \<Rightarrow> nat list \<Rightarrow> nat \<times> nat" where
  "find_month y r [] = (11, r)"
| "find_month y r (m # ms) =
     (if r < month_length y m then (m, r) else find_month y (r - month_length y m) ms)"

definition gmtime :: "int \<Rightarrow> tm" where
  "gmtime t =
     (let d = t div 86400; s = nat (t mod 86400);
          y = find_year (2000 + 400 * ((d - 10957) div 146097)) d;
          (m, r) = find_month y (nat (d - days_to_year y)) [0..<12]
      in \<lparr>tm_sec = s mod 60, tm_min = s div 60 mod 60, tm_hour = s div 3600, tm_mday = r + 1,
          tm_mon = m, tm_year = y, tm_wday = nat ((d + 4) mod 7)\<rparr>)"

lemma era_start: "days_to_year (2000 + 400 * e) = 10957 + 146097 * e"
proof -
  have "(1999 + 400 * e) div 4 = 499 + 100 * e" "(1999 + 400 * e) div 100 = 19 + 4 * e"
    "(1999 + 400 * e) div 400 = 4 + e" by linarith+
  then show ?thesis by (simp add: days_to_year_def)
qed

lemma find_month_spec:
  assumes "r < sum_list (map (month_length y) [m..<12])" "m \<le> 12"
  shows "case find_month y r [m..<12] of (m', r') \<Rightarrow>
    m \<le> m' \<and> m' < 12 \<and> r' < month_length y m' \<and>
    r = sum_list (map (month_length y) [m..<m']) + r'"
  using assms
proof (induction "12 - m" arbitrary: m r)
  case (Suc n)
  then have c: "[m..<12] = m # [Suc m..<12]" by (simp add: upt_conv_Cons)
  show ?case
  proof (cases "r < month_length y m")
    case False
    have "r - month_length y m < sum_list (map (month_length y) [Suc m..<12])"
      using False Suc.prems(1) c by simp
    with Suc.hyps(1) [of "Suc m" "r - month_length y m"] Suc.hyps(2) Suc.prems
    have "case find_month y (r - month_length y m) [Suc m..<12] of (m', r') \<Rightarrow>
      Suc m \<le> m' \<and> m' < 12 \<and> r' < month_length y m' \<and>
      r - month_length y m = sum_list (map (month_length y) [Suc m..<m']) + r'" by simp
    with False show ?thesis by (auto simp: c upt_conv_Cons)
  qed (use Suc.hyps(2) in \<open>simp add: c\<close>)
qed simp

lemma gmtime_fields: "timegm (gmtime t) = t \<and> tm_sec (gmtime t) < 60 \<and> tm_min (gmtime t) < 60 \<and>
  tm_hour (gmtime t) < 24 \<and> 1 \<le> tm_mday (gmtime t) \<and> tm_mday (gmtime t) \<le> 31 \<and>
  tm_mon (gmtime t) < 12 \<and> tm_wday (gmtime t) < 7"
proof -
  define d s where "d = t div 86400" and "s = nat (t mod 86400)"
  define y where "y = find_year (2000 + 400 * ((d - 10957) div 146097)) d"
  define r where "r = nat (d - days_to_year y)"
  have "days_to_year (2000 + 400 * ((d - 10957) div 146097)) \<le> d"
    using era_start [of "(d - 10957) div 146097"] by linarith
  from find_year_spec [OF this] have y: "days_to_year y \<le> d" "d < days_to_year (y + 1)"
    by (simp_all add: y_def)
  have r: "int r = d - days_to_year y" using y by (simp add: r_def)
  have "sum_list (map (month_length y) [0..<12]) = (if leap y then 366 else 365)"
    by (simp add: month_length_def upt_rec)
  with y r days_to_year_Suc [of y] have "r < sum_list (map (month_length y) [0..<12])"
    by (auto split: if_splits)
  then obtain m q where m: "find_month y r [0..<12] = (m, q)" "m < 12" "q < month_length y m"
    "r = days_to_month y m + q"
    using find_month_spec [of r y 0] by (auto simp: days_to_month_def)
  have s: "s < 86400" "t = d * 86400 + int s" by (auto simp: s_def d_def)
  have "s = s div 3600 * 3600 + (60 * (s div 60 mod 60) + s mod 60)"
    using mod_mult2_eq [of s 60 60] div_mult_mod_eq [of s 3600] by simp
  then have "int s = int (s div 3600 * 3600 + (60 * (s div 60 mod 60) + s mod 60))" by simp
  then have "int s = int (s div 3600) * 3600 + int (s div 60 mod 60) * 60 + int (s mod 60)"
    by (simp only: of_nat_add of_nat_mult of_nat_numeral)
  moreover have "(d + 4) mod 7 < 7" "0 \<le> (d + 4) mod 7" by simp_all
  moreover have "s div 3600 < 24" using s(1) by (simp add: less_mult_imp_div_less)
  moreover have g: "gmtime t = \<lparr>tm_sec = s mod 60, tm_min = s div 60 mod 60, tm_hour = s div 3600,
      tm_mday = q + 1, tm_mon = m, tm_year = y, tm_wday = nat ((d + 4) mod 7)\<rparr>"
    using m(1) by (simp add: gmtime_def Let_def d_def [symmetric] s_def [symmetric]
        y_def [symmetric] r_def [symmetric])
  moreover have "timegm (gmtime t) = (int r + days_to_year y) * 86400 + int s"
    unfolding g timegm_def using m(4) calculation(1) by (simp add: algebra_simps)
  then have "timegm (gmtime t) = t" using r s(2) by simp
  moreover have "q < 31" using m(3) month_length_le [OF m(2), of y] by simp
  moreover have "nat ((d + 4) mod 7) < 7" by (simp add: nat_less_iff)
  ultimately show ?thesis using m(2) by simp
qed

section \<open>Printing and reading a date\<close>

definition day_names :: "(char list \<times> char list) list" where
  "day_names = [(''Sunday'', ''Sun''), (''Monday'', ''Mon''), (''Tuesday'', ''Tue''),
     (''Wednesday'', ''Wed''), (''Thursday'', ''Thu''), (''Friday'', ''Fri''), (''Saturday'', ''Sat'')]"

definition month_names :: "(char list \<times> char list) list" where
  "month_names = [(''January'', ''Jan''), (''February'', ''Feb''), (''March'', ''Mar''),
     (''April'', ''Apr''), (''May'', ''May''), (''June'', ''Jun''), (''July'', ''Jul''),
     (''August'', ''Aug''), (''September'', ''Sep''), (''October'', ''Oct''),
     (''November'', ''Nov''), (''December'', ''Dec'')]"

text \<open>\<^verbatim>\<open>strftime(buf, 512, "%a, %d %b %Y %H:%M:%S %Z", t)\<close> for a \<^verbatim>\<open>gmtime\<close> result.\<close>

definition strftime :: "tm \<Rightarrow> char list" where
  "strftime t =
     snd (day_names ! tm_wday t) @ '', '' @ dec2 (tm_mday t) @ '' '' @
     snd (month_names ! tm_mon t) @ '' '' @
     (if tm_year t < 0 then ''-'' else []) @ dec (nat \<bar>tm_year t\<bar>) @ '' '' @
     dec2 (tm_hour t) @ '':'' @ dec2 (tm_min t) @ '':'' @ dec2 (tm_sec t) @ '' GMT''"

text \<open>
  \<^verbatim>\<open>strptime\<close> gets a pointer and no length: it reads on until the text stops to match.  It
  works on the bytes from that pointer to the end of the array; reading past them is the crash
  \<open>UnboundedRead\<close>.  The result is \<open>None\<close> for the null pointer.
\<close>

fun next_char :: "char list \<Rightarrow> (char \<times> char list) outcome" where
  "next_char [] = Crash UnboundedRead"
| "next_char (c # s) = Ret (c, s)"

definition lower :: "char \<Rightarrow> char" where
  "lower c = (if 65 \<le> uchar c \<and> uchar c \<le> 90 then char_of (uchar c + 32) else c)"

fun skip_while :: "(char \<Rightarrow> bool) \<Rightarrow> char list \<Rightarrow> char list outcome" where
  "skip_while P [] = Crash UnboundedRead"
| "skip_while P (c # s) = (if P c then skip_while P s else Ret (c # s))"

fun match_nocase :: "char list \<Rightarrow> char list \<Rightarrow> char list option outcome" where
  "match_nocase [] s = Ret (Some s)"
| "match_nocase (x # xs) [] = Crash UnboundedRead"
| "match_nocase (x # xs) (c # s) = (if lower x = lower c then match_nocase xs s else Ret None)"

text \<open>The first of the names that matches, in full or abbreviated.\<close>

fun match_name :: "nat \<Rightarrow> (char list \<times> char list) list \<Rightarrow> char list \<Rightarrow> (nat \<times> char list) option outcome" where
  "match_name i [] s = Ret None"
| "match_name i ((full, abbr) # names) s =
     obind (match_nocase full s) (\<lambda>r. case r of
       Some s' \<Rightarrow> Ret (Some (i, s'))
     | None \<Rightarrow> obind (match_nocase abbr s) (\<lambda>r. case r of
         Some s' \<Rightarrow> Ret (Some (i, s'))
       | None \<Rightarrow> match_name (Suc i) names s))"

text \<open>At most \<open>n\<close> further digits, as long as the value can still grow within the bound.\<close>

fun more_digits :: "nat \<Rightarrow> nat \<Rightarrow> nat \<Rightarrow> char list \<Rightarrow> (nat \<times> char list) outcome" where
  "more_digits to n v [] = (if 0 < n \<and> v * 10 \<le> to then Crash UnboundedRead else Ret (v, []))"
| "more_digits to n v (c # s) =
     (if 0 < n \<and> v * 10 \<le> to \<and> ascii_digit c
      then more_digits to (n - 1) (v * 10 + digit_val c) s else Ret (v, c # s))"

definition get_number :: "nat \<Rightarrow> nat \<Rightarrow> nat \<Rightarrow> char list \<Rightarrow> (nat \<times> char list) option outcome" where
  "get_number lo to n s =
     obind (skip_while (\<lambda>c. c = SP) s) (\<lambda>s.
     obind (next_char s) (\<lambda>(c, s).
       if \<not> ascii_digit c then Ret None
       else obind (more_digits to (n - 1) (digit_val c) s) (\<lambda>(v, s).
         if v < lo \<or> to < v then Ret None else Ret (Some (v, s)))))"

definition literal :: "char \<Rightarrow> char list \<Rightarrow> char list option outcome" where
  "literal x s = obind (next_char s) (\<lambda>(c, s). if c = x then Ret (Some s) else Ret None)"

definition then_parse :: "'a option outcome \<Rightarrow> ('a \<Rightarrow> 'b option outcome) \<Rightarrow> 'b option outcome" where
  "then_parse m f = obind m (\<lambda>r. case r of None \<Rightarrow> Ret None | Some x \<Rightarrow> f x)"

lemma then_parse_simps [simp]:
  "then_parse (Ret None) f = Ret None" "then_parse (Ret (Some x)) f = f x"
  "then_parse (Crash k) f = Crash k" "then_parse (Fail r) f = Fail r"
  by (simp_all add: then_parse_def)

definition strptime :: "char list \<Rightarrow> tm option outcome" where
  "strptime s =
     then_parse (match_name 0 day_names s) (\<lambda>(wday, s).
     then_parse (literal (CHR '','') s) (\<lambda>s.
     obind (skip_while is_space s) (\<lambda>s.
     then_parse (get_number 1 31 2 s) (\<lambda>(mday, s).
     obind (skip_while is_space s) (\<lambda>s.
     then_parse (match_name 0 month_names s) (\<lambda>(mon, s).
     obind (skip_while is_space s) (\<lambda>s.
     then_parse (get_number 0 9999 4 s) (\<lambda>(year, s).
     obind (skip_while is_space s) (\<lambda>s.
     then_parse (get_number 0 23 2 s) (\<lambda>(hour, s).
     then_parse (literal (CHR '':'') s) (\<lambda>s.
     then_parse (get_number 0 59 2 s) (\<lambda>(min, s).
     then_parse (literal (CHR '':'') s) (\<lambda>s.
     then_parse (get_number 0 61 2 s) (\<lambda>(sec, s).
     obind (skip_while is_space s) (\<lambda>s.
     obind (skip_while is_space s) (\<lambda>s.
     obind (skip_while (\<lambda>c. \<not> is_space c \<and> c \<noteq> NUL) s) (\<lambda>_.
     Ret (Some \<lparr>tm_sec = sec, tm_min = min, tm_hour = hour, tm_mday = mday, tm_mon = mon,
                tm_year = int year, tm_wday = wday\<rparr>))))))))))))))))))"

lemma get_number_dec2:
  assumes "n \<le> to" "lo \<le> n" "to < 100" "\<not> ascii_digit c"
  shows "get_number lo to 2 (dec2 n @ c # s) = Ret (Some (n, c # s))"
proof -
  have n: "n div 10 < 10" using assms by simp
  have "dig (n div 10) \<noteq> SP" using dig_digit [OF n] ascii_digit_not_space by blast
  moreover have "n div 10 * 10 + n mod 10 = n" by simp
  moreover have "n div 10 * 10 \<le> to" using div_times_less_eq_dividend [of n 10] assms(1) by linarith
  then have "more_digits to 1 (n div 10) (dig (n mod 10) # c # s) = Ret (n, c # s)"
    using assms(4) dig_digit [of "n mod 10"] by simp
  ultimately show ?thesis
    using assms dig_digit [OF n] by (simp add: get_number_def dec2_def del: more_digits.simps)
qed

lemma match_day:
  assumes "w < 7"
  shows "match_name 0 day_names (snd (day_names ! w) @ CHR '','' # s) = Ret (Some (w, CHR '','' # s))"
proof -
  have "w = 0 \<or> w = 1 \<or> w = 2 \<or> w = 3 \<or> w = 4 \<or> w = 5 \<or> w = 6" using assms by linarith
  then show ?thesis by (elim disjE) (simp_all add: day_names_def lower_def uchar_def)
qed

lemma match_month:
  assumes "m < 12"
  shows "match_name 0 month_names (snd (month_names ! m) @ SP # s) = Ret (Some (m, SP # s))"
proof -
  have "m = 0 \<or> m = 1 \<or> m = 2 \<or> m = 3 \<or> m = 4 \<or> m = 5 \<or> m = 6 \<or> m = 7 \<or> m = 8 \<or> m = 9 \<or>
    m = 10 \<or> m = 11" using assms by presburger
  then show ?thesis by (elim disjE) (simp_all add: month_names_def lower_def uchar_def)
qed

lemma dec_four:
  assumes "1000 \<le> n" "n < 10000"
  shows "dec n = [dig (n div 1000), dig (n div 100 mod 10), dig (n div 10 mod 10), dig (n mod 10)]"
proof -
  have "\<not> n < 10" "\<not> n div 10 < 10" "\<not> n div 100 < 10" "n div 1000 < 10" using assms by auto
  then show ?thesis
    by (subst dec.simps, subst dec.simps, subst dec.simps, subst dec.simps) (simp add: div_mult2_eq [symmetric])
qed

lemma get_year:
  assumes "1000 \<le> n" "n < 10000"
  shows "get_number 0 9999 4 (dec n @ SP # s) = Ret (Some (n, SP # s))"
proof -
  let ?a = "n div 1000" and ?b = "n div 100 mod 10" and ?c = "n div 10 mod 10" and ?d = "n mod 10"
  have a: "?a < 10" using assms by simp
  have "dig ?a \<noteq> SP" using dig_digit [OF a] ascii_digit_not_space by blast
  moreover have e: "(?a * 10 + ?b) = n div 100" "n div 100 * 10 + ?c = n div 10" "n div 10 * 10 + ?d = n"
    using div_mult_mod_eq [of "n div 100" 10] div_mult_mod_eq [of "n div 10" 10]
    by (simp_all add: div_mult2_eq [symmetric])
  moreover have "\<not> ascii_digit SP" by (simp add: ascii_digit_def uchar_def)
  moreover have "n div 100 * 10 \<le> 9999" "n div 10 * 10 \<le> 9999" "?a * 10 \<le> 9999" using assms by linarith+
  ultimately show ?thesis
    using assms dig_digit [OF a] dig_digit [of ?b] dig_digit [of ?c] dig_digit [of ?d]
    by (simp add: get_number_def dec_four)
qed

lemma dig_not_space [simp]: "n < 10 \<Longrightarrow> \<not> is_space (dig n)"
  using dig_digit [of n] ascii_digit_not_space [of "dig n"] by blast

lemma skip_spaces_simps [simp]:
  "skip_while is_space (SP # s) = skip_while is_space s"
  "n < 10 \<Longrightarrow> skip_while is_space (dig n # s) = Ret (dig n # s)"
  using dig_digit [of n] ascii_digit_not_space [of "dig n"] by (auto simp: is_space_def)

lemma skip_dec2: "n < 100 \<Longrightarrow> skip_while is_space (dec2 n @ s) = Ret (dec2 n @ s)"
  by (simp add: dec2_def)

lemma skip_year: "1000 \<le> n \<Longrightarrow> n < 10000 \<Longrightarrow> skip_while is_space (dec n @ s) = Ret (dec n @ s)"
  by (simp add: dec_four)

lemma skip_month:
  assumes "m < 12"
  shows "skip_while is_space (snd (month_names ! m) @ s) = Ret (snd (month_names ! m) @ s)"
proof -
  have "m = 0 \<or> m = 1 \<or> m = 2 \<or> m = 3 \<or> m = 4 \<or> m = 5 \<or> m = 6 \<or> m = 7 \<or> m = 8 \<or> m = 9 \<or>
    m = 10 \<or> m = 11" using assms by presburger
  then show ?thesis by (elim disjE) (simp_all add: month_names_def is_space_def uchar_def)
qed

text \<open>A date followed by a space character is read back, whatever follows it.\<close>

lemma strptime_strftime:
  assumes "tm_sec t < 60" "tm_min t < 60" "tm_hour t < 24" "1 \<le> tm_mday t" "tm_mday t \<le> 31"
    "tm_mon t < 12" "tm_wday t < 7" "1000 \<le> tm_year t" "tm_year t < 10000" "is_space c"
  shows "strptime (strftime t @ c # s) = Ret (Some t)"
proof -
  have nd: "\<not> ascii_digit SP" "\<not> ascii_digit (CHR '':'')" by (simp_all add: ascii_digit_def uchar_def)
  have G: "skip_while is_space (CHR ''G'' # r) = Ret (CHR ''G'' # r)" for r
    by (simp add: is_space_def uchar_def)
  have Z: "skip_while (\<lambda>c. \<not> is_space c \<and> c \<noteq> NUL) (CHR ''G'' # CHR ''M'' # CHR ''T'' # c # s) = Ret (c # s)"
  proof -
    have "\<not> is_space (CHR ''G'')" "\<not> is_space (CHR ''M'')" "\<not> is_space (CHR ''T'')"
      by (simp_all add: is_space_def uchar_def)
    with assms(10) show ?thesis by simp
  qed
  define n where "n = nat (tm_year t)"
  then have y: "tm_year t = int n" "1000 \<le> n" "n < 10000" using assms by auto
  have d: "skip_while is_space (dec n @ r) = Ret (dec n @ r)" for r
    by (rule skip_year [OF y(2,3)])
  have "t = \<lparr>tm_sec = tm_sec t, tm_min = tm_min t, tm_hour = tm_hour t, tm_mday = tm_mday t,
      tm_mon = tm_mon t, tm_year = int n, tm_wday = tm_wday t\<rparr>" using y(1) by simp
  then show ?thesis
    using assms(1-7) nd
    by (simp add: strptime_def strftime_def match_day literal_def skip_dec2 get_number_dec2
        match_month skip_month get_year [OF y(2,3)] d G Z y(1) del: skip_while.simps)
qed

section \<open>The round trip of times\<close>

lemma days_to_year_mono: "y \<le> z \<Longrightarrow> days_to_year y \<le> days_to_year z"
proof (induction z rule: int_ge_induct)
  case (step z)
  then show ?case using days_to_year_Suc [of z] by (auto split: if_splits)
qed simp

lemma gmtime_year: "days_to_year (tm_year (gmtime t)) \<le> t div 86400 \<and>
  t div 86400 < days_to_year (tm_year (gmtime t) + 1)"
proof -
  have "days_to_year (2000 + 400 * ((t div 86400 - 10957) div 146097)) \<le> t div 86400"
    using era_start [of "(t div 86400 - 10957) div 146097"] by linarith
  from find_year_spec [OF this] show ?thesis
    by (simp add: gmtime_def Let_def split: prod.splits)
qed

lemma gmtime_year_between:
  assumes "days_to_year a \<le> t div 86400" "t div 86400 < days_to_year b"
  shows "a \<le> tm_year (gmtime t) \<and> tm_year (gmtime t) < b"
proof (rule conjI; rule ccontr)
  assume "\<not> a \<le> tm_year (gmtime t)"
  then have "days_to_year (tm_year (gmtime t) + 1) \<le> days_to_year a"
    by (intro days_to_year_mono) simp
  with gmtime_year [of t] assms show False by linarith
next
  assume "\<not> tm_year (gmtime t) < b"
  then have "days_to_year b \<le> days_to_year (tm_year (gmtime t))"
    by (intro days_to_year_mono) simp
  with gmtime_year [of t] assms show False by linarith
qed

lemma year_1970_9999:
  assumes "0 \<le> t" "t < 253402300800"
  shows "1970 \<le> tm_year (gmtime t) \<and> tm_year (gmtime t) < 10000"
  by (rule gmtime_year_between) (use assms in \<open>simp_all add: days_to_year_def\<close>)

lemma http_date_read_back:
  assumes "0 \<le> t" "t < 253402300800" "is_space c"
  shows "strptime (strftime (gmtime t) @ c # s) = Ret (Some (gmtime t)) \<and> timegm (gmtime t) = t"
  using gmtime_fields [of t] year_1970_9999 [OF assms(1,2)] assms(3)
  by (intro conjI strptime_strftime) auto

lemma length_names:
  "w < 7 \<Longrightarrow> length (snd (day_names ! w)) = 3" "m < 12 \<Longrightarrow> length (snd (month_names ! m)) = 3"
proof -
  have "\<forall>x \<in> set day_names. length (snd x) = 3" "\<forall>x \<in> set month_names. length (snd x) = 3"
    by (simp_all add: day_names_def month_names_def)
  moreover have "length day_names = 7" "length month_names = 12"
    by (simp_all add: day_names_def month_names_def)
  ultimately show "w < 7 \<Longrightarrow> length (snd (day_names ! w)) = 3"
    "m < 12 \<Longrightarrow> length (snd (month_names ! m)) = 3" by simp_all
qed

lemma length_strftime: "tm_wday t < 7 \<Longrightarrow> tm_mon t < 12 \<Longrightarrow> \<bar>tm_year t\<bar> < 10 ^ 10 \<Longrightarrow> length (strftime t) \<le> 36"
  using length_dec [of "nat \<bar>tm_year t\<bar>" 10]
  by (cases "tm_year t < 0") (simp_all add: strftime_def length_names dec2_def nat_less_iff)

end
