(* ===== verification/Http_Response.thy ===== *)
theory Http_Response
  imports Http_Time
begin

text \<open>
  The response builders of \<^verbatim>\<open>http/yta_http.cpp\<close>.  The output pointer \<^verbatim>\<open>buf\<close> is a
  position \<open>w\<close> in the array the caller passes; each copy, \<^verbatim>\<open>sprintf\<close> and
  \<^verbatim>\<open>strftime\<close> is checked against the end of that array.
\<close>

section \<open>Writing through the output pointer\<close>

text \<open>\<^verbatim>\<open>buf = std::copy(s, s + n, buf)\<close>\<close>

definition copy_out :: "char list \<Rightarrow> char list \<times> nat \<Rightarrow> (char list \<times> nat) outcome" where
  "copy_out s out = (case out of (a, w) \<Rightarrow>
     if w + length s \<le> length a then Ret (take w a @ s @ drop (w + length s) a, w + length s)
     else Crash OutOfBounds)"

text \<open>
  \<^verbatim>\<open>buf += sprintf(buf, ...)\<close> for a formatted text \<open>s\<close>: the terminating zero byte is stored
  too, but not counted.
\<close>

definition sprintf :: "char list \<Rightarrow> char list \<times> nat \<Rightarrow> (char list \<times> nat) outcome" where
  "sprintf s out = obind (copy_out (s @ [NUL]) out) (\<lambda>(a, w). Ret (a, w - 1))"

text \<open>
  \<^verbatim>\<open>buf += strftime(buf, 512, http_time_format(), gmtime(t))\<close>.  \<^verbatim>\<open>gmtime\<close> returns the
  null pointer when the year does not fit into an \<^verbatim>\<open>int\<close>, and \<^verbatim>\<open>strftime\<close> counts
  nothing when the text and its zero byte do not fit into 512 bytes.
\<close>

definition put_date :: "int \<Rightarrow> char list \<times> nat \<Rightarrow> (char list \<times> nat) outcome" where
  "put_date t out =
     (let year = tm_year (gmtime t) - 1900 in
      if year < -2147483648 \<or> 2147483647 < year then Crash LibraryNull
      else let s = strftime (gmtime t) in if length s + 1 \<le> 512 then sprintf s out else Ret out)"

abbreviation crlf :: "char list" where "crlf \<equiv> [CR, LF]"

section \<open>The responses\<close>

definition serve_200 :: "nat \<Rightarrow> int \<Rightarrow> char list \<Rightarrow> char list \<times> nat \<Rightarrow> (char list \<times> nat) outcome" where
  "serve_200 content_length last_modified content_type out =
     obind (copy_out (''HTTP/1.1 200 OK'' @ crlf @ ''Connection: keep-alive'' @ crlf) out) (\<lambda>out.
     obind (copy_out ''Last-Modified: '' out) (\<lambda>out.
     obind (put_date last_modified out) (\<lambda>out.
     obind (copy_out (crlf @ ''Content-Length: '') out) (\<lambda>out.
     obind (sprintf (dec content_length) out) (\<lambda>out.
     obind (copy_out (crlf @ ''Content-Type: '') out) (\<lambda>out.
     obind (copy_out content_type out) (\<lambda>out.
     copy_out (crlf @ crlf) out)))))))"

definition serve_304 :: "char list \<times> nat \<Rightarrow> (char list \<times> nat) outcome" where
  "serve_304 = copy_out (''HTTP/1.1 304 Not Modified'' @ crlf @ ''Connection: keep-alive'' @ crlf @
     ''Content-Length: 0'' @ crlf @ crlf)"

definition serve_206 :: "nat \<Rightarrow> int \<Rightarrow> nat \<Rightarrow> nat \<Rightarrow> nat \<Rightarrow> char list \<times> nat \<Rightarrow> (char list \<times> nat) outcome" where
  "serve_206 content_length last_modified range_start range_end file_size out =
     obind (copy_out (''HTTP/1.1 206 Partial Content'' @ crlf @ ''Accept-Ranges: bytes'') out) (\<lambda>out.
     obind (copy_out (crlf @ ''Last-Modified: '') out) (\<lambda>out.
     obind (put_date last_modified out) (\<lambda>out.
     obind (copy_out (crlf @ ''Content-Range: bytes '') out) (\<lambda>out.
     obind (sprintf (dec range_start) out) (\<lambda>out.
     obind (copy_out ''-'' out) (\<lambda>out.
     obind (sprintf (dec range_end) out) (\<lambda>out.
     obind (copy_out ''/'' out) (\<lambda>out.
     obind (sprintf (dec file_size) out) (\<lambda>out.
     obind (copy_out (crlf @ ''Content-Length: '') out) (\<lambda>out.
     obind (sprintf (dec content_length) out) (\<lambda>out.
     copy_out (crlf @ crlf) out)))))))))))"

definition serve_400 :: "char list \<times> nat \<Rightarrow> (char list \<times> nat) outcome" where
  "serve_400 = copy_out (''HTTP/1.1 400 Bad Request'' @ crlf @ ''Connection: close'' @ crlf @
     ''Content-Length: 0'' @ crlf @ crlf)"

definition serve_404 :: "char list \<times> nat \<Rightarrow> (char list \<times> nat) outcome" where
  "serve_404 = copy_out (''HTTP/1.1 404 Not Found'' @ crlf @ ''Connection: keep-alive'' @ crlf @
     ''Content-Length: 0'' @ crlf @ crlf)"

section \<open>What they write\<close>

text \<open>
  \<open>appends s f\<close>: run at any position that leaves room for \<open>s\<close> and a zero byte, \<open>f\<close> appends exactly
  \<open>s\<close> there, and keeps what stands in front of it and the size of the array.
\<close>

definition appends :: "char list \<Rightarrow> (char list \<times> nat \<Rightarrow> (char list \<times> nat) outcome) \<Rightarrow> bool" where
  "appends s f \<longleftrightarrow> (\<forall>a w. w + length s < length a \<longrightarrow>
     (\<exists>a'. f (a, w) = Ret (a', w + length s) \<and> length a' = length a \<and>
           take (w + length s) a' = take w a @ s))"

lemma appends_copy_out: "appends s (copy_out s)"
  by (auto simp: appends_def copy_out_def)

lemma appends_sprintf: "appends s (sprintf s)"
  by (auto simp: appends_def sprintf_def copy_out_def)

lemma appends_bind:
  assumes f: "appends s f" and g: "appends t g"
  shows "appends (s @ t) (\<lambda>out. obind (f out) g)"
  unfolding appends_def
proof (intro allI impI)
  fix a :: "char list" and w :: nat
  assume le: "w + length (s @ t) < length a"
  then have "w + length s < length a" by simp
  then obtain a1 where a1: "f (a, w) = Ret (a1, w + length s)" "length a1 = length a"
    "take (w + length s) a1 = take w a @ s"
    using f unfolding appends_def by blast
  have "w + length s + length t < length a1" using le a1(2) by simp
  then obtain a2 where a2: "g (a1, w + length s) = Ret (a2, w + length s + length t)"
    "length a2 = length a1" "take (w + length s + length t) a2 = take (w + length s) a1 @ t"
    using g unfolding appends_def by blast
  show "\<exists>a'. obind (f (a, w)) g = Ret (a', w + length (s @ t)) \<and> length a' = length a \<and>
      take (w + length (s @ t)) a' = take w a @ s @ t"
    using a1 a2 by (simp add: add.assoc)
qed

definition year_fits :: "int \<Rightarrow> bool" where
  "year_fits t \<longleftrightarrow> -2147483648 \<le> tm_year (gmtime t) - 1900 \<and> tm_year (gmtime t) - 1900 \<le> 2147483647"

definition text_200 :: "nat \<Rightarrow> int \<Rightarrow> char list \<Rightarrow> char list" where
  "text_200 content_length last_modified content_type =
     ''HTTP/1.1 200 OK'' @ crlf @ ''Connection: keep-alive'' @ crlf @
     ''Last-Modified: '' @ strftime (gmtime last_modified) @ crlf @
     ''Content-Length: '' @ dec content_length @ crlf @
     ''Content-Type: '' @ content_type @ crlf @ crlf"

definition text_206 :: "nat \<Rightarrow> int \<Rightarrow> nat \<Rightarrow> nat \<Rightarrow> nat \<Rightarrow> char list" where
  "text_206 content_length last_modified range_start range_end file_size =
     ''HTTP/1.1 206 Partial Content'' @ crlf @ ''Accept-Ranges: bytes'' @ crlf @
     ''Last-Modified: '' @ strftime (gmtime last_modified) @ crlf @
     ''Content-Range: bytes '' @ dec range_start @ ''-'' @ dec range_end @ ''/'' @ dec file_size @ crlf @
     ''Content-Length: '' @ dec content_length @ crlf @ crlf"

lemma appends_date:
  assumes "year_fits t"
  shows "appends (strftime (gmtime t)) (put_date t)"
proof -
  have "length (strftime (gmtime t)) \<le> 36"
    using gmtime_fields [of t] assms unfolding year_fits_def by (intro length_strftime) auto
  then have "put_date t = sprintf (strftime (gmtime t))"
    using assms by (auto simp: put_date_def year_fits_def Let_def)
  then show ?thesis by (simp add: appends_sprintf)
qed

lemma appends_eq: "appends s f \<Longrightarrow> s = t \<Longrightarrow> appends t f"
  by simp

lemmas appends_rules = appends_bind appends_copy_out appends_sprintf appends_date

lemma serve_200_appends: "year_fits t \<Longrightarrow> appends (text_200 n t ct) (serve_200 n t ct)"
  unfolding serve_200_def
  by (rule appends_eq, (rule appends_rules)+, assumption, (rule appends_rules)+) (simp add: text_200_def)

lemma serve_206_appends: "year_fits t \<Longrightarrow> appends (text_206 n t a b sz) (serve_206 n t a b sz)"
  unfolding serve_206_def
  by (rule appends_eq, (rule appends_rules)+, assumption, (rule appends_rules)+) (simp add: text_206_def)

lemma length_dec_64: "n < 2 ^ 64 \<Longrightarrow> length (dec n) \<le> 20"
  by (rule length_dec) simp_all

lemma length_date: "year_fits t \<Longrightarrow> length (strftime (gmtime t)) \<le> 36"
  using gmtime_fields [of t] unfolding year_fits_def by (intro length_strftime) auto

lemma length_text_200:
  "year_fits t \<Longrightarrow> n < 2 ^ 64 \<Longrightarrow> length (text_200 n t ct) \<le> 200 + length ct"
  using length_date [of t] length_dec_64 [of n] by (simp add: text_200_def)

lemma length_text_206:
  "year_fits t \<Longrightarrow> n < 2 ^ 64 \<Longrightarrow> a < 2 ^ 64 \<Longrightarrow> b < 2 ^ 64 \<Longrightarrow> sz < 2 ^ 64 \<Longrightarrow>
   length (text_206 n t a b sz) \<le> 300"
  using length_date [of t] length_dec_64 [of n] length_dec_64 [of a] length_dec_64 [of b]
    length_dec_64 [of sz] by (simp add: text_206_def)

end
