(* ===== verification/Kernel_Model.thy ===== *)
theory Kernel_Model
  imports Yotta_Prelude
begin

text \<open>
  What the program sees of the operating system.  Files are a map from names to contents, open
  descriptors a map to files; whatever the kernel decides (which descriptor \<^verbatim>\<open>open\<close> or
  \<^verbatim>\<open>timerfd_create\<close> returns, whether \<^verbatim>\<open>setsockopt\<close> or \<^verbatim>\<open>bind\<close> succeeds, how much a
  \<^verbatim>\<open>read\<close> or \<^verbatim>\<open>write\<close> moves) is an answer taken from a list, so that a theorem
  about all lists is a theorem about every behaviour of the kernel.  The calls that the outside
  world can see are recorded in a trace.
\<close>

section \<open>Kernel state\<close>

record inode =
  f_regular :: bool
  f_mtime :: int
  f_content :: "char list"

datatype epoll_flag = EPOLLIN | EPOLLOUT | EPOLLET

datatype event =
    Sent int "char list"         \<comment> \<open>bytes given to a socket\<close>
  | Opened int "char list"       \<comment> \<open>descriptor, path\<close>
  | Closed int
  | Corked int bool              \<comment> \<open>socket, \<^verbatim>\<open>TCP_CORK\<close> on or off\<close>
  | No_delay int                 \<comment> \<open>\<^verbatim>\<open>TCP_NODELAY\<close> on\<close>
  | Reuse_addr int
  | Reuse_port int
  | Bound int
  | Listening int
  | Non_blocking int
  | Epoll_added int int "epoll_flag list"   \<comment> \<open>epoll set, descriptor\<close>
  | Epoll_removed int int
  | Quit_blocked                 \<comment> \<open>\<^verbatim>\<open>SIGQUIT\<close> is blocked, every other signal is not\<close>
  | Timer_set int int int        \<comment> \<open>descriptor, seconds, nanoseconds\<close>

record kernel =
  k_files :: "char list \<Rightarrow> inode option"
  k_fds :: "int \<Rightarrow> inode option"
  k_new_fds :: "int list"
  k_results :: "bool list"
  k_trace :: "event list"

definition trace_event :: "event \<Rightarrow> kernel \<Rightarrow> kernel" where
  "trace_event e k = k\<lparr>k_trace := k_trace k @ [e]\<rparr>"

text \<open>The next descriptor the kernel hands out; \<open>-1\<close> when it refuses.\<close>

definition new_fd :: "kernel \<Rightarrow> int \<times> kernel" where
  "new_fd k = (case k_new_fds k of [] \<Rightarrow> (-1, k) | fd # fds \<Rightarrow> (fd, k\<lparr>k_new_fds := fds\<rparr>))"

definition sys_open :: "char list \<Rightarrow> kernel \<Rightarrow> int \<times> kernel" where
  "sys_open path k =
     (case k_files k path of
        None \<Rightarrow> (-1, k)
      | Some f \<Rightarrow>
          (case new_fd k of (fd, k') \<Rightarrow>
             if fd = -1 then (-1, k')
             else (fd, trace_event (Opened fd path) (k'\<lparr>k_fds := (k_fds k')(fd := Some f)\<rparr>))))"

definition sys_close :: "int \<Rightarrow> kernel \<Rightarrow> kernel" where
  "sys_close fd k = trace_event (Closed fd) (k\<lparr>k_fds := (k_fds k)(fd := None)\<rparr>)"

text \<open>Whether the next call that can fail succeeds; it does when the list is used up.\<close>

definition next_result :: "kernel \<Rightarrow> bool \<times> kernel" where
  "next_result k = (case k_results k of [] \<Rightarrow> (True, k) | b # bs \<Rightarrow> (b, k\<lparr>k_results := bs\<rparr>))"

text \<open>A call whose failure makes the program print a message and \<^verbatim>\<open>exit(1)\<close>.\<close>

definition or_exit :: "kernel \<Rightarrow> kernel outcome" where
  "or_exit k = (case next_result k of (ok, k) \<Rightarrow> if ok then Ret k else Crash (ProcessExit 1))"

definition call_or_exit :: "event \<Rightarrow> kernel \<Rightarrow> kernel outcome" where
  "call_or_exit e k = obind (or_exit k) (\<lambda>k. Ret (trace_event e k))"

definition fd_or_exit :: "kernel \<Rightarrow> (int \<times> kernel) outcome" where
  "fd_or_exit k = (case new_fd k of (fd, k) \<Rightarrow> if fd = -1 then Crash (ProcessExit 1) else Ret (fd, k))"

lemma call_or_exit_cases:
  "call_or_exit e k = Crash (ProcessExit 1) \<or>
   (\<exists>k'. call_or_exit e k = Ret k' \<and> k_trace k' = k_trace k @ [e] \<and> k_fds k' = k_fds k \<and>
     k_files k' = k_files k \<and> k_new_fds k' = k_new_fds k \<and> set (k_results k') \<subseteq> set (k_results k))"
  by (auto simp: call_or_exit_def or_exit_def next_result_def trace_event_def split: list.splits)

lemma call_or_exit_ok:
  "False \<notin> set (k_results k) \<Longrightarrow>
   \<exists>k'. call_or_exit e k = Ret k' \<and> k_trace k' = k_trace k @ [e] \<and> k_fds k' = k_fds k \<and>
     k_files k' = k_files k \<and> k_new_fds k' = k_new_fds k \<and> set (k_results k') \<subseteq> set (k_results k)"
  by (auto simp: call_or_exit_def or_exit_def next_result_def trace_event_def split: list.splits)

lemma or_exit_cases: "or_exit k = Crash (ProcessExit 1) \<or> (\<exists>k'. or_exit k = Ret k')"
  by (auto simp: or_exit_def split: prod.splits)

lemma fd_or_exit_cases: "fd_or_exit k = Crash (ProcessExit 1) \<or> (\<exists>fd k'. fd_or_exit k = Ret (fd, k'))"
  by (auto simp: fd_or_exit_def split: prod.splits)

text \<open>Case rules: what holds of the exit, and of everything that may come after the call.\<close>

lemma or_exit_then: "P (Crash (ProcessExit 1)) \<Longrightarrow> (\<And>k'. P (f k')) \<Longrightarrow> P (obind (or_exit k) f)"
  using or_exit_cases [of k] by auto

lemma call_or_exit_then:
  "P (Crash (ProcessExit 1)) \<Longrightarrow> (\<And>k'. P (f k')) \<Longrightarrow> P (obind (call_or_exit e k) f)"
  using call_or_exit_cases [of e k] by auto

section \<open>Reading the trace\<close>

fun sent_on :: "int \<Rightarrow> event list \<Rightarrow> char list" where
  "sent_on fd [] = []"
| "sent_on fd (Sent fd' bs # es) = (if fd' = fd then bs @ sent_on fd es else sent_on fd es)"
| "sent_on fd (e # es) = sent_on fd es"

lemma sent_on_append [simp]: "sent_on fd (es @ es') = sent_on fd es @ sent_on fd es'"
  by (induction fd es rule: sent_on.induct) auto

lemma trace_event_simps [simp]:
  "k_trace (trace_event e k) = k_trace k @ [e]" "k_fds (trace_event e k) = k_fds k"
  "k_files (trace_event e k) = k_files k" "k_new_fds (trace_event e k) = k_new_fds k"
  "k_results (trace_event e k) = k_results k"
  by (simp_all add: trace_event_def)

lemma sys_close_simps [simp]:
  "k_trace (sys_close fd k) = k_trace k @ [Closed fd]" "k_fds (sys_close fd k) = (k_fds k)(fd := None)"
  "k_files (sys_close fd k) = k_files k" "k_new_fds (sys_close fd k) = k_new_fds k"
  "k_results (sys_close fd k) = k_results k"
  by (simp_all add: sys_close_def)

end
