(* ===== verification/Event_Loop.thy ===== *)
theory Event_Loop
  imports Kernel_Model
begin

text \<open>
  \<^verbatim>\<open>core/yta_event_loop.c\<close>: the connection context, the asynchronous operations a client
  arms on it, and the loops that carry them out when \<^verbatim>\<open>epoll\<close> reports a socket.  The code
  of the client (its callbacks and its memory) is a record of functions the loops are given.
\<close>

type_synonym size_t = "64 word"

section \<open>Types of yta_event_loop.h\<close>

text \<open>
  A pointer into the client's memory: an object the client owns and an offset in it.
\<close>

datatype 'b ptr = Null | At 'b nat

primrec ptr_add :: "'b ptr \<Rightarrow> nat \<Rightarrow> 'b ptr" where
  "ptr_add Null n = Null"
| "ptr_add (At ob i) n = At ob (i + n)"

datatype callback_status = YTA_OK | YTA_EXIT

datatype write_type = BASIC_WTYPE | SENDFILE_WTYPE

text \<open>\<^verbatim>\<open>union yta_write_data\<close>: the member that was stored last.\<close>

datatype 'b write_data = Basic_data "'b ptr" | Sendfile_data int

text \<open>
  \<^verbatim>\<open>struct yta_ctx\<close> for user data \<open>'u\<close>, objects \<open>'b\<close>, input/output callbacks \<open>'c\<close> and plain
  callbacks \<open>'d\<close>; \<open>None\<close> is the null pointer.  Of the reactor a context points to, only the epoll set of
  the timers is used, which never changes: \<open>ctx_timer_epoll\<close>.
\<close>

record ('u, 'b, 'c, 'd) yta_ctx =
  ctx_user_data :: "'u option"
  ctx_timer_epoll :: int
  ctx_fd :: int
  read_callback :: "'c option"
  read_buf :: "'b ptr"
  already_read :: size_t
  to_read :: size_t
  write_callback :: "'c option"
  wtype :: write_type
  wdata :: "'b write_data"
  already_written :: size_t
  to_write :: size_t
  close_callback :: "'d option"
  timer_fd :: int
  timer_callback :: "'d option"

text \<open>A context from \<^verbatim>\<open>calloc\<close>, with its descriptor and its reactor set.\<close>

definition new_ctx :: "int \<Rightarrow> int \<Rightarrow> ('u, 'b, 'c, 'd) yta_ctx" where
  "new_ctx timer_epoll fd =
     \<lparr>ctx_user_data = None, ctx_timer_epoll = timer_epoll, ctx_fd = fd, read_callback = None,
      read_buf = Null, already_read = 0, to_read = 0, write_callback = None, wtype = BASIC_WTYPE,
      wdata = Basic_data Null, already_written = 0, to_write = 0, close_callback = None,
      timer_fd = 0, timer_callback = None\<rparr>"

text \<open>
  What the loops use of the client: stores and loads in its memory (by \<^verbatim>\<open>read\<close> and
  \<^verbatim>\<open>write\<close>), and its callbacks.
\<close>

record ('u, 'b, 'c, 'd) client =
  cl_store :: "'u \<Rightarrow> 'b ptr \<Rightarrow> char list \<Rightarrow> 'u outcome"
  cl_load :: "'u \<Rightarrow> 'b ptr \<Rightarrow> nat \<Rightarrow> char list outcome"
  cl_io :: "'c \<Rightarrow> ('u, 'b, 'c, 'd) yta_ctx \<Rightarrow> 'b ptr \<Rightarrow> nat \<Rightarrow> kernel \<Rightarrow>
     (('u, 'b, 'c, 'd) yta_ctx \<times> callback_status \<times> kernel) outcome"
  cl_plain :: "'d \<Rightarrow> ('u, 'b, 'c, 'd) yta_ctx \<Rightarrow> kernel \<Rightarrow>
     (('u, 'b, 'c, 'd) yta_ctx \<times> callback_status \<times> kernel) outcome"

definition the_user :: "('u, 'b, 'c, 'd) yta_ctx \<Rightarrow> 'u outcome" where
  "the_user ctx = (case ctx_user_data ctx of None \<Rightarrow> Crash NullPointer | Some u \<Rightarrow> Ret u)"

section \<open>Arming an operation\<close>

definition yta_async_read :: "'c \<Rightarrow> 'b ptr \<Rightarrow> size_t \<Rightarrow> ('u, 'b, 'c, 'd) yta_ctx \<Rightarrow> ('u, 'b, 'c, 'd) yta_ctx" where
  "yta_async_read callback buf n ctx =
     ctx\<lparr>read_callback := Some callback, read_buf := buf, already_read := 0, to_read := n\<rparr>"

definition yta_async_write :: "'c \<Rightarrow> 'b ptr \<Rightarrow> size_t \<Rightarrow> ('u, 'b, 'c, 'd) yta_ctx \<Rightarrow> ('u, 'b, 'c, 'd) yta_ctx" where
  "yta_async_write callback buf n ctx =
     ctx\<lparr>wtype := BASIC_WTYPE, write_callback := Some callback, wdata := Basic_data buf,
         to_write := n, already_written := 0\<rparr>"

definition yta_async_sendfile :: "'c \<Rightarrow> int \<Rightarrow> size_t \<Rightarrow> size_t \<Rightarrow> ('u, 'b, 'c, 'd) yta_ctx \<Rightarrow> ('u, 'b, 'c, 'd) yta_ctx" where
  "yta_async_sendfile callback fd n offs ctx =
     ctx\<lparr>wtype := SENDFILE_WTYPE, write_callback := Some callback, wdata := Sendfile_data fd,
         to_write := n + offs, already_written := offs\<rparr>"

text \<open>
  \<^verbatim>\<open>yta_async_timer\<close>.  A failing \<^verbatim>\<open>timerfd_create\<close> is only reported, but adding \<open>-1\<close> to the
  epoll set then fails, and the process exits; a failing \<^verbatim>\<open>timerfd_settime\<close> is only reported.
\<close>

definition yta_async_timer :: "'d \<Rightarrow> int \<Rightarrow> int \<Rightarrow> ('u, 'b, 'c, 'd) yta_ctx \<Rightarrow> kernel \<Rightarrow>
    (('u, 'b, 'c, 'd) yta_ctx \<times> kernel) outcome" where
  "yta_async_timer callback secs nsecs ctx k =
     (let ctx = ctx\<lparr>timer_callback := Some callback\<rparr> in
      obind (if timer_fd ctx = 0 then
               (case new_fd k of (fd, k) \<Rightarrow>
                  if fd = -1 then Crash (ProcessExit 1)
                  else
                    obind (call_or_exit (Epoll_added (ctx_timer_epoll ctx) fd [EPOLLIN, EPOLLET]) k) (\<lambda>k.
                    Ret (ctx\<lparr>timer_fd := fd\<rparr>, k)))
             else Ret (ctx, k)) (\<lambda>(ctx, k).
      case next_result k of (ok, k) \<Rightarrow>
      Ret (ctx, if ok then trace_event (Timer_set (timer_fd ctx) secs nsecs) k else k)))"

definition yta_set_close_callback :: "'d \<Rightarrow> ('u, 'b, 'c, 'd) yta_ctx \<Rightarrow> ('u, 'b, 'c, 'd) yta_ctx" where
  "yta_set_close_callback callback ctx = ctx\<lparr>close_callback := Some callback\<rparr>"

section \<open>Reading\<close>

datatype loop_status = YTA_LOOP_CONTINUE | YTA_LOOP_AGAIN | YTA_LOOP_ERROR

text \<open>
  The answer to a \<^verbatim>\<open>read\<close>: the bytes that have arrived (of which at most as many as asked for
  are delivered, none at the end of the stream), or \<open>-1\<close> with \<^verbatim>\<open>EAGAIN\<close> or another error.
  No answer left means \<^verbatim>\<open>EAGAIN\<close>.
\<close>

datatype read_answer = Data "char list" | Read_again | Read_error

fun read_loop :: "('u, 'b, 'c, 'd) client \<Rightarrow> read_answer list \<Rightarrow> ('u, 'b, 'c, 'd) yta_ctx \<Rightarrow> kernel \<Rightarrow>
    (('u, 'b, 'c, 'd) yta_ctx \<times> loop_status \<times> kernel) outcome" where
  "read_loop cl [] ctx k = Ret (ctx, YTA_LOOP_CONTINUE, k)"
| "read_loop cl (a # as) ctx k =
     (case read_callback ctx of
        None \<Rightarrow> Ret (ctx, YTA_LOOP_CONTINUE, k)
      | Some callback \<Rightarrow>
          (case a of
             Read_again \<Rightarrow> Ret (ctx, YTA_LOOP_CONTINUE, k)
           | Read_error \<Rightarrow> Ret (ctx, YTA_LOOP_ERROR, k)
           | Data bs \<Rightarrow>
               (let bs = take (unat (to_read ctx)) bs; count = length bs in
                if count = 0 then Ret (ctx, YTA_LOOP_ERROR, k)
                else
                  obind (the_user ctx) (\<lambda>u.
                  obind (cl_store cl u (read_buf ctx) bs) (\<lambda>u.
                  obind (cl_io cl callback (ctx\<lparr>ctx_user_data := Some u, read_callback := None\<rparr>)
                           (read_buf ctx) count k) (\<lambda>(ctx, st, k).
                  if st \<noteq> YTA_OK then Ret (ctx, YTA_LOOP_ERROR, k)
                  else read_loop cl as ctx k))))))"

section \<open>Writing\<close>

text \<open>
  The answer to a \<^verbatim>\<open>write\<close> or \<^verbatim>\<open>sendfile\<close>: how many bytes the socket has room for, or
  \<open>-1\<close> with \<^verbatim>\<open>EAGAIN\<close> or another error.  No answer left means \<^verbatim>\<open>EAGAIN\<close>.
\<close>

datatype write_answer = Room nat | Write_again | Write_error

text \<open>The common end of both handlers: the write callback runs when everything is written.\<close>

definition write_done :: "('u, 'b, 'c, 'd) client \<Rightarrow> 'b ptr \<Rightarrow> nat \<Rightarrow> ('u, 'b, 'c, 'd) yta_ctx \<Rightarrow> kernel \<Rightarrow>
    (('u, 'b, 'c, 'd) yta_ctx \<times> loop_status \<times> kernel) outcome" where
  "write_done cl buf count ctx k =
     (let ctx = ctx\<lparr>already_written := already_written ctx + of_nat count\<rparr> in
      if already_written ctx = to_write ctx then
        (case write_callback ctx of
           None \<Rightarrow> Crash NullPointer
         | Some callback \<Rightarrow>
             obind (cl_io cl callback (ctx\<lparr>write_callback := None\<rparr>) buf (unat (already_written ctx)) k)
               (\<lambda>(ctx, st, k). Ret (ctx, if st \<noteq> YTA_OK then YTA_LOOP_ERROR else YTA_LOOP_CONTINUE, k)))
      else Ret (ctx, YTA_LOOP_CONTINUE, k))"

definition write_handle_basic :: "('u, 'b, 'c, 'd) client \<Rightarrow> write_answer \<Rightarrow> ('u, 'b, 'c, 'd) yta_ctx \<Rightarrow> kernel \<Rightarrow>
    (('u, 'b, 'c, 'd) yta_ctx \<times> loop_status \<times> kernel) outcome" where
  "write_handle_basic cl a ctx k =
     (case wdata ctx of
        Sendfile_data _ \<Rightarrow> Crash NullPointer
      | Basic_data buf \<Rightarrow>
          (case a of
             Write_error \<Rightarrow> Ret (ctx, YTA_LOOP_ERROR, k)
           | Write_again \<Rightarrow> Ret (ctx, YTA_LOOP_AGAIN, k)
           | Room room \<Rightarrow>
               (let count = min room (unat (to_write ctx - already_written ctx)) in
                if count = 0 then Crash AssertFailed
                else
                  obind (the_user ctx) (\<lambda>u.
                  obind (cl_load cl u (ptr_add buf (unat (already_written ctx))) count) (\<lambda>bs.
                  write_done cl buf count ctx (trace_event (Sent (ctx_fd ctx) bs) k))))))"

text \<open>
  \<^verbatim>\<open>sendfile\<close> moves no more than the file has behind the offset, and nothing when the offset
  is not inside it; on a descriptor that is not open it fails.
\<close>

definition write_handle_sendfile :: "('u, 'b, 'c, 'd) client \<Rightarrow> write_answer \<Rightarrow> ('u, 'b, 'c, 'd) yta_ctx \<Rightarrow> kernel \<Rightarrow>
    (('u, 'b, 'c, 'd) yta_ctx \<times> loop_status \<times> kernel) outcome" where
  "write_handle_sendfile cl a ctx k =
     (case wdata ctx of
        Basic_data _ \<Rightarrow> Crash NullPointer
      | Sendfile_data file_fd \<Rightarrow>
          (case (a, k_fds k file_fd) of
             (Write_error, _) \<Rightarrow> Ret (ctx, YTA_LOOP_ERROR, k)
           | (Write_again, _) \<Rightarrow> Ret (ctx, YTA_LOOP_AGAIN, k)
           | (Room room, None) \<Rightarrow> Ret (ctx, YTA_LOOP_ERROR, k)
           | (Room room, Some f) \<Rightarrow>
               (let bs = take (min room (unat (to_write ctx - already_written ctx)))
                           (drop (unat (already_written ctx)) (f_content f));
                    count = length bs in
                if count = 0 then Crash AssertFailed
                else write_done cl Null count ctx (trace_event (Sent (ctx_fd ctx) bs) k))))"

fun write_loop :: "('u, 'b, 'c, 'd) client \<Rightarrow> write_answer list \<Rightarrow> ('u, 'b, 'c, 'd) yta_ctx \<Rightarrow> kernel \<Rightarrow>
    (('u, 'b, 'c, 'd) yta_ctx \<times> loop_status \<times> kernel) outcome" where
  "write_loop cl [] ctx k =
     Ret (ctx, if write_callback ctx = None then YTA_LOOP_CONTINUE else YTA_LOOP_AGAIN, k)"
| "write_loop cl (a # as) ctx k =
     (if write_callback ctx = None then Ret (ctx, YTA_LOOP_CONTINUE, k)
      else
        obind (if wtype ctx = BASIC_WTYPE then write_handle_basic cl a ctx k
               else write_handle_sendfile cl a ctx k) (\<lambda>(ctx, st, k).
        if st = YTA_LOOP_CONTINUE then write_loop cl as ctx k else Ret (ctx, st, k)))"

end
