(* ===== verification/Yotta_Server.thy ===== *)
theory Yotta_Server
  imports Pico_Parse Http_Path Http_Response Event_Loop
begin

text \<open>
  The file server of \<^verbatim>\<open>yotta.cpp\<close>, a client of the event loop: the state of a connection,
  the choice of the response, and the callbacks.  Its memory is the two arrays of
  \<^verbatim>\<open>user_data\<close>; a pointer into the request is an offset in \<^verbatim>\<open>buf\<close>.
\<close>

section \<open>State\<close>

definition MAX_URL_SIXE :: nat where "MAX_URL_SIXE = 1024"
definition MAX_HEADERS :: nat where "MAX_HEADERS = 30"
definition MAX_BUFFER_SIZE :: nat where "MAX_BUFFER_SIZE = 2048"

datatype object = Buf | Response_buf

datatype io_callback = Read_callback_http | Write_header_callback | Http_finish_callback

datatype plain_callback = Http_cleanup | Timer_callback | Accept_callback_http

text \<open>What the server uses of \<^verbatim>\<open>struct stat\<close>.\<close>

record stat =
  st_regular :: bool
  st_mtime :: int
  st_size :: int

text \<open>\<^verbatim>\<open>parser_data\<close> is the record of output parameters of the parser.\<close>

record user_data =
  counter :: size_t
  buf :: "char list"
  response_buf :: "char list"
  finalized :: bool
  response_size :: size_t
  content :: bool
  extension :: "char list"
  file_fd :: int
  file_size :: size_t
  offset :: size_t
  parser :: request_out
  file_stat :: stat

type_synonym yotta_ctx = "(user_data, object, io_callback, plain_callback) yta_ctx"

section \<open>The client's memory\<close>

definition store_at :: "char list \<Rightarrow> nat \<Rightarrow> char list \<Rightarrow> char list outcome" where
  "store_at a i bs =
     (if i + length bs \<le> length a then Ret (take i a @ bs @ drop (i + length bs) a)
      else Crash OutOfBounds)"

definition load_at :: "char list \<Rightarrow> nat \<Rightarrow> nat \<Rightarrow> char list outcome" where
  "load_at a i n = (if i + n \<le> length a then Ret (take n (drop i a)) else Crash OutOfBounds)"

primrec yotta_store :: "user_data \<Rightarrow> object ptr \<Rightarrow> char list \<Rightarrow> user_data outcome" where
  "yotta_store u Null bs = Crash NullPointer"
| "yotta_store u (At ob i) bs =
     (case ob of
        Buf \<Rightarrow> obind (store_at (buf u) i bs) (\<lambda>a. Ret (u\<lparr>buf := a\<rparr>))
      | Response_buf \<Rightarrow> obind (store_at (response_buf u) i bs) (\<lambda>a. Ret (u\<lparr>response_buf := a\<rparr>)))"

primrec yotta_load :: "user_data \<Rightarrow> object ptr \<Rightarrow> nat \<Rightarrow> char list outcome" where
  "yotta_load u Null n = Crash NullPointer"
| "yotta_load u (At ob i) n = load_at (case ob of Buf \<Rightarrow> buf u | Response_buf \<Rightarrow> response_buf u) i n"

section \<open>Error responses\<close>

text \<open>The response buffer and the flags after a response of the given text builder.\<close>

definition respond :: "bool \<Rightarrow> (char list \<times> nat \<Rightarrow> (char list \<times> nat) outcome) \<Rightarrow> user_data \<Rightarrow> user_data outcome" where
  "respond has_content serve u =
     obind (serve (response_buf u, 0)) (\<lambda>(a, w).
     Ret (u\<lparr>response_buf := a, response_size := of_nat w, content := has_content, finalized := True\<rparr>))"

definition return_400 :: "user_data \<Rightarrow> user_data outcome" where
  "return_400 = respond False serve_400"

definition return_404 :: "user_data \<Rightarrow> user_data outcome" where
  "return_404 = respond False serve_404"

section \<open>The URL\<close>

definition mime_types :: "(char list \<times> char list) list" where
  "mime_types =
    [(''.html'', ''text/html''), (''.css'', ''text/css''), (''.png'', ''image/png''),
     (''.jpg'', ''image/jpeg''), (''.jpeg'', ''image/jpeg''), (''.svg'', ''image/svg+xml''),
     (''.gif'', ''image/gif''), (''.ico'', ''image/x-icon''), (''.txt'', ''text/plain''),
     (''.doc'', ''application/msword''),
     (''.docx'', ''application/vnd.openxmlformats-officedocument.wordprocessingml.document''),
     (''.csv'', ''text/csv''), (''.js'', ''application/x-javascript''),
     (''.json'', ''application/json''), (''.pdf'', ''application/pdf''),
     (''.zip'', ''application/zip''), (''.gz'', ''application/gzip''),
     (''.woff'', ''application/font-woff''), (''.woff2'', ''application/font-woff2''),
     (''.opus'', ''audio/opus''), (''.mp4'', ''video/mp4''), (''.mpeg'', ''video/mpeg''),
     (''.mpg'', ''video/mpeg''), (''.mp3'', ''audio/mpeg'')]"

text \<open>\<^verbatim>\<open>string_view::rfind\<close>, with \<^verbatim>\<open>npos\<close> when the character does not occur.\<close>

definition npos :: nat where "npos = 2 ^ 64 - 1"

definition rfind :: "char \<Rightarrow> char list \<Rightarrow> nat" where
  "rfind c s = (if c \<in> set s then length s - 1 - length (takeWhile (\<lambda>x. x \<noteq> c) (rev s)) else npos)"

definition content_type :: "char list \<Rightarrow> char list" where
  "content_type path_view =
     (let filetype_begin = rfind (CHR ''.'') path_view; file_begin = rfind (CHR ''/'') path_view in
      if file_begin < filetype_begin then
        (case map_of mime_types (drop filetype_begin path_view) of
           Some t \<Rightarrow> t
         | None \<Rightarrow> ''text/plain'')
      else ''text/plain'')"

text \<open>
  The array \<^verbatim>\<open>normalized_path\<close> and \<^verbatim>\<open>new_length\<close>, for a path without query of at least one
  character.
\<close>

definition normalize_url :: "char list \<Rightarrow> (char list \<times> nat) outcome" where
  "normalize_url path =
     (let np = (replicate MAX_URL_SIXE NUL)[0 := CHR ''.''] in
      obind (clean_path path (drop 1 np)) (\<lambda>(np', w).
      let np = take 1 np @ np'; new_length = 1 + w in
      obind (rd path (length path - 1)) (\<lambda>c.
      obind (if c = CHR ''/'' \<and> new_length \<noteq> 2 then put (CHR ''/'') (np, new_length)
             else Ret (np, new_length)) (\<lambda>(np, new_length).
      obind (rd np (new_length - 1)) (\<lambda>c.
      if c = CHR ''/'' then
        obind (copy_out (''index.html'' @ [NUL]) (np, new_length)) (\<lambda>(np, _). Ret (np, new_length + 10))
      else Ret (np, new_length))))))"

definition parse_url :: "char list \<Rightarrow> user_data \<Rightarrow> kernel \<Rightarrow> (user_data \<times> kernel) outcome" where
  "parse_url path u k =
     (let path = takeWhile (\<lambda>c. c \<noteq> CHR ''?'') path in
      if MAX_URL_SIXE - 20 < length path \<or> length path = 0 then
        obind (return_404 u) (\<lambda>u. Ret (u, k))
      else
        obind (normalize_url path) (\<lambda>(np, new_length).
        case sys_open (takeWhile (\<lambda>c. c \<noteq> NUL) np) k of (ffd, k) \<Rightarrow>
        if ffd = -1 then obind (return_404 u) (\<lambda>u. Ret (u, k))
        else
          (case k_fds k ffd of
             None \<Rightarrow> obind (return_404 u) (\<lambda>u. Ret (u, sys_close ffd k))
           | Some f \<Rightarrow>
               if \<not> f_regular f then obind (return_404 u) (\<lambda>u. Ret (u, sys_close ffd k))
               else
                 (let st = \<lparr>st_regular = f_regular f, st_mtime = f_mtime f,
                            st_size = int (length (f_content f))\<rparr> in
                  Ret (u\<lparr>extension := content_type (take new_length np), file_fd := ffd,
                         file_size := of_int (st_size st), file_stat := st\<rparr>, k)))))"

section \<open>Request headers\<close>

text \<open>
  The handlers return whether the response is decided.  \<^verbatim>\<open>strptime\<close> is given the start of the
  value and no length, so it works on everything behind it in \<^verbatim>\<open>buf\<close>.
\<close>

definition handle_if_modified_since :: "nat \<Rightarrow> user_data \<Rightarrow> (bool \<times> user_data) outcome" where
  "handle_if_modified_since value u =
     obind (strptime (drop value (buf u))) (\<lambda>stamp.
     case stamp of
       None \<Rightarrow> obind (respond False serve_400 u) (\<lambda>u. Ret (True, u))
     | Some stamp \<Rightarrow>
         if st_mtime (file_stat u) \<le> timegm stamp then
           obind (respond False serve_304 u) (\<lambda>u. Ret (True, u))
         else Ret (False, u))"

definition handle_range :: "char list \<Rightarrow> user_data \<Rightarrow> (bool \<times> user_data) outcome" where
  "handle_range value u =
     (let fail = obind (return_400 u) (\<lambda>u. Ret (True, u)); size = st_size (file_stat u) in
      if length value < 8 then fail
      else if take 6 value \<noteq> ''bytes='' then fail
      else
        (let before = takeWhile (\<lambda>c. c \<noteq> CHR ''-'') (drop 6 value);
             sep = dropWhile (\<lambda>c. c \<noteq> CHR ''-'') (drop 6 value)
         in if sep = [] then fail
            else if before = [] then fail
            else
              obind (stoi before) (\<lambda>start_value.
              obind (if tl sep = [] then Ret (to_int (size - 1)) else stoi (tl sep)) (\<lambda>end_value.
              let end_value = (if end_value \<le> start_value then to_int (size - 1) else end_value);
                  start_value = (if start_value < 0 then 0 else start_value);
                  end_value = (if size \<le> end_value then to_int (size - 1) else end_value)
              in obind (int_op (end_value - start_value)) (\<lambda>d.
                 obind (int_op (d + 1)) (\<lambda>d.
                 let u = u\<lparr>file_size := of_int d, offset := of_int start_value\<rparr> in
                 obind (respond True
                   (serve_206 (unat (file_size u)) (st_mtime (file_stat u)) (unat (of_int start_value :: size_t))
                      (unat (of_int end_value :: size_t)) (unat (of_int size :: size_t))) u) (\<lambda>u.
                 Ret (True, u))))))))"

datatype header_handler = Handle_if_modified_since | Handle_range

definition header_callbacks :: "(char list \<times> header_handler) list" where
  "header_callbacks =
     [(''If-Modified-Since'', Handle_if_modified_since), (''Range'', Handle_range)]"

definition call_header_handler :: "header_handler \<Rightarrow> phr_header \<Rightarrow> user_data \<Rightarrow> (bool \<times> user_data) outcome" where
  "call_header_handler handler h u =
     (case handler of
        Handle_if_modified_since \<Rightarrow> handle_if_modified_since (hvalue h) u
      | Handle_range \<Rightarrow> handle_range (take (hvalue_len h) (drop (hvalue h) (buf u))) u)"

definition header_text :: "user_data \<Rightarrow> phr_header \<Rightarrow> char list" where
  "header_text u h = (case hname h of None \<Rightarrow> [] | Some p \<Rightarrow> take (hname_len h) (drop p (buf u)))"

fun header_loop :: "phr_header list \<Rightarrow> user_data \<Rightarrow> (bool \<times> user_data) outcome" where
  "header_loop [] u = Ret (False, u)"
| "header_loop (h # hs) u =
     (if finalized u then Ret (False, u)
      else
        (case map_of header_callbacks (header_text u h) of
           None \<Rightarrow> header_loop hs u
         | Some handler \<Rightarrow>
             obind (call_header_handler handler h u) (\<lambda>(done, u).
             if done then Ret (True, u) else header_loop hs u)))"

definition http_parse_headers :: "user_data \<Rightarrow> user_data outcome" where
  "http_parse_headers u =
     obind (header_loop (take (num_headers (parser u)) (headers (parser u))) u) (\<lambda>(done, u).
     if done \<or> finalized u then Ret u
     else respond True (serve_200 (unat (file_size u)) (st_mtime (file_stat u)) (extension u)) u)"

section \<open>Callbacks\<close>

definition accept_logic :: "user_data \<Rightarrow> yotta_ctx \<Rightarrow> yotta_ctx" where
  "accept_logic u ctx =
     (let u = u\<lparr>parser := fresh_request MAX_HEADERS, counter := 0, finalized := False, file_fd := 0\<rparr> in
      yta_async_read Read_callback_http (At Buf 0) (of_nat MAX_BUFFER_SIZE)
        (ctx\<lparr>ctx_user_data := Some u\<rparr>))"

text \<open>\<^verbatim>\<open>setsockopt(fd, IPPROTO_TCP, TCP_CORK, ...)\<close>; the process exits when it fails.\<close>

definition set_cork :: "int \<Rightarrow> bool \<Rightarrow> kernel \<Rightarrow> kernel outcome" where
  "set_cork fd b k = call_or_exit (Corked fd b) k"

definition close_file :: "user_data \<Rightarrow> kernel \<Rightarrow> user_data \<times> kernel" where
  "close_file u k =
     (if file_fd u \<noteq> 0 then (u\<lparr>file_fd := 0\<rparr>, sys_close (file_fd u) k) else (u, k))"

definition http_finish_callback :: "yotta_ctx \<Rightarrow> kernel \<Rightarrow> (yotta_ctx \<times> callback_status \<times> kernel) outcome" where
  "http_finish_callback ctx k =
     obind (the_user ctx) (\<lambda>u.
     case close_file u k of (u, k) \<Rightarrow>
     obind (set_cork (ctx_fd ctx) False k) (\<lambda>k.
     Ret (accept_logic u ctx, YTA_OK, k)))"

definition write_header_callback :: "yotta_ctx \<Rightarrow> kernel \<Rightarrow> (yotta_ctx \<times> callback_status \<times> kernel) outcome" where
  "write_header_callback ctx k =
     obind (the_user ctx) (\<lambda>u.
     if content u then
       Ret (yta_async_sendfile Http_finish_callback (file_fd u) (file_size u) (offset u) ctx, YTA_OK, k)
     else http_finish_callback ctx k)"

text \<open>
  \<^verbatim>\<open>read_callback_http\<close> in three parts: the call of the parser, the response if the request is
  malformed or complete, and the operation that is armed next.
\<close>

definition decide :: "int \<Rightarrow> user_data \<Rightarrow> kernel \<Rightarrow> (user_data \<times> kernel) outcome" where
  "decide parsed u k =
     (if parsed = -1 then obind (return_400 u) (\<lambda>u. Ret (u, k))
      else if parsed > 0 then
        (case rq_path (parser u) of
           None \<Rightarrow> Crash NullPointer
         | Some path \<Rightarrow>
             obind (parse_url (take (rq_path_len (parser u)) (drop path (buf u))) u k) (\<lambda>(u, k).
             obind (http_parse_headers u) (\<lambda>u. Ret (u, k))))
      else Ret (u, k))"

definition arm_next :: "yotta_ctx \<Rightarrow> object ptr \<Rightarrow> nat \<Rightarrow> user_data \<Rightarrow> kernel \<Rightarrow>
    (yotta_ctx \<times> callback_status \<times> kernel) outcome" where
  "arm_next ctx p n u k =
     (let ctx = ctx\<lparr>ctx_user_data := Some u\<rparr> in
      if finalized u then
        obind (set_cork (ctx_fd ctx) True k) (\<lambda>k.
        Ret (yta_async_write Write_header_callback (At Response_buf 0) (response_size u) ctx, YTA_OK, k))
      else if unat (counter u) = MAX_BUFFER_SIZE then http_finish_callback ctx k
      else
        Ret (yta_async_read Read_callback_http (ptr_add p n) (of_nat MAX_BUFFER_SIZE - counter u) ctx,
             YTA_OK, k))"

definition read_callback_http :: "yotta_ctx \<Rightarrow> object ptr \<Rightarrow> nat \<Rightarrow> kernel \<Rightarrow>
    (yotta_ctx \<times> callback_status \<times> kernel) outcome" where
  "read_callback_http ctx p n k =
     obind (the_user ctx) (\<lambda>u.
     let prev_count = counter u; u = u\<lparr>counter := counter u + of_nat n\<rparr>;
         res = phr_parse_request False (take (unat (counter u)) (buf u)) (unat prev_count) (parser u);
         u = u\<lparr>parser := fst res\<rparr>
     in obind (snd res) (\<lambda>parsed. obind (decide parsed u k) (\<lambda>(u, k). arm_next ctx p n u k)))"

definition http_cleanup :: "yotta_ctx \<Rightarrow> kernel \<Rightarrow> (yotta_ctx \<times> callback_status \<times> kernel) outcome" where
  "http_cleanup ctx k =
     obind (the_user ctx) (\<lambda>u.
     case close_file u k of (u, k) \<Rightarrow> Ret (ctx\<lparr>ctx_user_data := None\<rparr>, YTA_EXIT, k))"

text \<open>
  \<^verbatim>\<open>new user_data\<close> leaves most members with the contents \<open>junk\<close> of the fresh memory; those with
  an initializer get it.  The arrays have their size, whatever is in them.
\<close>

definition sized :: "nat \<Rightarrow> char list \<Rightarrow> char list" where
  "sized n s = take n (s @ replicate n NUL)"

definition new_user_data :: "user_data \<Rightarrow> user_data" where
  "new_user_data junk =
     junk\<lparr>buf := sized MAX_BUFFER_SIZE (buf junk), response_buf := sized MAX_BUFFER_SIZE (response_buf junk),
          offset := 0, extension := [], parser := fresh_request MAX_HEADERS\<rparr>"

definition accept_callback_http :: "user_data \<Rightarrow> yotta_ctx \<Rightarrow> kernel \<Rightarrow>
    (yotta_ctx \<times> callback_status \<times> kernel) outcome" where
  "accept_callback_http junk ctx k =
     (let u = new_user_data junk;
          ctx = yta_set_close_callback Http_cleanup (ctx\<lparr>ctx_user_data := Some u\<rparr>)
      in obind (yta_async_timer Timer_callback 300 0 ctx k) (\<lambda>(ctx, k).
         Ret (accept_logic u ctx, YTA_OK, k)))"

text \<open>The callbacks as the event loop calls them.\<close>

definition yotta_io :: "io_callback \<Rightarrow> yotta_ctx \<Rightarrow> object ptr \<Rightarrow> nat \<Rightarrow> kernel \<Rightarrow>
    (yotta_ctx \<times> callback_status \<times> kernel) outcome" where
  "yotta_io c ctx p n k =
     (case c of
        Read_callback_http \<Rightarrow> read_callback_http ctx p n k
      | Write_header_callback \<Rightarrow> write_header_callback ctx k
      | Http_finish_callback \<Rightarrow> http_finish_callback ctx k)"

definition yotta_plain :: "user_data \<Rightarrow> plain_callback \<Rightarrow> yotta_ctx \<Rightarrow> kernel \<Rightarrow>
    (yotta_ctx \<times> callback_status \<times> kernel) outcome" where
  "yotta_plain junk d ctx k =
     (case d of
        Http_cleanup \<Rightarrow> http_cleanup ctx k
      | Timer_callback \<Rightarrow> Ret (ctx, YTA_EXIT, k)
      | Accept_callback_http \<Rightarrow> accept_callback_http junk ctx k)"

definition yotta :: "user_data \<Rightarrow> (user_data, object, io_callback, plain_callback) client" where
  "yotta junk =
     \<lparr>cl_store = yotta_store, cl_load = yotta_load, cl_io = yotta_io, cl_plain = yotta_plain junk\<rparr>"

end
