(* ===== verification/Http_Path_Correct.thy ===== *)
theory Http_Path_Correct
  imports Http_Path
begin

text \<open>
  What \<^verbatim>\<open>clean_path\<close> computes: the specification works on the list of path elements (split at
  the slashes, fold one element after the other into the elements kept so far, join again), and the
  pointer loops of the code are proved to refine it, without leaving the output array.  From the
  specification follow the properties the file server relies on: no dot-dot survives in a rooted
  path, the result is in normal form, and cleaning twice is cleaning once.
\<close>

section \<open>The specification\<close>

fun split_slash :: "char list \<Rightarrow> char list list" where
  "split_slash [] = [[]]"
| "split_slash (c # s) =
     (if c = CHR ''/'' then [] # split_slash s
      else (case split_slash s of [] \<Rightarrow> [[c]] | x # xs \<Rightarrow> (c # x) # xs))"

fun join_slash :: "char list list \<Rightarrow> char list" where
  "join_slash [] = []"
| "join_slash [x] = x"
| "join_slash (x # xs) = x @ CHR ''/'' # join_slash xs"

text \<open>One path element, applied to the elements kept so far.\<close>

definition norm_step :: "bool \<Rightarrow> char list list \<Rightarrow> char list \<Rightarrow> char list list" where
  "norm_step rooted st c =
     (if c = [] \<or> c = ''.'' then st
      else if c = ''..'' then
        (if st \<noteq> [] \<and> last st \<noteq> ''..'' then butlast st
         else if rooted then st else st @ [''..''])
      else st @ [c])"

definition render :: "bool \<Rightarrow> char list list \<Rightarrow> char list" where
  "render rooted st = (if rooted then CHR ''/'' # join_slash st else join_slash st)"

definition clean_spec :: "char list \<Rightarrow> char list" where
  "clean_spec path =
     (let rooted = (path \<noteq> [] \<and> hd path = CHR ''/'');
          out = render rooted (foldl (norm_step rooted) [] (split_slash path))
      in if out = [] then ''.'' else out)"

section \<open>Lemmas on components\<close>

lemma split_slash_name: "CHR ''/'' \<notin> set xs \<Longrightarrow> split_slash xs = [xs]"
  by (induction xs) auto

lemma split_slash_append:
  "CHR ''/'' \<notin> set xs \<Longrightarrow> split_slash (xs @ CHR ''/'' # t) = xs # split_slash t"
  by (induction xs) auto

text \<open>Where an element has been read up to its end, the rest starts with an empty element.\<close>

lemma fold_split_element:
  assumes "CHR ''/'' \<notin> set xs" "t = [] \<or> hd t = CHR ''/''"
  shows "foldl (norm_step rooted) st (split_slash (xs @ t)) =
    foldl (norm_step rooted) (norm_step rooted st xs) (split_slash t)"
proof (cases t)
  case Nil
  with assms show ?thesis by (simp add: split_slash_name) (simp add: norm_step_def)
next
  case (Cons c t')
  with assms have "c = CHR ''/''" by simp
  with Cons assms show ?thesis by (simp add: split_slash_append) (simp add: norm_step_def)
qed

lemma join_snoc: "join_slash (st @ [c]) = (if st = [] then c else join_slash st @ CHR ''/'' # c)"
  by (induction st rule: join_slash.induct) auto

lemma join_eq_Nil: "(\<And>x. x \<in> set st \<Longrightarrow> x \<noteq> []) \<Longrightarrow> join_slash st = [] \<longleftrightarrow> st = []"
  by (induction st rule: join_slash.induct) auto

lemma render_snoc: "render rooted (st @ [c]) =
   render rooted st @ (if st = [] then c else CHR ''/'' # c)"
  by (simp add: render_def join_snoc)

lemma render_length_mono: "length (render rooted st) \<le> length (render rooted (st @ ns))"
proof (induction ns rule: rev_induct)
  case (snoc x xs)
  then show ?case using render_snoc [of rooted "st @ xs" x] by simp
qed simp

text \<open>A proper element: what is kept of the path apart from leading dot-dots.\<close>

definition proper :: "char list \<Rightarrow> bool" where
  "proper c \<longleftrightarrow> c \<noteq> [] \<and> c \<noteq> ''.'' \<and> c \<noteq> ''..'' \<and> CHR ''/'' \<notin> set c"

definition clean_inv :: "bool \<Rightarrow> char list list \<Rightarrow> nat \<Rightarrow> char list \<Rightarrow> nat \<Rightarrow> bool" where
  "clean_inv rooted st dotdot np w \<longleftrightarrow>
     w \<le> length np \<and> take w np = render rooted st \<and>
     (\<exists>k names. st = replicate k ''..'' @ names \<and> (rooted \<longrightarrow> k = 0) \<and>
        (\<forall>n \<in> set names. proper n) \<and> dotdot = length (render rooted (replicate k ''..'')))"

lemma clean_inv_w: "clean_inv rooted st dotdot np w \<Longrightarrow> w = length (render rooted st)"
proof -
  assume i: "clean_inv rooted st dotdot np w"
  then have "w \<le> length np" "take w np = render rooted st" unfolding clean_inv_def by blast+
  then show ?thesis by (metis length_take min.absorb2)
qed

lemma clean_inv_nonempty:
  assumes "clean_inv rooted st dotdot np w" "x \<in> set st"
  shows "x \<noteq> []"
proof -
  obtain k names where "st = replicate k ''..'' @ names" "\<forall>n \<in> set names. proper n"
    using assms(1) unfolding clean_inv_def by blast
  with assms(2) show ?thesis by (auto simp: proper_def)
qed

section \<open>The steps of the loop\<close>

lemma put_in: "w < length np \<Longrightarrow> put c (np, w) = Ret (np[w := c], Suc w)"
  by (simp add: put_def)

lemma take_Suc_update: "w < length np \<Longrightarrow> take (Suc w) (np[w := c]) = take w np @ [c]"
  by (simp add: take_Suc_conv_app_nth)

lemma back_to_slash_eq:
  assumes "d \<le> m" "m \<le> w" "w < length np" "\<And>i. m < i \<Longrightarrow> i \<le> w \<Longrightarrow> np ! i \<noteq> CHR ''/''"
    and "m = d \<or> np ! m = CHR ''/''"
  shows "back_to_slash np d w = Ret m"
  using assms(2-4)
proof (induction w)
  case 0
  with assms(1,5) show ?case by (subst back_to_slash.simps) auto
next
  case (Suc w)
  show ?case
  proof (cases "m = Suc w")
    case True
    with assms(1,5) Suc.prems show ?thesis by (subst back_to_slash.simps) auto
  next
    case False
    with Suc have "back_to_slash np d w = Ret m" by simp
    with False Suc.prems assms(1) show ?thesis by (subst back_to_slash.simps) simp
  qed
qed

lemma copy_name_eq:
  assumes "drop r path = xs @ t" "CHR ''/'' \<notin> set xs" "t = [] \<or> hd t = CHR ''/''"
    and "w + length xs \<le> length np"
  shows "\<exists>np'. copy_name path r (np, w) = Ret (r + length xs, np', w + length xs) \<and>
    take (w + length xs) np' = take w np @ xs \<and> length np' = length np"
  using assms
proof (induction xs arbitrary: r np w)
  case Nil
  then have "r < length path \<Longrightarrow> path ! r = CHR ''/''"
    by (metis append_Nil drop_eq_Nil hd_drop_conv_nth not_le)
  then show ?case by (subst copy_name.simps) auto
next
  case (Cons x xs)
  then have r: "r < length path" "path ! r = x" "drop (Suc r) path = xs @ t"
    by (auto simp: drop_Suc nth_via_drop intro: ccontr [of "r < length path"])
      (metis append_Cons drop_Suc list.sel(3) tl_drop)+
  from Cons.IH [OF r(3), of "Suc w" "np[w := x]"] Cons.prems obtain np' where
    "copy_name path (Suc r) (np[w := x], Suc w) = Ret (Suc r + length xs, np', Suc w + length xs)"
    "take (Suc w + length xs) np' = take (Suc w) (np[w := x]) @ xs" "length np' = length np"
    by auto
  with r Cons.prems show ?case
    by (subst copy_name.simps) (auto simp: put_in take_Suc_update)
qed

lemma clean_inv_base:
  assumes "clean_inv rooted st dotdot np w"
  shows "w = length (render rooted []) \<longleftrightarrow> st = []"
proof
  assume w: "w = length (render rooted [])"
  show "st = []"
  proof (rule ccontr)
    assume "st \<noteq> []"
    then have "join_slash st \<noteq> []" using clean_inv_nonempty [OF assms] join_eq_Nil [of st] by blast
    with w clean_inv_w [OF assms] show False by (simp add: render_def split: if_splits)
  qed
qed (simp add: clean_inv_w [OF assms])

lemma clean_inv_names:
  assumes "clean_inv rooted st dotdot np w"
  shows "dotdot < w \<longleftrightarrow> st \<noteq> [] \<and> last st \<noteq> ''..''"
proof -
  obtain k names where st: "st = replicate k ''..'' @ names" and p: "\<forall>n \<in> set names. proper n"
    and d: "dotdot = length (render rooted (replicate k ''..''))"
    using assms unfolding clean_inv_def by blast
  show ?thesis
  proof (cases names rule: rev_cases)
    case Nil
    then have "dotdot = w" using st d clean_inv_w [OF assms] by simp
    with Nil st show ?thesis by (cases k) (auto simp: replicate_append_same [symmetric] simp del: replicate_Suc)
  next
    case (snoc ns n)
    then have n: "proper n" using p by simp
    have "length (render rooted (replicate k ''..'')) \<le> length (render rooted (replicate k ''..'' @ ns))"
      by (rule render_length_mono)
    moreover have "length (render rooted (replicate k ''..'' @ ns)) < length (render rooted st)"
      using n render_snoc [of rooted "replicate k ''..'' @ ns" n] by (simp add: st snoc proper_def)
    ultimately have "dotdot < w" using d clean_inv_w [OF assms] by simp
    with n st snoc show ?thesis by (simp add: proper_def)
  qed
qed

lemma clean_inv_pop:
  assumes I: "clean_inv rooted st dotdot np w" and "dotdot < w"
  defines "m \<equiv> length (render rooted (butlast st))"
  shows "back_to_slash np dotdot (w - 1) = Ret m" "m < w" "clean_inv rooted (butlast st) dotdot np m"
proof -
  obtain k names where st: "st = replicate k ''..'' @ names" and k: "rooted \<longrightarrow> k = 0"
    and p: "\<forall>n \<in> set names. proper n" and d: "dotdot = length (render rooted (replicate k ''..''))"
    and w: "w \<le> length np" "take w np = render rooted st"
    using I unfolding clean_inv_def by blast
  have "names \<noteq> []" using assms(2) d clean_inv_w [OF I] st by auto
  then obtain ns n where names: "names = ns @ [n]" by (metis append_butlast_last_id)
  have b: "butlast st = replicate k ''..'' @ ns" using st names by (simp add: butlast_append)
  have n: "n \<noteq> []" "CHR ''/'' \<notin> set n" using p names by (auto simp: proper_def)
  have r: "render rooted st = render rooted (butlast st) @ (if butlast st = [] then n else CHR ''/'' # n)"
    using st names b by (metis append_assoc render_snoc)
  have mw: "m < w" using r n clean_inv_w [OF I] by (simp add: m_def)
  have at: "np ! i = render rooted st ! i" if "i < w" for i
    using w that by (metis nth_take)
  have dm: "dotdot \<le> m"
  proof -
    have "length (render rooted (replicate k ''..'')) \<le> length (render rooted (replicate k ''..'' @ ns))"
      by (rule render_length_mono)
    then show ?thesis by (simp add: d m_def b)
  qed
  show "m < w" by (rule mw)
  show "clean_inv rooted (butlast st) dotdot np m"
  proof -
    have "take m np = take m (take w np)" using mw by simp
    then have "take m np = render rooted (butlast st)" using w r by (simp add: m_def)
    moreover have "m \<le> length np" using mw w by simp
    ultimately show ?thesis using k p d names b unfolding clean_inv_def by auto
  qed
  show "back_to_slash np dotdot (w - 1) = Ret m"
  proof (rule back_to_slash_eq [OF dm])
    show "m \<le> w - 1" "w - 1 < length np" using mw w by auto
    show "np ! i \<noteq> CHR ''/''" if "m < i" "i \<le> w - 1" for i
    proof -
      have "i < w" using that mw by simp
      then have "np ! i = render rooted st ! i" "i < length (render rooted st)"
        using at clean_inv_w [OF I] by auto
      then have "np ! i \<in> set n" using r that(1) clean_inv_w [OF I]
        by (auto simp: nth_append m_def nth_Cons' split: if_splits)
      with n show ?thesis by metis
    qed
    show "m = dotdot \<or> np ! m = CHR ''/''"
    proof (cases "butlast st = []")
      case True
      then show ?thesis using b d by (simp add: m_def)
    next
      case False
      then show ?thesis using r at [OF mw] by (simp add: m_def nth_append)
    qed
  qed
qed

lemma clean_inv_push_name:
  assumes I: "clean_inv rooted st dotdot np w" and n: "proper n"
    and w': "w' = length (render rooted (st @ [n]))" "w' \<le> length np'"
    and "take w' np' = render rooted (st @ [n])"
  shows "clean_inv rooted (st @ [n]) dotdot np' w'"
proof -
  obtain k names where "st = replicate k ''..'' @ names" "rooted \<longrightarrow> k = 0"
    "\<forall>n \<in> set names. proper n" "dotdot = length (render rooted (replicate k ''..''))"
    using I unfolding clean_inv_def by blast
  with n have "st @ [n] = replicate k ''..'' @ (names @ [n])" "\<forall>x \<in> set (names @ [n]). proper x"
    by auto
  with \<open>rooted \<longrightarrow> k = 0\<close> \<open>dotdot = _\<close> assms(4,5) show ?thesis unfolding clean_inv_def by blast
qed

lemma clean_inv_push_dots:
  assumes I: "clean_inv False st dotdot np w" and "\<not> dotdot < w"
    and "w' = length (render False (st @ [''..'']))" "w' \<le> length np'"
    and "take w' np' = render False (st @ [''..''])"
  shows "clean_inv False (st @ [''..'']) w' np' w'"
proof -
  obtain k names where st: "st = replicate k ''..'' @ names" "\<forall>n \<in> set names. proper n"
    "dotdot = length (render False (replicate k ''..''))"
    using I unfolding clean_inv_def by blast
  have "names = []"
  proof (rule ccontr)
    assume "names \<noteq> []"
    then have "st \<noteq> []" "last st \<noteq> ''..''" using st by (auto simp: proper_def)
    with clean_inv_names [OF I] assms(2) show False by blast
  qed
  with st have "st @ [''..''] = replicate (Suc k) ''..'' @ []" by (simp add: replicate_append_same)
  with assms(3-5) show ?thesis unfolding clean_inv_def
    by (metis append_Nil2 empty_iff list.set(1))
qed

text \<open>Writing an element, with a slash in front of it unless it is the first.\<close>

definition room :: "char list \<Rightarrow> nat \<Rightarrow> nat \<Rightarrow> nat \<Rightarrow> bool" where
  "room path r base w \<longleftrightarrow> w \<le> r \<and> (w = r \<longrightarrow> w = base \<or> r = length path \<or> path ! r = CHR ''/'')"

lemma put_sep:
  assumes I: "clean_inv rooted st dotdot np w" and "w < length np"
  shows "\<exists>np1. (if w \<noteq> length (render rooted []) then put CHR ''/'' (np, w) else Ret (np, w)) =
      Ret (np1, w + (if st = [] then 0 else 1)) \<and> length np1 = length np \<and>
      take (w + (if st = [] then 0 else 1)) np1 =
        render rooted st @ (if st = [] then [] else ''/'')"
proof -
  have "take w np = render rooted st" using I unfolding clean_inv_def by blast
  with assms(2) clean_inv_base [OF I] show ?thesis by (auto simp: put_in take_Suc_update)
qed

text \<open>The element that starts at \<open>r\<close>.\<close>

definition element :: "char list \<Rightarrow> nat \<Rightarrow> char list" where
  "element path r = takeWhile (\<lambda>c. c \<noteq> CHR ''/'') (drop r path)"

lemma element_split:
  obtains t where "drop r path = element path r @ t" "CHR ''/'' \<notin> set (element path r)"
    "t = [] \<or> hd t = CHR ''/''" "t = drop (r + length (element path r)) path"
proof
  let ?t = "dropWhile (\<lambda>c. c \<noteq> CHR ''/'') (drop r path)"
  show e: "drop r path = element path r @ ?t" by (simp add: element_def)
  show "CHR ''/'' \<notin> set (element path r)" by (auto simp: element_def dest: set_takeWhileD)
  show "?t = [] \<or> hd ?t = CHR ''/''"
    using hd_dropWhile [of "\<lambda>c. c \<noteq> CHR ''/''" "drop r path"] by blast
  have "drop (r + length (element path r)) path = drop (length (element path r)) (drop r path)"
    by (simp add: add.commute)
  also have "\<dots> = ?t" by (subst e) simp
  finally show "?t = drop (r + length (element path r)) path" by simp
qed

lemma drop_rd:
  "r < length path \<Longrightarrow> rd path r = Ret (hd (drop r path))"
  "r + 1 < length path \<Longrightarrow> rd path (r + 1) = Ret (drop r path ! 1)"
  "r + 2 < length path \<Longrightarrow> rd path (r + 2) = Ret (drop r path ! 2)"
  by (simp_all add: hd_drop_conv_nth)

lemma at_dot_eq:
  assumes "r < length path"
  shows "at_dot path r = Ret (element path r = ''.'')"
proof -
  obtain c t where d: "drop r path = c # t" using assms by (metis Cons_nth_drop_Suc)
  then have c: "path ! r = c" using assms by (metis nth_via_drop)
  show ?thesis
  proof (cases t)
    case Nil
    with d have "length (drop r path) = 1" by simp
    then have "r + 1 = length path" using assms by simp
    with assms c d Nil show ?thesis by (simp add: at_dot_def element_def)
  next
    case (Cons e t')
    with d have "length (drop r path) \<ge> 2" by simp
    then have l: "r + 1 < length path" by simp
    have "path ! Suc r = e" using d Cons l
      by (metis One_nat_def Suc_eq_plus1 assms less_imp_le nth_Cons_0 nth_Cons_Suc nth_drop)
    with assms c d Cons l show ?thesis by (auto simp: at_dot_def element_def)
  qed
qed

lemma at_dotdot_eq:
  assumes "r < length path" "element path r \<noteq> ''.''"
  shows "at_dotdot path r = Ret (element path r = ''..'')"
proof -
  obtain c t where d: "drop r path = c # t" using assms by (metis Cons_nth_drop_Suc)
  then have c: "path ! r = c" using assms by (metis nth_via_drop)
  have n: "r + i < length path \<Longrightarrow> path ! (r + i) = (c # t) ! i" for i
    using d by (metis add_leD1 less_imp_le nth_drop)
  consider (short) "t = []" | (two) e where "t = [e]" | (more) e f u where "t = e # f # u"
    by (metis list.exhaust)
  then show ?thesis
  proof cases
    case short
    with assms d c show ?thesis by (auto simp: at_dotdot_def element_def split: if_splits)
  next
    case two
    with d have "length (drop r path) = 2" by simp
    then have l: "r + 2 = length path" by simp
    with n [of 1] two have "path ! Suc r = e" by simp
    with assms(1) c d two l show ?thesis by (auto simp: at_dotdot_def element_def)
  next
    case more
    with d have "length (drop r path) \<ge> 3" by simp
    then have l: "r + 2 < length path" by simp
    with n [of 1] n [of 2] more have "path ! Suc r = e" "path ! Suc (Suc r) = f" by auto
    with assms(1) c d more l show ?thesis by (auto simp: at_dotdot_def element_def)
  qed
qed

lemma element_slash: "r < length path \<Longrightarrow> path ! r = CHR ''/'' \<longleftrightarrow> element path r = []"
  by (auto simp: element_def takeWhile_drop_Cons)

definition clean_result :: "char list \<Rightarrow> bool \<Rightarrow> nat \<Rightarrow> char list list \<Rightarrow> char list \<Rightarrow>
    (char list \<times> nat) outcome \<Rightarrow> bool" where
  "clean_result path rooted r st np out \<longleftrightarrow>
     (\<exists>np' w' d'. out = Ret (np', w') \<and> length np' = length np \<and> w' \<le> length path \<and>
        clean_inv rooted (foldl (norm_step rooted) st (split_slash (drop r path))) d' np' w')"

lemma clean_result_step:
  assumes "clean_result path rooted (r + length (element path r))
      (norm_step rooted st (element path r)) np1 out" "length np1 = length np"
  shows "clean_result path rooted r st np out"
proof -
  obtain t where t: "drop r path = element path r @ t" "CHR ''/'' \<notin> set (element path r)"
    "t = [] \<or> hd t = CHR ''/''" "t = drop (r + length (element path r)) path"
    by (rule element_split)
  have "foldl (norm_step rooted) st (split_slash (drop r path)) =
    foldl (norm_step rooted) (norm_step rooted st (element path r)) (split_slash t)"
    by (subst t(1)) (rule fold_split_element [OF t(2,3)])
  with assms t(4) show ?thesis by (simp add: clean_result_def)
qed

lemma clean_result_slash:
  assumes "r < length path" "path ! r = CHR ''/''" "clean_result path rooted (Suc r) st np out"
  shows "clean_result path rooted r st np out"
proof -
  have "drop r path = CHR ''/'' # drop (Suc r) path" using assms(1,2) by (metis Cons_nth_drop_Suc)
  with assms(3) show ?thesis by (simp add: clean_result_def norm_step_def)
qed

text \<open>The element is written behind the separator.\<close>

lemma write_name:
  assumes I: "clean_inv rooted st dotdot np w" and n: "proper (element path r)"
    and R: "room path r (length (render rooted [])) w" and r: "r < length path"
    and L: "length path \<le> length np"
  shows "\<exists>np1 np2 w2. (if w \<noteq> length (render rooted []) then put CHR ''/'' (np, w) else Ret (np, w)) = Ret np1 \<and>
    copy_name path r np1 = Ret (r + length (element path r), np2, w2) \<and>
    clean_inv rooted (st @ [element path r]) dotdot np2 w2 \<and> length np2 = length np \<and>
    w2 \<le> r + length (element path r)"
proof -
  let ?n = "element path r"
  let ?sep = "if st = [] then 0 else 1 :: nat"
  obtain t where t: "drop r path = ?n @ t" "CHR ''/'' \<notin> set ?n" "t = [] \<or> hd t = CHR ''/''"
    by (rule element_split)
  have sl: "path ! r \<noteq> CHR ''/''" using element_slash [OF r] n by (simp add: proper_def)
  have wr: "w + ?sep \<le> r"
    using R sl r clean_inv_base [OF I] by (auto simp: room_def)
  have len: "length (drop r path) = length ?n + length t" by (subst t(1)) simp
  then have rn: "r + length ?n \<le> length path" using r by simp
  have "w < length np" using wr r L by simp
  from put_sep [OF I this] obtain np1 where p1:
    "(if w \<noteq> length (render rooted []) then put CHR ''/'' (np, w) else Ret (np, w)) = Ret (np1, w + ?sep)"
    "length np1 = length np" "take (w + ?sep) np1 = render rooted st @ (if st = [] then [] else ''/'')"
    by blast
  have "w + ?sep + length ?n \<le> length np1" using wr rn L p1(2) by simp
  from copy_name_eq [OF t this] obtain np2 where p2:
    "copy_name path r (np1, w + ?sep) = Ret (r + length ?n, np2, w + ?sep + length ?n)"
    "take (w + ?sep + length ?n) np2 = take (w + ?sep) np1 @ ?n" "length np2 = length np1"
    by blast
  have "take (w + ?sep + length ?n) np2 = render rooted (st @ [?n])"
    using p1(3) p2(2) by (simp add: render_snoc)
  moreover have "w + ?sep + length ?n = length (render rooted (st @ [?n]))"
    using clean_inv_w [OF I] by (simp add: render_snoc)
  moreover have "w + ?sep + length ?n \<le> length np2" using wr rn L p1(2) p2(3) by simp
  ultimately have "clean_inv rooted (st @ [?n]) dotdot np2 (w + ?sep + length ?n)"
    by (intro clean_inv_push_name [OF I n]) auto
  with p1 p2 wr show ?thesis by auto
qed

text \<open>The dot-dot a relative path starts with.\<close>

lemma write_dots:
  assumes I: "clean_inv False st dotdot np w" and d: "\<not> dotdot < w" and e: "element path r = ''..''"
    and R: "room path r 0 w" and r: "r < length path" and L: "length path \<le> length np"
  shows "\<exists>o1 o2 np3 w3. (if 0 < w then put CHR ''/'' (np, w) else Ret (np, w)) = Ret o1 \<and>
    put CHR ''.'' o1 = Ret o2 \<and> put CHR ''.'' o2 = Ret (np3, w3) \<and>
    clean_inv False (st @ [''..'']) w3 np3 w3 \<and> length np3 = length np \<and> w3 \<le> r + 2"
proof -
  let ?sep = "if st = [] then 0 else 1 :: nat"
  have b: "length (render False []) = 0" by (simp add: render_def)
  have sl: "path ! r \<noteq> CHR ''/''" using element_slash [OF r] e by simp
  have wr: "w + ?sep \<le> r"
    using R sl r clean_inv_base [OF I] b by (auto simp: room_def)
  obtain t where t: "drop r path = ''..'' @ t" using e by (metis element_split)
  then have "length (drop r path) \<ge> 2" by simp
  then have r2: "r + 2 \<le> length path" by simp
  have "w < length np" using wr r L by simp
  from put_sep [OF I this] b obtain np1 where p1:
    "(if 0 < w then put CHR ''/'' (np, w) else Ret (np, w)) = Ret (np1, w + ?sep)"
    "length np1 = length np" "take (w + ?sep) np1 = render False st @ (if st = [] then [] else ''/'')"
    by auto
  let ?w = "w + ?sep"
  have l: "?w < length np1" "Suc ?w < length np1" using wr r2 L p1(2) by auto
  let ?np3 = "np1[?w := CHR ''.'', Suc ?w := CHR ''.'']"
  have "take (Suc (Suc ?w)) ?np3 = take ?w np1 @ ''..''"
    using l by (simp add: take_Suc_conv_app_nth)
  then have "take (Suc (Suc ?w)) ?np3 = render False (st @ [''..''])"
    using p1(3) by (simp add: render_snoc)
  moreover have "Suc (Suc ?w) = length (render False (st @ [''..'']))"
    using clean_inv_w [OF I] by (simp add: render_snoc)
  ultimately have "clean_inv False (st @ [''..'']) (Suc (Suc ?w)) ?np3 (Suc (Suc ?w))"
    using l by (intro clean_inv_push_dots [OF I d]) auto
  moreover have "put CHR ''.'' (np1, ?w) = Ret (np1[?w := CHR ''.''], Suc ?w)"
    "put CHR ''.'' (np1[?w := CHR ''.''], Suc ?w) = Ret (?np3, Suc (Suc ?w))"
    using l by (simp_all add: put_in)
  ultimately show ?thesis using p1 wr by (metis add_2_eq_Suc' Suc_le_mono length_list_update)
qed

lemma element_length: "r \<le> length path \<Longrightarrow> r + length (element path r) \<le> length path"
  using length_takeWhile_drop_le by (simp add: element_def)

lemma room_after:
  assumes "r \<le> length path" "w \<le> r + length (element path r)"
  shows "room path (r + length (element path r)) base w"
proof -
  obtain t where t: "t = [] \<or> hd t = CHR ''/''" "t = drop (r + length (element path r)) path"
    by (rule element_split)
  then have "r + length (element path r) < length path \<Longrightarrow>
    path ! (r + length (element path r)) = CHR ''/''"
    by (metis drop_eq_Nil hd_drop_conv_nth not_le)
  with assms element_length [OF assms(1)] show ?thesis
    by (cases "r + length (element path r) < length path") (simp_all add: room_def)
qed

text \<open>
  One turn of the loop at an element, given that the loop is right from behind the element.
\<close>

lemma clean_loop_dots:
  assumes I: "clean_inv rooted st dotdot np w" and r: "r < length path"
    and L: "length path \<le> length np" and R: "room path r (length (render rooted [])) w"
    and e: "element path r = ''..''"
    and IH: "\<And>st' d' np' w'. clean_inv rooted st' d' np' w' \<Longrightarrow> length path \<le> length np' \<Longrightarrow>
      room path (r + 2) (length (render rooted [])) w' \<Longrightarrow>
      clean_result path rooted (r + 2) st' np' (clean_loop path rooted (r + 2) d' (np', w'))"
  shows "clean_result path rooted r st np (clean_loop path rooted r dotdot (np, w))"
proof -
  have sl: "path ! r \<noteq> CHR ''/''" using element_slash [OF r] e by simp
  have at: "at_dot path r = Ret False" "at_dotdot path r = Ret True"
    using r e by (simp_all add: at_dot_eq at_dotdot_eq)
  have room: "w' \<le> r + 2 \<Longrightarrow> room path (r + 2) (length (render rooted [])) w'" for w'
    using room_after [of r path w'] r e by simp
  have st': "norm_step rooted st (element path r) = (if dotdot < w then butlast st
      else if rooted then st else st @ [''..''])"
    using e clean_inv_names [OF I] by (simp add: norm_step_def)
  have wr: "w \<le> r" using R by (simp add: room_def)
  consider (pop) "dotdot < w" | (keep) "\<not> dotdot < w" rooted | (push) "\<not> dotdot < w" "\<not> rooted"
    by blast
  then show ?thesis
  proof cases
    case pop
    note P = clean_inv_pop [OF I pop]
    have "clean_loop path rooted r dotdot (np, w) =
        clean_loop path rooted (r + 2) dotdot (np, length (render rooted (butlast st)))"
      using sl r at pop P(1) by (subst clean_loop.simps) simp
    moreover have "clean_result path rooted (r + 2) (butlast st) np
        (clean_loop path rooted (r + 2) dotdot (np, length (render rooted (butlast st))))"
      using P(2) wr by (intro IH [OF P(3) L] room) simp
    ultimately show ?thesis
      by - (rule clean_result_step [where ?np1.0 = np], simp_all add: e st' [unfolded e] pop)
  next
    case keep
    have "clean_loop path rooted r dotdot (np, w) = clean_loop path rooted (r + 2) dotdot (np, w)"
      using sl r at keep by (subst clean_loop.simps) simp
    moreover have "clean_result path rooted (r + 2) st np (clean_loop path rooted (r + 2) dotdot (np, w))"
      using wr by (intro IH [OF I L] room) simp
    moreover have "norm_step rooted st (element path r) = st" using st' keep by simp
    ultimately show ?thesis
      by - (rule clean_result_step [where ?np1.0 = np], simp_all add: e)
  next
    case push
    then have I': "clean_inv False st dotdot np w" "room path r 0 w"
      using I R by (auto simp: render_def)
    obtain o1 o2 np3 w3 where W: "(if 0 < w then put CHR ''/'' (np, w) else Ret (np, w)) = Ret o1"
      "put CHR ''.'' o1 = Ret o2" "put CHR ''.'' o2 = Ret (np3, w3)"
      "clean_inv False (st @ [''..'']) w3 np3 w3" "length np3 = length np" "w3 \<le> r + 2"
      using write_dots [OF I'(1) push(1) e I'(2) r L] by blast
    have "clean_loop path rooted r dotdot (np, w) = clean_loop path rooted (r + 2) w3 (np3, w3)"
      using sl r at push W(1-3) by (subst clean_loop.simps) simp
    moreover have "clean_result path rooted (r + 2) (st @ [''..'']) np3
        (clean_loop path rooted (r + 2) w3 (np3, w3))"
      using W(4,5) L push by (intro IH room [OF W(6)]) simp_all
    moreover have "norm_step rooted st (element path r) = st @ [''..'']" using st' push by simp
    ultimately show ?thesis using W(5)
      by - (rule clean_result_step [where ?np1.0 = np3], simp_all add: e)
  qed
qed

lemma clean_loop_name:
  assumes I: "clean_inv rooted st dotdot np w" and r: "r < length path"
    and L: "length path \<le> length np" and R: "room path r (length (render rooted [])) w"
    and e: "proper (element path r)"
    and IH: "\<And>st' d' np' w'. clean_inv rooted st' d' np' w' \<Longrightarrow> length path \<le> length np' \<Longrightarrow>
      room path (r + length (element path r)) (length (render rooted [])) w' \<Longrightarrow>
      clean_result path rooted (r + length (element path r)) st' np'
        (clean_loop path rooted (r + length (element path r)) d' (np', w'))"
  shows "clean_result path rooted r st np (clean_loop path rooted r dotdot (np, w))"
proof -
  let ?e = "element path r"
  have sl: "path ! r \<noteq> CHR ''/''" using element_slash [OF r] e by (simp add: proper_def)
  have at: "at_dot path r = Ret False" "at_dotdot path r = Ret False"
    using r e by (simp_all add: at_dot_eq at_dotdot_eq proper_def)
  obtain np1 np2 w2 where W:
    "(if w \<noteq> length (render rooted []) then put CHR ''/'' (np, w) else Ret (np, w)) = Ret np1"
    "copy_name path r np1 = Ret (r + length ?e, np2, w2)"
    "clean_inv rooted (st @ [?e]) dotdot np2 w2" "length np2 = length np" "w2 \<le> r + length ?e"
    using write_name [OF I e R r L] by blast
  have c: "(rooted \<and> snd (np, w) \<noteq> 1 \<or> \<not> rooted \<and> snd (np, w) \<noteq> 0) = (w \<noteq> length (render rooted []))"
    by (auto simp: render_def)
  have "clean_loop path rooted r dotdot (np, w) = clean_loop path rooted (r + length ?e) dotdot (np2, w2)"
    using sl r W(1,2) at unfolding clean_loop.simps [of path rooted r] c by simp
  moreover have "norm_step rooted st ?e = st @ [?e]" using e by (auto simp: norm_step_def proper_def)
  moreover have "clean_result path rooted (r + length ?e) (st @ [?e]) np2
      (clean_loop path rooted (r + length ?e) dotdot (np2, w2))"
    using L W(4) by (intro IH [OF W(3)] room_after [OF less_imp_le [OF r] W(5)]) simp
  ultimately show ?thesis using W(4) by - (rule clean_result_step [where ?np1.0 = np2], simp_all)
qed

lemma clean_loop_correct:
  assumes "clean_inv rooted st dotdot np w" "r \<le> length path" "length path \<le> length np"
    and "room path r (length (render rooted [])) w"
  shows "clean_result path rooted r st np (clean_loop path rooted r dotdot (np, w))"
  using assms
proof (induction "length path - r" arbitrary: r st dotdot np w rule: less_induct)
  case less
  let ?e = "element path r"
  consider (fin) "r = length path" | (slash) "r < length path" "?e = []"
    | (dot) "r < length path" "?e = ''.''" | (dots) "r < length path" "?e = ''..''"
    | (name) "r < length path" "?e \<noteq> []" "?e \<noteq> ''.''" "?e \<noteq> ''..''"
    using less.prems(2) by linarith
  then show ?case
  proof cases
    case fin
    with less.prems show ?thesis
      by (subst clean_loop.simps) (auto simp: clean_result_def norm_step_def room_def)
  next
    case slash
    then have sl: "path ! r = CHR ''/''" using element_slash by blast
    have "room path (Suc r) (length (render rooted [])) w" using less.prems(4) by (auto simp: room_def)
    then have "clean_result path rooted (Suc r) st np (clean_loop path rooted (Suc r) dotdot (np, w))"
      using less.prems slash by (intro less.hyps) auto
    with clean_result_slash [OF slash(1) sl] sl slash(1) show ?thesis by (subst clean_loop.simps) simp
  next
    case dot
    then have "path ! r \<noteq> CHR ''/''" using element_slash by force
    then have "clean_loop path rooted r dotdot (np, w) = clean_loop path rooted (Suc r) dotdot (np, w)"
      using dot by (subst clean_loop.simps) (simp add: at_dot_eq)
    moreover have "room path (Suc r) (length (render rooted [])) w"
      using less.prems(4) by (auto simp: room_def)
    then have "clean_result path rooted (Suc r) st np (clean_loop path rooted (Suc r) dotdot (np, w))"
      using less.prems dot by (intro less.hyps) auto
    ultimately show ?thesis
      using dot by - (rule clean_result_step [where ?np1.0 = np], simp_all add: norm_step_def)
  next
    case dots
    then have "r + 2 \<le> length path" using element_length [OF less.prems(2)] by simp
    then show ?thesis using less.prems dots
      by (intro clean_loop_dots [OF less.prems(1) dots(1) less.prems(3,4) dots(2)] less.hyps) auto
  next
    case name
    then have "proper ?e" using element_split [of r path] unfolding proper_def by metis
    moreover have "r + length ?e \<le> length path" by (rule element_length [OF less.prems(2)])
    moreover have "0 < length ?e" using name(2) by blast
    then have "length path - (r + length ?e) < length path - r" using name(1) by linarith
    ultimately show ?thesis using name
      by (intro clean_loop_name [OF less.prems(1) name(1) less.prems(3,4)] less.hyps) auto
  qed
qed

lemma clean_path_refines:
  assumes "max 1 (length path) \<le> length np"
  shows "\<exists>np' w. clean_path path np = Ret (np', w) \<and> take w np' = clean_spec path \<and>
    0 < w \<and> w \<le> max 1 (length path) \<and> length np' = length np"
proof (cases "path = []")
  case True
  have "np \<noteq> []" using assms by auto
  moreover from this have "take (Suc 0) (np[0 := CHR ''.'']) = ''.''"
    using take_Suc_update [of 0 np "CHR ''.''"] by simp
  ultimately show ?thesis using True
    by (simp add: clean_path_def put_in clean_spec_def norm_step_def render_def Suc_le_eq)
next
  case False
  define rooted where "rooted = (hd path = CHR ''/'')"
  define np0 where "np0 = (if rooted then np[0 := CHR ''/''] else np)"
  let ?b = "if rooted then 1 else 0 :: nat"
  have len: "0 < length np" "length path \<le> length np" "0 < length path" using assms False by auto
  have h: "rd path 0 = Ret (hd path)" using False by (simp add: hd_conv_nth)
  have o0: "(if rooted then put CHR ''/'' (np, 0) else Ret (np, 0)) = Ret (np0, ?b)"
    using len by (simp add: put_in np0_def)
  have "take ?b np0 = render rooted []"
    using len take_Suc_update [of 0 np "CHR ''/''"] by (simp add: np0_def render_def)
  then have "clean_inv rooted [] ?b np0 ?b"
    using len unfolding clean_inv_def
    by (intro conjI exI [of _ "0 :: nat"] exI [of _ "[]"]) (auto simp: np0_def render_def Suc_le_eq)
  moreover have "room path ?b (length (render rooted [])) ?b" by (simp add: room_def render_def)
  ultimately have "clean_result path rooted ?b [] np0 (clean_loop path rooted ?b ?b (np0, ?b))"
    using len by (intro clean_loop_correct) (auto simp: np0_def Suc_le_eq)
  then obtain np' w' d' where C: "clean_loop path rooted ?b ?b (np0, ?b) = Ret (np', w')"
    "length np' = length np" "w' \<le> length path"
    "clean_inv rooted (foldl (norm_step rooted) [] (split_slash (drop ?b path))) d' np' w'"
    by (auto simp: clean_result_def np0_def split: if_splits)
  have "foldl (norm_step rooted) [] (split_slash (drop ?b path)) =
    foldl (norm_step rooted) [] (split_slash path)"
    using False by (cases path) (auto simp: rooted_def norm_step_def)
  with C(4) have I: "clean_inv rooted (foldl (norm_step rooted) [] (split_slash path)) d' np' w'" by simp
  have R: "take w' np' = render rooted (foldl (norm_step rooted) [] (split_slash path))"
    using I unfolding clean_inv_def by blast
  have "clean_path path np = (if w' = 0 then put CHR ''.'' (np', w') else Ret (np', w'))"
    using False h o0 C(1) by (simp add: clean_path_def rooted_def [symmetric])
  moreover have "clean_spec path = (if w' = 0 then ''.'' else take w' np')"
    using False R clean_inv_w [OF I] by (simp add: clean_spec_def rooted_def Let_def)
  moreover have "take (Suc 0) (np'[0 := CHR ''.'']) = ''.''"
    using len C(2) take_Suc_update [of 0 np' "CHR ''.''"] by simp
  ultimately show ?thesis using C len by (auto simp: put_in Suc_le_eq)
qed

text \<open>
  C8.  \<^verbatim>\<open>clean_path\<close> refines the specification: given an output array of at least
  \<open>max 1 (length path)\<close> bytes it never reads or writes outside an array, returns, and what it wrote is
  the normalised path, at least one and at most \<open>max 1 (length path)\<close> bytes long.
\<close>

theorem clean_path_correct:
  assumes "max 1 (length path) \<le> length np"
  shows "\<exists>np' w. clean_path path np = Ret (np', w) \<and> take w np' = clean_spec path \<and>
    0 < w \<and> w \<le> max 1 (length path) \<and> length np' = length np"
  by (rule clean_path_refines [OF assms])

lemma clean_path_correct_witness:
  "\<exists>np' w. clean_path ''/a/../b'' (replicate 7 NUL) = Ret (np', w) \<and> take w np' = ''/b''"
proof -
  have "clean_spec ''/a/../b'' = ''/b''" by code_simp
  moreover have "max 1 (length ''/a/../b'') \<le> length (replicate 7 NUL)" by simp
  ultimately show ?thesis using clean_path_correct [of "''/a/../b''" "replicate 7 NUL"] by metis
qed
section \<open>Normal forms\<close>

definition normal :: "bool \<Rightarrow> char list list \<Rightarrow> bool" where
  "normal rooted st \<longleftrightarrow>
     (\<exists>k names. st = replicate k ''..'' @ names \<and> (rooted \<longrightarrow> k = 0) \<and> (\<forall>n \<in> set names. proper n))"

lemma normal_Nil: "normal rooted []"
  unfolding normal_def by (intro exI [of _ 0] exI [of _ "[]"]) simp

lemma normal_step:
  assumes "normal rooted st" "CHR ''/'' \<notin> set c"
  shows "normal rooted (norm_step rooted st c)"
proof -
  obtain k names where st: "st = replicate k ''..'' @ names" "rooted \<longrightarrow> k = 0"
    "\<forall>n \<in> set names. proper n"
    using assms(1) unfolding normal_def by blast
  consider (skip) "c = [] \<or> c = ''.''" | (pop) "c = ''..''" "names \<noteq> []"
    | (dots) "c = ''..''" "names = []" | (name) "proper c"
    using assms(2) unfolding proper_def by blast
  then show ?thesis
  proof cases
    case skip
    with assms(1) show ?thesis by (auto simp: norm_step_def)
  next
    case pop
    then have "last st \<noteq> ''..''" "st \<noteq> []" using st by (auto simp: proper_def)
    then have "norm_step rooted st c = replicate k ''..'' @ butlast names"
      using pop st by (simp add: norm_step_def butlast_append)
    with st show ?thesis unfolding normal_def by (metis in_set_butlastD)
  next
    case dots
    show ?thesis
    proof (cases rooted)
      case True
      with dots st assms(1) show ?thesis by (simp add: norm_step_def)
    next
      case False
      have "norm_step rooted st c = replicate (Suc k) ''..'' @ []"
        using dots st False replicate_append_same [of k "''..''"] by (cases "k = 0")
          (simp_all add: norm_step_def last_replicate)
      with False show ?thesis unfolding normal_def by (metis empty_iff list.set(1))
    qed
  next
    case name
    then have "norm_step rooted st c = replicate k ''..'' @ (names @ [c])"
      using st by (auto simp: norm_step_def proper_def)
    with st name show ?thesis unfolding normal_def
      by (intro exI [of _ k] exI [of _ "names @ [c]"]) auto
  qed
qed

lemma split_slash_no_slash: "x \<in> set (split_slash s) \<Longrightarrow> CHR ''/'' \<notin> set x"
  by (induction s arbitrary: x) (auto split: if_splits list.splits)

lemma normal_fold:
  "normal rooted st \<Longrightarrow> (\<And>c. c \<in> set cs \<Longrightarrow> CHR ''/'' \<notin> set c) \<Longrightarrow>
   normal rooted (foldl (norm_step rooted) st cs)"
  by (induction cs arbitrary: st) (auto intro: normal_step)

definition elements :: "char list \<Rightarrow> char list list" where
  "elements path = foldl (norm_step (path \<noteq> [] \<and> hd path = CHR ''/'')) [] (split_slash path)"

lemma normal_elements: "normal (path \<noteq> [] \<and> hd path = CHR ''/'') (elements path)"
  unfolding elements_def by (intro normal_fold normal_Nil split_slash_no_slash)

lemma join_split:
  assumes "st \<noteq> []" "\<And>x. x \<in> set st \<Longrightarrow> CHR ''/'' \<notin> set x"
  shows "split_slash (join_slash st) = st"
  using assms
proof (induction st rule: join_slash.induct)
  case (3 x y xs)
  then show ?case by (simp add: split_slash_append)
qed (simp_all add: split_slash_name)

lemma fold_normal:
  assumes "normal rooted (st @ cs)"
  shows "foldl (norm_step rooted) st cs = st @ cs"
  using assms
proof (induction cs arbitrary: st)
  case (Cons c cs)
  obtain k names where st: "st @ c # cs = replicate k ''..'' @ names" "rooted \<longrightarrow> k = 0"
    "\<forall>n \<in> set names. proper n"
    using Cons.prems unfolding normal_def by blast
  have "norm_step rooted st c = st @ [c]"
  proof (cases "length st < k")
    case True
    have "c = (st @ c # cs) ! length st" by simp
    with True st have c: "c = ''..''" by (simp add: nth_append)
    have "take (length st) (st @ c # cs) = replicate (length st) ''..''"
      using True st(1) by (simp add: take_replicate min_absorb1)
    then have "st = replicate (length st) ''..''" by simp
    then have "st = [] \<or> last st = ''..''" by (metis last_replicate length_0_conv)
    with c True st show ?thesis by (auto simp: norm_step_def)
  next
    case False
    have "c = (st @ c # cs) ! length st" by simp
    then have "c = names ! (length st - k)" using False st(1) by (simp add: nth_append)
    moreover have "length st - k < length names"
      using False arg_cong [OF st(1), of length] by simp
    ultimately have "proper c" using st(3) by auto
    then show ?thesis by (auto simp: norm_step_def proper_def)
  qed
  with Cons.IH [of "st @ [c]"] Cons.prems show ?case by simp
qed simp

lemma elements_facts:
  assumes "x \<in> set (elements path)"
  shows "x \<noteq> []" "CHR ''/'' \<notin> set x"
proof -
  obtain k names where e: "elements path = replicate k ''..'' @ names"
    "\<forall>n \<in> set names. proper n"
    using normal_elements [of path] unfolding normal_def by blast
  have "x = ''..'' \<or> proper x"
  proof (cases "x \<in> set names")
    case False
    with assms e(1) have "x \<in> set (replicate k ''..'')" by simp
    then show ?thesis by (simp del: set_replicate add: in_set_replicate)
  qed (use e(2) in blast)
  then show "x \<noteq> []" "CHR ''/'' \<notin> set x" by (auto simp: proper_def)
qed

lemma clean_spec_elements: "clean_spec path =
   (if elements path = [] then (if path \<noteq> [] \<and> hd path = CHR ''/'' then ''/'' else ''.'')
    else render (path \<noteq> [] \<and> hd path = CHR ''/'') (elements path))"
proof -
  have "join_slash (elements path) = [] \<longleftrightarrow> elements path = []"
    by (rule join_eq_Nil) (rule elements_facts)
  then show ?thesis
    unfolding clean_spec_def elements_def [symmetric] Let_def render_def by simp
qed

lemma clean_spec_rooted:
  assumes "path \<noteq> []" "hd path = CHR ''/''"
  shows "\<exists>es. clean_spec path = CHR ''/'' # join_slash es \<and> (\<forall>e \<in> set es. proper e)"
proof -
  have "normal True (elements path)" using normal_elements [of path] assms by simp
  then have "\<forall>e \<in> set (elements path). proper e" by (auto simp: normal_def)
  moreover have "clean_spec path = CHR ''/'' # join_slash (elements path)"
    using assms by (simp add: clean_spec_elements render_def)
  ultimately show ?thesis by blast
qed

text \<open>
  C24.  What \<^verbatim>\<open>clean_path\<close> makes of a rooted path: a slash, then proper elements only,
  so no dot-dot is left.
\<close>

theorem clean_path_rooted:
  assumes "path \<noteq> []" "hd path = CHR ''/''" "length path \<le> length np"
  shows "\<exists>np' w es. clean_path path np = Ret (np', w) \<and> take w np' = CHR ''/'' # join_slash es \<and>
    (\<forall>e \<in> set es. proper e)"
proof -
  have "max 1 (length path) \<le> length np" using assms by (cases path) auto
  then obtain np' w where "clean_path path np = Ret (np', w)" "take w np' = clean_spec path"
    using clean_path_refines by blast
  with clean_spec_rooted [OF assms(1,2)] show ?thesis by auto
qed

lemma clean_path_rooted_witness:
  "\<exists>np' w es. clean_path ''/a/../../b'' (replicate 10 NUL) = Ret (np', w) \<and>
     take w np' = CHR ''/'' # join_slash es \<and> (\<forall>e \<in> set es. proper e)"
  by (rule clean_path_rooted) simp_all

lemma clean_spec_idem: "clean_spec (clean_spec path) = clean_spec path"
proof -
  let ?r = "path \<noteq> [] \<and> hd path = CHR ''/''"
  have ns: "CHR ''/'' \<notin> set x" if "x \<in> set (elements path)" for x
    using that by (rule elements_facts(2))
  show ?thesis
  proof (cases "elements path = []")
    case True
    then show ?thesis
      by (auto simp: clean_spec_elements [of path])
         (simp_all add: clean_spec_def norm_step_def render_def)
  next
    case False
    define J where "J = join_slash (elements path)"
    have J: "split_slash J = elements path" unfolding J_def by (rule join_split [OF False ns])
    have c: "clean_spec path = (if ?r then CHR ''/'' # J else J)"
      using False by (auto simp: clean_spec_elements render_def J_def)
    show ?thesis
    proof (cases ?r)
      case True
      then have "foldl (norm_step True) [] (elements path) = elements path"
        using fold_normal [of True "[]"] normal_elements [of path] by simp
      then have "elements (CHR ''/'' # J) = elements path"
        by (simp add: elements_def [of "CHR ''/'' # J"] J norm_step_def)
      then have "clean_spec (CHR ''/'' # J) = CHR ''/'' # J"
        using False by (simp add: clean_spec_elements [of "CHR ''/'' # J"] render_def J_def [symmetric])
      with True c show ?thesis by simp
    next
      case nr: False
      obtain x xs where e: "elements path = x # xs" using False by (cases "elements path") auto
      then have "x \<noteq> []" "CHR ''/'' \<notin> set x"
        using elements_facts [of x path] by simp_all
      then obtain a y where "x = a # y" "a \<noteq> CHR ''/''" by (cases x) auto
      then have h: "J \<noteq> [] \<and> hd J \<noteq> CHR ''/''"
        unfolding J_def e by (cases xs) simp_all
      have "foldl (norm_step False) [] (elements path) = elements path"
        using fold_normal [of False "[]"] normal_elements [of path] nr by simp
      then have "elements J = elements path" using h by (simp add: elements_def [of J] J)
      then have "clean_spec J = J"
        using False h by (simp add: clean_spec_elements [of J] render_def J_def [symmetric])
      moreover have "clean_spec path = J" unfolding c by (rule if_not_P [OF nr])
      ultimately show ?thesis by simp
    qed
  qed
qed

text \<open>
  C25.  \<^verbatim>\<open>clean_path\<close> is idempotent: its own output comes out unchanged.
\<close>

theorem clean_path_idem:
  assumes "max 1 (length path) \<le> length np"
  shows "\<exists>np' w np''. clean_path path np = Ret (np', w) \<and>
    clean_path (take w np') np' = Ret (np'', w) \<and> take w np'' = take w np'"
proof -
  obtain np' w where c: "clean_path path np = Ret (np', w)" "take w np' = clean_spec path"
    "0 < w" "w \<le> max 1 (length path)" "length np' = length np"
    using clean_path_refines [OF assms] by blast
  have "w \<le> length np'" using c(4,5) assms by linarith
  then have l: "length (take w np') = w" by simp
  then have m: "max 1 (length (take w np')) \<le> length np'" using c(3) \<open>w \<le> length np'\<close> by simp
  obtain np'' w' where d: "clean_path (take w np') np' = Ret (np'', w')"
    "take w' np'' = clean_spec (take w np')" "w' \<le> max 1 (length (take w np'))" "length np'' = length np'"
    using clean_path_refines [OF m] by blast
  from d(2) c(2) have e: "take w' np'' = take w np'" by (simp add: clean_spec_idem)
  then have "length (take w' np'') = w" using l by simp
  moreover have "w' \<le> length np''" using d(3,4) m by linarith
  ultimately have "w' = w" by simp
  with c d e show ?thesis by auto
qed

lemma clean_path_idem_witness:
  "\<exists>np' w np''. clean_path ''a//../..'' (replicate 8 NUL) = Ret (np', w) \<and>
     clean_path (take w np') np' = Ret (np'', w) \<and> take w np'' = take w np'"
  by (rule clean_path_idem) simp

text \<open>The table of the unit test \<^verbatim>\<open>http/test/http_test.cpp\<close>.\<close>

definition clean_path_tests :: "(char list \<times> char list) list" where
  "clean_path_tests =
    [('''', ''.''),
     (''abc'', ''abc''),
     (''abc/def'', ''abc/def''),
     (''a/b/c'', ''a/b/c''),
     (''.'', ''.''),
     (''..'', ''..''),
     (''../..'', ''../..''),
     (''../../abc'', ''../../abc''),
     (''/abc'', ''/abc''),
     (''/'', ''/''),
     (''abc/'', ''abc''),
     (''abc/def/'', ''abc/def''),
     (''a/b/c/'', ''a/b/c''),
     (''./'', ''.''),
     (''../'', ''..''),
     (''../../'', ''../..''),
     (''/abc/'', ''/abc''),
     (''abc//def//ghi'', ''abc/def/ghi''),
     (''//abc'', ''/abc''),
     (''///abc'', ''/abc''),
     (''//abc//'', ''/abc''),
     (''abc//'', ''abc''),
     (''abc/./def'', ''abc/def''),
     (''/./abc/def'', ''/abc/def''),
     (''abc/.'', ''abc''),
     (''abc/def/ghi/../jkl'', ''abc/def/jkl''),
     (''abc/def/../ghi/../jkl'', ''abc/jkl''),
     (''abc/def/..'', ''abc''),
     (''abc/def/../..'', ''.''),
     (''/abc/def/../..'', ''/''),
     (''abc/def/../../..'', ''..''),
     (''/abc/def/../../..'', ''/''),
     (''abc/def/../../../ghi/jkl/../../../mno'', ''../../mno''),
     (''abc/./../def'', ''def''),
     (''abc//./../def'', ''def''),
     (''abc/../../././../def'', ''../../def'')]"

lemma clean_path_unit_test:
  "list_all (\<lambda>(path, out). clean_spec path = out) clean_path_tests"
  by code_simp

end
