(* ===== verification/Reactor.thy ===== *)
theory Reactor
  imports Event_Loop
begin

text \<open>
  The worker's main loop of \<^verbatim>\<open>core/yta_event_loop.c\<close>: accepting, dispatching what
  \<^verbatim>\<open>epoll_wait\<close> reports, freeing contexts, and the termination on \<^verbatim>\<open>SIGQUIT\<close>.  The
  contexts live in a heap from addresses to contexts; \<^verbatim>\<open>calloc\<close> never reuses an address, so
  every use after \<^verbatim>\<open>free\<close> is a crash of the model.
\<close>

section \<open>State\<close>

record ('u, 'b, 'c, 'd) loop_core =
  listen_fd :: int
  listen_fd_ctx :: nat
  socket_epoll_fd :: int
  timer_epoll_fd :: int
  signal_fd :: int
  master_epoll_fd :: int
  current_clients :: int
  terminated :: bool
  heap :: "nat \<Rightarrow> ('u, 'b, 'c, 'd) yta_ctx option"
  next_addr :: nat

type_synonym ('u, 'b, 'c, 'd) world = "('u, 'b, 'c, 'd) loop_core \<times> kernel"

text \<open>
  \<^verbatim>\<open>create_reactor\<close>: the epoll sets of the sockets, the timers and the signals, and the
  master set over the three.  Every failing call exits the process.  The listening context is the
  first one, and has no reactor.
\<close>

definition create_reactor :: "int \<Rightarrow> kernel \<Rightarrow> ('u, 'b, 'c, 'd) world outcome" where
  "create_reactor fd k =
     obind (fd_or_exit k) (\<lambda>(sockets, k).
     obind (or_exit k) (\<lambda>k.
     obind (call_or_exit (Epoll_added sockets fd [EPOLLIN, EPOLLET]) k) (\<lambda>k.
     obind (fd_or_exit k) (\<lambda>(timers, k).
     obind (or_exit k) (\<lambda>k.
     obind (or_exit k) (\<lambda>k.
     obind (call_or_exit Quit_blocked k) (\<lambda>k.
     obind (fd_or_exit k) (\<lambda>(signals, k).
     obind (fd_or_exit k) (\<lambda>(master, k).
     obind (call_or_exit (Epoll_added master sockets [EPOLLIN, EPOLLET]) k) (\<lambda>k.
     obind (call_or_exit (Epoll_added master timers [EPOLLIN, EPOLLET]) k) (\<lambda>k.
     obind (call_or_exit (Epoll_added master signals [EPOLLIN, EPOLLET]) k) (\<lambda>k.
     Ret (\<lparr>listen_fd = fd, listen_fd_ctx = 0, socket_epoll_fd = sockets, timer_epoll_fd = timers,
           signal_fd = signals, master_epoll_fd = master, current_clients = 0, terminated = False,
           heap = [0 \<mapsto> new_ctx 0 fd], next_addr = 1\<rparr>, k)))))))))))))"

section \<open>Releasing a context\<close>

definition free_ctx :: "nat \<Rightarrow> ('u, 'b, 'c, 'd) loop_core \<Rightarrow> ('u, 'b, 'c, 'd) loop_core outcome" where
  "free_ctx a r = (if heap r a = None then Crash BadFree else Ret (r\<lparr>heap := (heap r)(a := None)\<rparr>))"

definition cleanup_context :: "('u, 'b, 'c, 'd) client \<Rightarrow> nat \<Rightarrow> ('u, 'b, 'c, 'd) loop_core \<Rightarrow> kernel \<Rightarrow>
    ('u, 'b, 'c, 'd) world outcome" where
  "cleanup_context cl a r k =
     (case heap r a of
        None \<Rightarrow> Crash BadFree
      | Some ctx \<Rightarrow>
          (let k = sys_close (ctx_fd ctx) k;
               k = (if timer_fd ctx \<noteq> 0 then sys_close (timer_fd ctx) k else k)
           in obind (case close_callback ctx of
                       None \<Rightarrow> Ret (ctx, YTA_OK, k)
                     | Some callback \<Rightarrow> cl_plain cl callback ctx k) (\<lambda>(ctx, _, k).
              obind (free_ctx a (r\<lparr>heap := (heap r)(a \<mapsto> ctx)\<rparr>)) (\<lambda>r.
              Ret (r\<lparr>current_clients := current_clients r - 1\<rparr>, k)))))"

section \<open>Accepting\<close>

text \<open>\<^verbatim>\<open>fcntl\<close> reads the flags, then sets them with \<^verbatim>\<open>O_NONBLOCK\<close>.\<close>

definition set_nonblock :: "int \<Rightarrow> kernel \<Rightarrow> kernel outcome" where
  "set_nonblock fd k = obind (or_exit k) (call_or_exit (Non_blocking fd))"

lemma set_nonblock_then:
  "P (Crash (ProcessExit 1)) \<Longrightarrow> (\<And>k'. P (Ret k')) \<Longrightarrow> P (set_nonblock fd k)"
  using or_exit_cases [of k] call_or_exit_cases [of "Non_blocking fd"]
  unfolding set_nonblock_def by (metis obind.simps(1,3))

text \<open>
  The answer to \<^verbatim>\<open>accept\<close>: a descriptor, with or without memory for its context, or
  \<open>-1\<close>.  No answer left means \<^verbatim>\<open>EAGAIN\<close>.
\<close>

datatype accept_answer = Accepted int | Accepted_no_memory int | Accept_error

fun accept_loop :: "('u, 'b, 'c, 'd) client \<Rightarrow> 'd \<Rightarrow> accept_answer list \<Rightarrow>
    ('u, 'b, 'c, 'd) loop_core \<Rightarrow> kernel \<Rightarrow> ('u, 'b, 'c, 'd) world outcome" where
  "accept_loop cl accept_callback [] r k = Ret (r, k)"
| "accept_loop cl accept_callback (Accept_error # as) r k = Ret (r, k)"
| "accept_loop cl accept_callback (Accepted_no_memory infd # as) r k =
     obind (set_nonblock infd k) (\<lambda>k.
     obind (call_or_exit (No_delay infd) k) (\<lambda>k. Crash (ProcessExit 1)))"
| "accept_loop cl accept_callback (Accepted infd # as) r k =
     obind (set_nonblock infd k) (\<lambda>k.
     obind (call_or_exit (No_delay infd) k) (\<lambda>k.
     let a = next_addr r; r = r\<lparr>next_addr := a + 1\<rparr> in
     obind (cl_plain cl accept_callback (new_ctx (timer_epoll_fd r) infd) k) (\<lambda>(udata, st, k).
       if st = YTA_EXIT then accept_loop cl accept_callback as r (sys_close infd k)
       else
         obind (call_or_exit (Epoll_added (socket_epoll_fd r) infd [EPOLLIN, EPOLLOUT, EPOLLET]) k) (\<lambda>k.
         accept_loop cl accept_callback as
           (r\<lparr>heap := (heap r)(a \<mapsto> udata), current_clients := current_clients r + 1\<rparr>) k))))"

section \<open>Events\<close>

text \<open>
  An entry of the array \<^verbatim>\<open>epoll_wait\<close> fills: the registered pointer and the flags; with the
  answers the kernel will give while the entry is handled.
\<close>

record epoll_event =
  ev_ptr :: nat
  ev_in :: bool
  ev_out :: bool
  ev_err :: bool
  ev_rdhup :: bool
  ev_accepts :: "accept_answer list"
  ev_reads :: "read_answer list"
  ev_writes :: "write_answer list"

definition hung_up :: "epoll_event \<Rightarrow> bool" where
  "hung_up e \<longleftrightarrow> (ev_err e \<or> ev_rdhup e) \<and> \<not> (ev_in e \<or> ev_out e)"

definition serve_timer :: "('u, 'b, 'c, 'd) client \<Rightarrow> epoll_event \<Rightarrow> ('u, 'b, 'c, 'd) loop_core \<Rightarrow> kernel \<Rightarrow>
    ('u, 'b, 'c, 'd) world outcome" where
  "serve_timer cl e r k =
     (if hung_up e then cleanup_context cl (ev_ptr e) r k
      else if ev_in e then
        (case heap r (ev_ptr e) of
           None \<Rightarrow> Crash BadFree
         | Some ctx \<Rightarrow>
             (case timer_callback ctx of
                None \<Rightarrow> Crash NullPointer
              | Some callback \<Rightarrow>
                  obind (cl_plain cl callback ctx k) (\<lambda>(ctx, st, k).
                  let r = r\<lparr>heap := (heap r)(ev_ptr e \<mapsto> ctx)\<rparr> in
                  if st \<noteq> YTA_OK then cleanup_context cl (ev_ptr e) r k else Ret (r, k))))
      else Crash AssertFailed)"

fun serve_timers :: "('u, 'b, 'c, 'd) client \<Rightarrow> epoll_event list \<Rightarrow> ('u, 'b, 'c, 'd) loop_core \<Rightarrow> kernel \<Rightarrow>
    ('u, 'b, 'c, 'd) world outcome" where
  "serve_timers cl [] r k = Ret (r, k)"
| "serve_timers cl (e # es) r k = obind (serve_timer cl e r k) (\<lambda>(r, k). serve_timers cl es r k)"

text \<open>The read and write loops on one connection: what \<^verbatim>\<open>serve_sockets\<close> does with its events.\<close>

definition serve_connection :: "('u, 'b, 'c, 'd) client \<Rightarrow> epoll_event \<Rightarrow> ('u, 'b, 'c, 'd) yta_ctx \<Rightarrow> kernel \<Rightarrow>
    (('u, 'b, 'c, 'd) yta_ctx \<times> loop_status \<times> kernel) outcome" where
  "serve_connection cl e ctx k =
     obind (if ev_in e then read_loop cl (ev_reads e) ctx k else Ret (ctx, YTA_LOOP_CONTINUE, k))
       (\<lambda>(ctx, st, k).
        if ev_out e \<and> st = YTA_LOOP_CONTINUE then write_loop cl (ev_writes e) ctx k
        else Ret (ctx, st, k))"

definition serve_socket :: "('u, 'b, 'c, 'd) client \<Rightarrow> 'd \<Rightarrow> epoll_event \<Rightarrow> ('u, 'b, 'c, 'd) loop_core \<Rightarrow> kernel \<Rightarrow>
    ('u, 'b, 'c, 'd) world outcome" where
  "serve_socket cl accept_callback e r k =
     (if hung_up e then cleanup_context cl (ev_ptr e) r k
      else
        (case heap r (ev_ptr e) of
           None \<Rightarrow> Crash BadFree
         | Some udata \<Rightarrow>
             if \<not> terminated r \<and> listen_fd r = ctx_fd udata
             then accept_loop cl accept_callback (ev_accepts e) r k
             else
               obind (serve_connection cl e udata k) (\<lambda>(udata, st, k).
               let r = r\<lparr>heap := (heap r)(ev_ptr e \<mapsto> udata)\<rparr> in
               if st = YTA_LOOP_ERROR then cleanup_context cl (ev_ptr e) r k else Ret (r, k))))"

fun serve_sockets :: "('u, 'b, 'c, 'd) client \<Rightarrow> 'd \<Rightarrow> epoll_event list \<Rightarrow> ('u, 'b, 'c, 'd) loop_core \<Rightarrow> kernel \<Rightarrow>
    ('u, 'b, 'c, 'd) world outcome" where
  "serve_sockets cl accept_callback [] r k = Ret (r, k)"
| "serve_sockets cl accept_callback (e # es) r k =
     obind (serve_socket cl accept_callback e r k) (\<lambda>(r, k). serve_sockets cl accept_callback es r k)"

section \<open>The main loop\<close>

text \<open>
  What the master epoll set reports: one descriptor, with the entries that a call of
  \<^verbatim>\<open>epoll_wait\<close> on it gives.
\<close>

record master_event =
  me_fd :: int
  me_events :: "epoll_event list"

text \<open>
  The signal branch: the listening socket leaves the epoll set (whether that succeeds is ignored) and
  its context is freed.  The signal descriptor is never read.
\<close>

definition order_termination :: "('u, 'b, 'c, 'd) loop_core \<Rightarrow> kernel \<Rightarrow> ('u, 'b, 'c, 'd) world outcome" where
  "order_termination r k =
     (case next_result k of (ok, k) \<Rightarrow>
      let k = (if ok then trace_event (Epoll_removed (socket_epoll_fd r) (listen_fd r)) k else k)
      in obind (free_ctx (listen_fd_ctx r) (r\<lparr>terminated := True\<rparr>)) (\<lambda>r. Ret (r, k)))"

definition serve_step :: "('u, 'b, 'c, 'd) client \<Rightarrow> 'd \<Rightarrow> master_event \<Rightarrow> ('u, 'b, 'c, 'd) world \<Rightarrow>
    ('u, 'b, 'c, 'd) world outcome" where
  "serve_step cl accept_callback m w =
     (case w of (r, k) \<Rightarrow>
        if me_fd m = socket_epoll_fd r then serve_sockets cl accept_callback (me_events m) r k
        else if me_fd m = timer_epoll_fd r then serve_timers cl (me_events m) r k
        else if me_fd m = signal_fd r then order_termination r k
        else Ret (r, k))"

text \<open>
  The loop of \<^verbatim>\<open>serve\<close> on the events it gets; the result says whether the loop has ended, or
  waits for more.  At its end the four descriptors of the reactor are closed.
\<close>

fun serve_loop :: "('u, 'b, 'c, 'd) client \<Rightarrow> 'd \<Rightarrow> master_event list \<Rightarrow> ('u, 'b, 'c, 'd) world \<Rightarrow>
    (bool \<times> ('u, 'b, 'c, 'd) world) outcome" where
  "serve_loop cl accept_callback ms w =
     (if terminated (fst w) \<and> current_clients (fst w) = 0 then
        (let r = fst w in
         Ret (True, r, sys_close (master_epoll_fd r) (sys_close (signal_fd r)
           (sys_close (timer_epoll_fd r) (sys_close (socket_epoll_fd r) (snd w))))))
      else (case ms of
              [] \<Rightarrow> Ret (False, w)
            | m # ms \<Rightarrow> obind (serve_step cl accept_callback m w) (serve_loop cl accept_callback ms)))"

declare serve_loop.simps [simp del]

definition serve :: "('u, 'b, 'c, 'd) client \<Rightarrow> 'd \<Rightarrow> int \<Rightarrow> master_event list \<Rightarrow> kernel \<Rightarrow>
    (bool \<times> ('u, 'b, 'c, 'd) world) outcome" where
  "serve cl accept_callback fd ms k = obind (create_reactor fd k) (serve_loop cl accept_callback ms)"

section \<open>Listening\<close>

text \<open>
  \<^verbatim>\<open>make_listen_socket\<close>: \<^verbatim>\<open>getaddrinfo\<close>, \<^verbatim>\<open>socket\<close>, the two options and \<^verbatim>\<open>bind\<close>, each of
  which exits when it fails.  The list of addresses, freed at the end, is not modelled.
\<close>

definition make_listen_socket :: "kernel \<Rightarrow> (int \<times> kernel) outcome" where
  "make_listen_socket k =
     obind (or_exit k) (\<lambda>k.
     obind (fd_or_exit k) (\<lambda>(fd, k).
     obind (call_or_exit (Reuse_addr fd) k) (\<lambda>k.
     obind (call_or_exit (Reuse_port fd) k) (\<lambda>k.
     obind (call_or_exit (Bound fd) k) (\<lambda>k.
     Ret (fd, k))))))"

text \<open>The loop of \<^verbatim>\<open>get_listen_fds\<close> that makes one listening socket per worker.\<close>

fun make_listen_fds :: "nat \<Rightarrow> kernel \<Rightarrow> (int list \<times> kernel) outcome" where
  "make_listen_fds 0 k = Ret ([], k)"
| "make_listen_fds (Suc n) k =
     obind (make_listen_socket k) (\<lambda>(fd, k).
     obind (set_nonblock fd k) (\<lambda>k.
     obind (call_or_exit (Listening fd) k) (\<lambda>k.
     obind (make_listen_fds n k) (\<lambda>(fds, k). Ret (fd # fds, k)))))"

end
