(* ===== verification/Event_Safety.thy ===== *)
theory Event_Safety
  imports Reactor
begin

text \<open>
  The interface between the event loop and its client.  \<open>event_client\<close> says what the loops rely on:
  an invariant of the context under which every armed operation has its memory, and which every
  callback keeps.  From it follow, once for every client, that the read and write loops and the
  whole reactor keep their own invariant, use no freed context, and die only in the ways the client
  itself can die.
\<close>

section \<open>The reactor's own invariant\<close>

text \<open>
  The listening context is in the heap until the worker is ordered to terminate; every other context
  is a client's; and \<^verbatim>\<open>current_clients\<close> counts them.
\<close>

definition clients :: "('u, 'b, 'c, 'd) loop_core \<Rightarrow> nat set" where
  "clients r = dom (heap r) - {listen_fd_ctx r}"

definition reactor_ok :: "(('u, 'b, 'c, 'd) yta_ctx \<Rightarrow> bool) \<Rightarrow> ('u, 'b, 'c, 'd) loop_core \<Rightarrow> bool" where
  "reactor_ok good r \<longleftrightarrow>
     heap r (listen_fd_ctx r) = (if terminated r then None else Some (new_ctx 0 (listen_fd r))) \<and>
     (\<forall>a \<in> clients r. \<forall>ctx. heap r a = Some ctx \<longrightarrow> good ctx \<and> ctx_fd ctx \<noteq> listen_fd r) \<and>
     finite (dom (heap r)) \<and> (\<forall>a \<in> dom (heap r). a < next_addr r) \<and> listen_fd_ctx r < next_addr r \<and>
     current_clients r = int (card (clients r))"

text \<open>
  What \<^verbatim>\<open>epoll\<close> promises of an entry: it is about a context that is registered, which a
  freed one is not, as its descriptors are closed; the listening socket has no error and is not
  handed out by \<^verbatim>\<open>accept\<close>; the timer set only knows contexts with a timer, which become
  readable.
\<close>

definition socket_event_ok :: "('u, 'b, 'c, 'd) loop_core \<Rightarrow> epoll_event \<Rightarrow> bool" where
  "socket_event_ok r e \<longleftrightarrow>
     heap r (ev_ptr e) \<noteq> None \<and> (ev_ptr e = listen_fd_ctx r \<longrightarrow> \<not> hung_up e) \<and>
     Accepted (listen_fd r) \<notin> set (ev_accepts e)"

definition timer_event_ok :: "('u, 'b, 'c, 'd) loop_core \<Rightarrow> epoll_event \<Rightarrow> bool" where
  "timer_event_ok r e \<longleftrightarrow>
     ev_ptr e \<noteq> listen_fd_ctx r \<and> (hung_up e \<or> ev_in e) \<and>
     (\<exists>ctx. heap r (ev_ptr e) = Some ctx \<and> timer_fd ctx \<noteq> 0)"

definition master_event_ok :: "('u, 'b, 'c, 'd) loop_core \<Rightarrow> master_event \<Rightarrow> bool" where
  "master_event_ok r m \<longleftrightarrow>
     (if me_fd m = socket_epoll_fd r then
        distinct (map ev_ptr (me_events m)) \<and> list_all (socket_event_ok r) (me_events m)
      else if me_fd m = timer_epoll_fd r then
        distinct (map ev_ptr (me_events m)) \<and> list_all (timer_event_ok r) (me_events m)
      else me_fd m = signal_fd r \<longrightarrow> \<not> terminated r)"

definition signalled :: "('u, 'b, 'c, 'd) loop_core \<Rightarrow> master_event \<Rightarrow> bool" where
  "signalled r m \<longleftrightarrow> me_fd m = signal_fd r \<and> me_fd m \<noteq> socket_epoll_fd r \<and> me_fd m \<noteq> timer_epoll_fd r"

text \<open>
  What one entry may do to the reactor: the other contexts stay as they are, so the remaining entries
  of the same batch stay valid.
\<close>

definition touches_only :: "nat \<Rightarrow> ('u, 'b, 'c, 'd) loop_core \<Rightarrow> ('u, 'b, 'c, 'd) loop_core \<Rightarrow> bool" where
  "touches_only a r r' \<longleftrightarrow>
     listen_fd r' = listen_fd r \<and> listen_fd_ctx r' = listen_fd_ctx r \<and> terminated r' = terminated r \<and>
     (\<forall>b \<in> dom (heap r). b \<noteq> a \<longrightarrow> heap r' b = heap r b)"

lemma touches_only_events:
  assumes "touches_only a r r'" "ev_ptr e \<noteq> a"
  shows "socket_event_ok r e \<Longrightarrow> socket_event_ok r' e" "timer_event_ok r e \<Longrightarrow> timer_event_ok r' e"
  using assms by (force simp: touches_only_def socket_event_ok_def timer_event_ok_def)+

text \<open>A step of the reactor keeps its invariant, or ends in one of the crashes of the client.\<close>

definition reactor_keeps :: "(('u, 'b, 'c, 'd) yta_ctx \<Rightarrow> bool) \<Rightarrow> (crash \<Rightarrow> bool) \<Rightarrow>
    (('u, 'b, 'c, 'd) loop_core \<Rightarrow> bool) \<Rightarrow> ('u, 'b, 'c, 'd) world outcome \<Rightarrow> bool" where
  "reactor_keeps good bad Q res =
     (case res of Ret (r', _) \<Rightarrow> reactor_ok good r' \<and> Q r' | Fail _ \<Rightarrow> False | Crash x \<Rightarrow> bad x)"

lemma reactor_keeps_simps [simp]:
  "reactor_keeps good bad Q (Ret (r', k)) \<longleftrightarrow> reactor_ok good r' \<and> Q r'"
  "reactor_keeps good bad Q (Crash x) \<longleftrightarrow> bad x"
  "\<not> reactor_keeps good bad Q (Fail n)"
  by (simp_all add: reactor_keeps_def)

lemma reactor_keeps_weaken:
  "reactor_keeps good bad Q m \<Longrightarrow> (\<And>r'. Q r' \<Longrightarrow> Q' r') \<Longrightarrow> reactor_keeps good bad Q' m"
  by (auto simp: reactor_keeps_def split: outcome.splits)

lemma clients_update: "a \<noteq> listen_fd_ctx r \<Longrightarrow> heap r a \<noteq> None \<Longrightarrow>
   clients (r\<lparr>heap := (heap r)(a \<mapsto> ctx)\<rparr>) = clients r"
  by (auto simp: clients_def)

lemma reactor_ok_update:
  assumes "reactor_ok good r" "a \<in> clients r" "good ctx" "ctx_fd ctx \<noteq> listen_fd r"
  shows "reactor_ok good (r\<lparr>heap := (heap r)(a \<mapsto> ctx)\<rparr>)"
proof -
  have a: "a \<noteq> listen_fd_ctx r" "heap r a \<noteq> None" using assms(2) by (auto simp: clients_def)
  show ?thesis
    using assms a clients_update [OF a, of ctx] by (auto simp: reactor_ok_def)
qed

section \<open>The contract of a client\<close>

text \<open>A step on a context keeps the invariant, or ends in one of the crashes of the client.\<close>

definition keeps :: "(('u, 'b, 'c, 'd) yta_ctx \<Rightarrow> bool) \<Rightarrow> (crash \<Rightarrow> bool) \<Rightarrow> ('u, 'b, 'c, 'd) yta_ctx \<Rightarrow>
    (('u, 'b, 'c, 'd) yta_ctx \<times> 's \<times> kernel) outcome \<Rightarrow> bool" where
  "keeps good bad ctx res =
     (case res of
        Ret (ctx', _, _) \<Rightarrow> good ctx' \<and> ctx_fd ctx' = ctx_fd ctx
      | Fail _ \<Rightarrow> False
      | Crash x \<Rightarrow> bad x)"

lemma keeps_simps [simp]:
  "keeps good bad ctx (Ret (ctx', st, k)) \<longleftrightarrow> good ctx' \<and> ctx_fd ctx' = ctx_fd ctx"
  "keeps good bad ctx (Crash x) \<longleftrightarrow> bad x"
  "\<not> keeps good bad ctx (Fail n)"
  by (simp_all add: keeps_def)

lemma keeps_fd: "ctx_fd a = ctx_fd b \<Longrightarrow> keeps good bad a m = keeps good bad b m"
  by (auto simp: keeps_def split: outcome.splits)

lemma keeps_bind:
  assumes "keeps good bad ctx m"
    and "\<And>ctx' st k. m = Ret (ctx', st, k) \<Longrightarrow> good ctx' \<Longrightarrow> ctx_fd ctx' = ctx_fd ctx \<Longrightarrow>
      keeps good bad ctx' (f (ctx', st, k))"
  shows "keeps good bad ctx (obind m f)"
proof (cases m)
  case (Ret x)
  then obtain ctx' st k where x: "x = (ctx', st, k)" by (cases x)
  with assms(1) Ret have i: "good ctx'" "ctx_fd ctx' = ctx_fd ctx" by simp_all
  have "keeps good bad ctx' (f (ctx', st, k))" using assms(2) Ret x i by simp
  with i x Ret show ?thesis by (simp add: keeps_fd [of ctx ctx'])
qed (use assms(1) in simp_all)

locale event_client =
  fixes cl :: "('u, 'b, 'c, 'd) client"
    and accept_callback :: 'd
    and good :: "('u, 'b, 'c, 'd) yta_ctx \<Rightarrow> bool"
    and bad :: "crash \<Rightarrow> bool"
  assumes on_read: "good ctx \<Longrightarrow> read_callback ctx = Some c \<Longrightarrow> bs \<noteq> [] \<Longrightarrow>
      length bs \<le> unat (to_read ctx) \<Longrightarrow>
      \<exists>u u'. ctx_user_data ctx = Some u \<and> cl_store cl u (read_buf ctx) bs = Ret u' \<and>
        keeps good bad ctx (cl_io cl c (ctx\<lparr>ctx_user_data := Some u', read_callback := None\<rparr>)
          (read_buf ctx) (length bs) k)"
    and on_basic: "good ctx \<Longrightarrow> write_callback ctx \<noteq> None \<Longrightarrow> wtype ctx = BASIC_WTYPE \<Longrightarrow>
      \<exists>buf u. wdata ctx = Basic_data buf \<and> ctx_user_data ctx = Some u \<and>
        (\<forall>n \<le> unat (to_write ctx - already_written ctx).
           \<exists>bs. cl_load cl u (ptr_add buf (unat (already_written ctx))) n = Ret bs)"
    and on_sendfile: "good ctx \<Longrightarrow> write_callback ctx \<noteq> None \<Longrightarrow> wtype ctx = SENDFILE_WTYPE \<Longrightarrow>
      \<exists>fd. wdata ctx = Sendfile_data fd"
    and on_progress: "good ctx \<Longrightarrow> write_callback ctx \<noteq> None \<Longrightarrow>
      n \<le> unat (to_write ctx - already_written ctx) \<Longrightarrow>
      good (ctx\<lparr>already_written := already_written ctx + of_nat n\<rparr>)"
    and on_written: "good ctx \<Longrightarrow> write_callback ctx = Some c \<Longrightarrow> already_written ctx = to_write ctx \<Longrightarrow>
      keeps good bad ctx (cl_io cl c (ctx\<lparr>write_callback := None\<rparr>) buf n k)"
    and on_accept: "keeps good bad (new_ctx tmr fd) (cl_plain cl accept_callback (new_ctx tmr fd) k)"
    and on_close: "good ctx \<Longrightarrow> close_callback ctx = Some d \<Longrightarrow>
      (\<exists>r. cl_plain cl d ctx k = Ret r) \<or> (\<exists>x. cl_plain cl d ctx k = Crash x \<and> bad x)"
    and on_timer: "good ctx \<Longrightarrow> timer_fd ctx \<noteq> 0 \<Longrightarrow>
      \<exists>d. timer_callback ctx = Some d \<and> keeps good bad ctx (cl_plain cl d ctx k)"
    and bad_assert: "bad AssertFailed"
    and bad_exit: "bad (ProcessExit 1)"
begin

lemma read_loop_keeps: "good ctx \<Longrightarrow> keeps good bad ctx (read_loop cl as ctx k)"
proof (induction as arbitrary: ctx k)
  case (Cons a as)
  show ?case
  proof (cases "read_callback ctx")
    case (Some c)
    show ?thesis
    proof (cases a)
      case (Data bs)
      define xs where "xs = take (unat (to_read ctx)) bs"
      show ?thesis
      proof (cases "xs = []")
        case False
        then obtain u u' where u: "ctx_user_data ctx = Some u" "cl_store cl u (read_buf ctx) xs = Ret u'"
          and kp: "keeps good bad ctx (cl_io cl c (ctx\<lparr>ctx_user_data := Some u', read_callback := None\<rparr>)
             (read_buf ctx) (length xs) k)"
          using on_read [OF Cons.prems Some, of xs k] by (auto simp: xs_def)
        have "keeps good bad ctx (obind (cl_io cl c
             (ctx\<lparr>ctx_user_data := Some u', read_callback := None\<rparr>) (read_buf ctx) (length xs) k)
             (\<lambda>(ctx, st, k). if st \<noteq> YTA_OK then Ret (ctx, YTA_LOOP_ERROR, k) else read_loop cl as ctx k))"
          using Cons.IH by (intro keeps_bind [OF kp]) auto
        with Some Data False u show ?thesis by (simp add: xs_def [symmetric] Let_def the_user_def)
      qed (use Some Data Cons.prems in \<open>simp add: xs_def Let_def\<close>)
    qed (use Some Cons.prems in simp_all)
  qed (use Cons.prems in simp)
qed simp

lemma write_done_keeps:
  assumes "good ctx" "write_callback ctx = Some c" "n \<le> unat (to_write ctx - already_written ctx)"
  shows "keeps good bad ctx (write_done cl buf n ctx k)"
proof -
  define ctx1 where "ctx1 = ctx\<lparr>already_written := already_written ctx + of_nat n\<rparr>"
  have i: "good ctx1" "write_callback ctx1 = Some c" "ctx_fd ctx1 = ctx_fd ctx"
    using on_progress [OF assms(1) _ assms(3)] assms(2) by (simp_all add: ctx1_def)
  show ?thesis
  proof (cases "already_written ctx1 = to_write ctx1")
    case True
    have "keeps good bad ctx1 (obind (cl_io cl c (ctx1\<lparr>write_callback := None\<rparr>) buf
        (unat (already_written ctx1)) k) (\<lambda>(ctx, st, k).
          Ret (ctx, if st \<noteq> YTA_OK then YTA_LOOP_ERROR else YTA_LOOP_CONTINUE, k)))"
      by (intro keeps_bind [OF on_written [OF i(1,2) True]]) auto
    with True i show ?thesis
      by (simp add: write_done_def ctx1_def [symmetric] Let_def keeps_fd [of ctx ctx1])
  qed (use i in \<open>simp add: write_done_def ctx1_def [symmetric] Let_def\<close>)
qed

lemma write_handle_basic_keeps:
  assumes "good ctx" "write_callback ctx = Some c" "wtype ctx = BASIC_WTYPE"
  shows "keeps good bad ctx (write_handle_basic cl a ctx k)"
proof -
  obtain buf u where b: "wdata ctx = Basic_data buf" "ctx_user_data ctx = Some u"
    "\<forall>n \<le> unat (to_write ctx - already_written ctx).
       \<exists>bs. cl_load cl u (ptr_add buf (unat (already_written ctx))) n = Ret bs"
    using on_basic assms by (metis option.distinct(1))
  show ?thesis
  proof (cases a)
    case (Room room)
    define n where "n = min room (unat (to_write ctx - already_written ctx))"
    then have n: "n \<le> unat (to_write ctx - already_written ctx)" by simp
    with b(3) obtain bs where "cl_load cl u (ptr_add buf (unat (already_written ctx))) n = Ret bs" by blast
    with Room b bad_assert write_done_keeps [OF assms(1,2) n] show ?thesis
      by (simp add: write_handle_basic_def the_user_def n_def [symmetric] Let_def)
  qed (use b assms in \<open>simp_all add: write_handle_basic_def\<close>)
qed

lemma write_handle_sendfile_keeps:
  assumes "good ctx" "write_callback ctx = Some c" "wtype ctx = SENDFILE_WTYPE"
  shows "keeps good bad ctx (write_handle_sendfile cl a ctx k)"
proof -
  obtain fd where b: "wdata ctx = Sendfile_data fd" using on_sendfile assms by (metis option.distinct(1))
  show ?thesis
  proof (cases a)
    case (Room room)
    show ?thesis
    proof (cases "k_fds k fd")
      case (Some f)
      define bs where "bs = take (min room (unat (to_write ctx - already_written ctx)))
                           (drop (unat (already_written ctx)) (f_content f))"
      then have n: "length bs \<le> unat (to_write ctx - already_written ctx)" by simp
      with Room b bad_assert write_done_keeps [OF assms(1,2) n] Some show ?thesis
        by (simp add: write_handle_sendfile_def bs_def [symmetric] Let_def)
    qed (use b assms Room in \<open>simp add: write_handle_sendfile_def\<close>)
  qed (use b assms in \<open>simp_all add: write_handle_sendfile_def\<close>)
qed

lemma write_loop_keeps: "good ctx \<Longrightarrow> keeps good bad ctx (write_loop cl as ctx k)"
proof (induction as arbitrary: ctx k)
  case (Cons a as)
  show ?case
  proof (cases "write_callback ctx")
    case (Some c)
    have "keeps good bad ctx (if wtype ctx = BASIC_WTYPE then write_handle_basic cl a ctx k
       else write_handle_sendfile cl a ctx k)"
      using write_handle_basic_keeps [OF Cons.prems Some] write_handle_sendfile_keeps [OF Cons.prems Some]
      by (cases "wtype ctx") simp_all
    then have "keeps good bad ctx (obind (if wtype ctx = BASIC_WTYPE then write_handle_basic cl a ctx k
       else write_handle_sendfile cl a ctx k) (\<lambda>(ctx, st, k).
        if st = YTA_LOOP_CONTINUE then write_loop cl as ctx k else Ret (ctx, st, k)))"
      by (rule keeps_bind) (auto intro: Cons.IH)
    with Some show ?thesis by simp
  qed (use Cons.prems in simp)
qed simp

lemma serve_connection_keeps: "good ctx \<Longrightarrow> keeps good bad ctx (serve_connection cl e ctx k)"
  unfolding serve_connection_def
  by (rule keeps_bind) (auto intro: read_loop_keeps write_loop_keeps)


lemma cleanup_keeps:
  assumes "reactor_ok good r" "a \<in> clients r"
  shows "reactor_keeps good bad (touches_only a r) (cleanup_context cl a r k)"
proof -
  obtain ctx where c: "heap r a = Some ctx" "a \<noteq> listen_fd_ctx r" "good ctx"
    using assms by (auto simp: reactor_ok_def clients_def)
  have "finite (clients r)" using assms(1) by (simp add: reactor_ok_def clients_def)
  then have "0 < card (clients r)" using assms(2) card_gt_0_iff by blast
  then have card: "int (card (clients r)) - 1 = int (card (clients r - {a}))"
    by (simp add: card_Diff_singleton [OF assms(2)] of_nat_diff)
  have "reactor_ok good (r\<lparr>heap := (heap r)(a := None), current_clients := current_clients r - 1\<rparr>)"
  proof -
    have "clients (r\<lparr>heap := (heap r)(a := None), current_clients := current_clients r - 1\<rparr>) = clients r - {a}"
      by (auto simp: clients_def)
    then show ?thesis using assms(1) c card by (auto simp: reactor_ok_def)
  qed
  moreover have "touches_only a r (r\<lparr>heap := (heap r)(a := None), current_clients := current_clients r - 1\<rparr>)"
    by (simp add: touches_only_def)
  ultimately have step: "reactor_keeps good bad (touches_only a r) (Ret
      (r\<lparr>heap := (heap r)(a := None), current_clients := current_clients r - 1\<rparr>, k'))" for k' by simp
  define k1 where "k1 = (let k = sys_close (ctx_fd ctx) k
    in if timer_fd ctx \<noteq> 0 then sys_close (timer_fd ctx) k else k)"
  show ?thesis
  proof (cases "close_callback ctx")
    case None
    with c step show ?thesis by (simp add: cleanup_context_def free_ctx_def Let_def)
  next
    case (Some d)
    with on_close [OF c(3) Some, of k1] c step show ?thesis
      by (auto simp: cleanup_context_def free_ctx_def Let_def k1_def)
  qed
qed

lemma reactor_ok_insert:
  assumes "reactor_ok good r" "good ctx" "ctx_fd ctx \<noteq> listen_fd r"
  shows "reactor_ok good (r\<lparr>next_addr := next_addr r + 1, heap := (heap r)(next_addr r \<mapsto> ctx),
           current_clients := current_clients r + 1\<rparr>)"
proof -
  have n: "next_addr r \<notin> dom (heap r)" "next_addr r \<noteq> listen_fd_ctx r"
    using assms(1) by (auto simp: reactor_ok_def)
  have f: "finite (clients r)" using assms(1) by (simp add: reactor_ok_def clients_def)
  have c: "clients (r\<lparr>next_addr := next_addr r + 1, heap := (heap r)(next_addr r \<mapsto> ctx),
           current_clients := current_clients r + 1\<rparr>) = insert (next_addr r) (clients r)"
    using n by (auto simp: clients_def)
  have "next_addr r \<notin> clients r" using n by (simp add: clients_def)
  with f have "card (insert (next_addr r) (clients r)) = Suc (card (clients r))" by simp
  with assms n c show ?thesis by (auto simp: reactor_ok_def less_Suc_eq)
qed

lemma accept_loop_keeps:
  assumes "reactor_ok good r" "Accepted (listen_fd r) \<notin> set as"
  shows "reactor_keeps good bad (touches_only (listen_fd_ctx r) r) (accept_loop cl accept_callback as r k)"
  using assms
proof (induction as arbitrary: r k)
  case Nil
  then show ?case by (simp add: touches_only_def)
next
  case (Cons a as)
  have prepared: "P (obind (set_nonblock fd k) (\<lambda>k. obind (call_or_exit (No_delay fd) k) f))"
    if "P (Crash (ProcessExit 1))" "\<And>k'. P (f k')" for P f fd
    using set_nonblock_then [of "\<lambda>m. P (obind m (\<lambda>k. obind (call_or_exit (No_delay fd) k) f))"]
      call_or_exit_then [of P, OF that] that(1) by simp
  show ?case
  proof (cases a)
    case (Accepted fd)
    let ?r0 = "r\<lparr>next_addr := next_addr r + 1\<rparr>"
    have r0: "reactor_ok good ?r0" "touches_only (listen_fd_ctx r) r ?r0" "Accepted (listen_fd ?r0) \<notin> set as"
      using Cons.prems by (auto simp: reactor_ok_def clients_def touches_only_def less_Suc_eq)
    have trans: "reactor_keeps good bad (touches_only (listen_fd_ctx r) r) m"
      if "reactor_keeps good bad (touches_only (listen_fd_ctx r') r') m" "touches_only (listen_fd_ctx r) r r'" for m r'
      using that by (auto simp: reactor_keeps_def touches_only_def dom_def split: outcome.splits)
    show ?thesis unfolding Accepted accept_loop.simps
    proof (rule prepared)
      show "reactor_keeps good bad (touches_only (listen_fd_ctx r) r) (Crash (ProcessExit 1))"
        using bad_exit by simp
      fix k1
      let ?new = "new_ctx (timer_epoll_fd r) fd"
      note ac = on_accept [of "timer_epoll_fd r" fd k1]
      show "reactor_keeps good bad (touches_only (listen_fd_ctx r) r)
        (let a = next_addr r; r = r\<lparr>next_addr := a + 1\<rparr> in
         obind (cl_plain cl accept_callback (new_ctx (timer_epoll_fd r) fd) k1) (\<lambda>(udata, st, k).
           if st = YTA_EXIT then accept_loop cl accept_callback as r (sys_close fd k)
           else obind (call_or_exit (Epoll_added (socket_epoll_fd r) fd [EPOLLIN, EPOLLOUT, EPOLLET]) k) (\<lambda>k.
             accept_loop cl accept_callback as
               (r\<lparr>heap := (heap r)(a \<mapsto> udata), current_clients := current_clients r + 1\<rparr>) k)))"
      proof (cases "cl_plain cl accept_callback ?new k1")
        case (Ret x)
        then obtain ctx st k2 where x: "cl_plain cl accept_callback ?new k1 = Ret (ctx, st, k2)"
          by (cases x) simp
        let ?r1 = "r\<lparr>next_addr := next_addr r + 1, heap := (heap r)(next_addr r \<mapsto> ctx),
             current_clients := current_clients r + 1\<rparr>"
        have "good ctx" "ctx_fd ctx \<noteq> listen_fd r"
          using ac x Cons.prems(2) Accepted by (auto simp: new_ctx_def)
        then have r1: "reactor_ok good ?r1" by (rule reactor_ok_insert [OF Cons.prems(1)])
        have "next_addr r \<notin> dom (heap r)" using Cons.prems(1) by (auto simp: reactor_ok_def)
        then have "touches_only (listen_fd_ctx r) r ?r1" by (auto simp: touches_only_def)
        moreover have "Accepted (listen_fd ?r1) \<notin> set as" using Cons.prems(2) by simp
        ultimately show ?thesis
          using x bad_exit trans [OF Cons.IH [OF r1]] trans [OF Cons.IH [OF r0(1,3)] r0(2)]
            call_or_exit_cases [of "Epoll_added (socket_epoll_fd r) fd [EPOLLIN, EPOLLOUT, EPOLLET]" k2]
          by (auto simp: Let_def)
      qed (use ac bad_exit in \<open>auto simp: Let_def\<close>)
    qed
  next
    case (Accepted_no_memory fd)
    show ?thesis unfolding Accepted_no_memory accept_loop.simps
      by (rule prepared) (use bad_exit in simp_all)
  next
    case Accept_error
    then show ?thesis using Cons.prems by (simp add: touches_only_def)
  qed
qed

lemma serve_timer_keeps:
  assumes "reactor_ok good r" "timer_event_ok r e"
  shows "reactor_keeps good bad (touches_only (ev_ptr e) r) (serve_timer cl e r k)"
proof -
  obtain ctx where c: "heap r (ev_ptr e) = Some ctx" "timer_fd ctx \<noteq> 0" "ev_ptr e \<in> clients r"
    "good ctx" "ctx_fd ctx \<noteq> listen_fd r"
    using assms by (auto simp: timer_event_ok_def reactor_ok_def clients_def)
  show ?thesis
  proof (cases "hung_up e")
    case True
    then show ?thesis using cleanup_keeps [OF assms(1) c(3)] by (simp add: serve_timer_def)
  next
    case False
    then have i: "ev_in e" using assms(2) by (simp add: timer_event_ok_def)
    obtain d where d: "timer_callback ctx = Some d" "keeps good bad ctx (cl_plain cl d ctx k)"
      using on_timer [OF c(4,2)] by blast
    show ?thesis
    proof (cases "cl_plain cl d ctx k")
      case (Ret x)
      then obtain ctx1 st k1 where x: "cl_plain cl d ctx k = Ret (ctx1, st, k1)" by (cases x) simp
      let ?r1 = "r\<lparr>heap := (heap r)(ev_ptr e \<mapsto> ctx1)\<rparr>"
      have r1: "reactor_ok good ?r1" "ev_ptr e \<in> clients ?r1" "touches_only (ev_ptr e) r ?r1"
        using d x c reactor_ok_update [OF assms(1) c(3), of ctx1]
        by (auto simp: touches_only_def clients_def)
      have "reactor_keeps good bad (touches_only (ev_ptr e) r) (cleanup_context cl (ev_ptr e) ?r1 k1)"
        using cleanup_keeps [OF r1(1,2), of k1]
        by (auto simp: reactor_keeps_def touches_only_def split: outcome.splits)
      with False i c d x r1 show ?thesis by (simp add: serve_timer_def Let_def)
    qed (use False i c d in \<open>simp_all add: serve_timer_def\<close>)
  qed
qed

lemma serve_socket_keeps:
  assumes "reactor_ok good r" "socket_event_ok r e"
  shows "reactor_keeps good bad (touches_only (ev_ptr e) r) (serve_socket cl accept_callback e r k)"
proof -
  obtain ctx where c: "heap r (ev_ptr e) = Some ctx" using assms by (auto simp: socket_event_ok_def)
  show ?thesis
  proof (cases "ev_ptr e = listen_fd_ctx r")
    case True
    then have "\<not> terminated r" "ctx = new_ctx 0 (listen_fd r)" "\<not> hung_up e"
      "Accepted (listen_fd r) \<notin> set (ev_accepts e)"
      using c assms by (auto simp: reactor_ok_def socket_event_ok_def split: if_splits)
    then show ?thesis using c True accept_loop_keeps [OF assms(1)]
      by (simp add: serve_socket_def new_ctx_def)
  next
    case False
    then have cl: "ev_ptr e \<in> clients r" using c by (auto simp: clients_def)
    then have g: "good ctx" "ctx_fd ctx \<noteq> listen_fd r" using assms(1) c by (auto simp: reactor_ok_def)
    show ?thesis
    proof (cases "hung_up e")
      case True
      then show ?thesis using cleanup_keeps [OF assms(1) cl] by (simp add: serve_socket_def)
    next
      case nh: False
      note sc = serve_connection_keeps [OF g(1), of e k]
      show ?thesis
      proof (cases "serve_connection cl e ctx k")
        case (Ret x)
        then obtain ctx1 st k1 where x: "serve_connection cl e ctx k = Ret (ctx1, st, k1)" by (cases x) simp
        let ?r1 = "r\<lparr>heap := (heap r)(ev_ptr e \<mapsto> ctx1)\<rparr>"
        have r1: "reactor_ok good ?r1" "ev_ptr e \<in> clients ?r1" "touches_only (ev_ptr e) r ?r1"
          using sc x c cl g reactor_ok_update [OF assms(1) cl, of ctx1]
          by (auto simp: touches_only_def clients_def)
        have "reactor_keeps good bad (touches_only (ev_ptr e) r) (cleanup_context cl (ev_ptr e) ?r1 k1)"
          using cleanup_keeps [OF r1(1,2), of k1]
          by (auto simp: reactor_keeps_def touches_only_def split: outcome.splits)
        with nh c g x r1 show ?thesis by (simp add: serve_socket_def Let_def)
      qed (use nh c g sc in \<open>simp_all add: serve_socket_def\<close>)
    qed
  qed
qed

lemma serve_sockets_keeps:
  "reactor_ok good r \<Longrightarrow> distinct (map ev_ptr es) \<Longrightarrow> list_all (socket_event_ok r) es \<Longrightarrow>
   reactor_keeps good bad (\<lambda>r'. listen_fd r' = listen_fd r \<and> terminated r' = terminated r)
     (serve_sockets cl accept_callback es r k)"
proof (induction es arbitrary: r k)
  case (Cons e es)
  have "reactor_keeps good bad (touches_only (ev_ptr e) r) (serve_socket cl accept_callback e r k)"
    using Cons.prems by (intro serve_socket_keeps) simp_all
  then show ?case
  proof (cases "serve_socket cl accept_callback e r k")
    case (Ret x)
    then obtain r1 k1 where x: "serve_socket cl accept_callback e r k = Ret (r1, k1)" by (cases x) simp
    with \<open>reactor_keeps _ _ _ (serve_socket cl accept_callback e r k)\<close>
    have r1: "reactor_ok good r1" "touches_only (ev_ptr e) r r1" by simp_all
    have "socket_event_ok r1 x" if "x \<in> set es" for x
    proof -
      have "ev_ptr x \<noteq> ev_ptr e" using Cons.prems(2) that by (metis distinct.simps(2) imageI list.simps(9) list.set_map)
      then show ?thesis using touches_only_events(1) [OF r1(2)] Cons.prems(3) that by (simp add: list_all_iff)
    qed
    then have "list_all (socket_event_ok r1) es" by (simp add: list_all_iff)
    with Cons.IH [OF r1(1), of k1] Cons.prems r1(2) x show ?thesis
      by (auto simp: touches_only_def)
  qed simp_all
qed simp

lemma serve_timers_keeps:
  "reactor_ok good r \<Longrightarrow> distinct (map ev_ptr es) \<Longrightarrow> list_all (timer_event_ok r) es \<Longrightarrow>
   reactor_keeps good bad (\<lambda>r'. listen_fd r' = listen_fd r \<and> terminated r' = terminated r)
     (serve_timers cl es r k)"
proof (induction es arbitrary: r k)
  case (Cons e es)
  have "reactor_keeps good bad (touches_only (ev_ptr e) r) (serve_timer cl e r k)"
    using Cons.prems by (intro serve_timer_keeps) simp_all
  then show ?case
  proof (cases "serve_timer cl e r k")
    case (Ret x)
    then obtain r1 k1 where x: "serve_timer cl e r k = Ret (r1, k1)" by (cases x) simp
    with \<open>reactor_keeps _ _ _ (serve_timer cl e r k)\<close>
    have r1: "reactor_ok good r1" "touches_only (ev_ptr e) r r1" by simp_all
    have "timer_event_ok r1 x" if "x \<in> set es" for x
    proof -
      have "ev_ptr x \<noteq> ev_ptr e" using Cons.prems(2) that by (metis distinct.simps(2) imageI list.simps(9) list.set_map)
      then show ?thesis using touches_only_events(2) [OF r1(2)] Cons.prems(3) that by (simp add: list_all_iff)
    qed
    then have "list_all (timer_event_ok r1) es" by (simp add: list_all_iff)
    with Cons.IH [OF r1(1), of k1] Cons.prems r1(2) x show ?thesis
      by (auto simp: touches_only_def)
  qed simp_all
qed simp

lemma order_termination_keeps:
  assumes "reactor_ok good r" "\<not> terminated r"
  shows "reactor_keeps good bad terminated (order_termination r k)"
  using assms
  by (auto simp: order_termination_def free_ctx_def reactor_ok_def clients_def Let_def split: prod.splits)

lemma serve_step_keeps:
  assumes "reactor_ok good r" "master_event_ok r m"
  shows "reactor_keeps good bad (\<lambda>r'. terminated r' = (terminated r \<or> signalled r m))
    (serve_step cl accept_callback m (r, k))"
proof -
  consider (sockets) "me_fd m = socket_epoll_fd r"
    | (timers) "me_fd m \<noteq> socket_epoll_fd r" "me_fd m = timer_epoll_fd r"
    | (signal) "me_fd m \<noteq> socket_epoll_fd r" "me_fd m \<noteq> timer_epoll_fd r" "me_fd m = signal_fd r"
    | (other) "me_fd m \<noteq> socket_epoll_fd r" "me_fd m \<noteq> timer_epoll_fd r" "me_fd m \<noteq> signal_fd r"
    by blast
  then show ?thesis
  proof cases
    case sockets
    then show ?thesis using assms serve_sockets_keeps [OF assms(1), of "me_events m" k]
      by (auto simp: serve_step_def master_event_ok_def signalled_def elim: reactor_keeps_weaken)
  next
    case timers
    then show ?thesis using assms serve_timers_keeps [OF assms(1), of "me_events m" k]
      by (auto simp: serve_step_def master_event_ok_def signalled_def elim: reactor_keeps_weaken)
  next
    case signal
    then show ?thesis using assms order_termination_keeps [OF assms(1), of k]
      by (auto simp: serve_step_def master_event_ok_def signalled_def elim: reactor_keeps_weaken)
  next
    case other
    then show ?thesis using assms by (simp add: serve_step_def signalled_def)
  qed
qed

end

section \<open>Reachable states of the worker\<close>

inductive reachable :: "('u, 'b, 'c, 'd) client \<Rightarrow> 'd \<Rightarrow> ('u, 'b, 'c, 'd) world \<Rightarrow> bool"
  for cl :: "('u, 'b, 'c, 'd) client" and accept_callback :: 'd where
  start: "create_reactor fd k = Ret w \<Longrightarrow> reachable cl accept_callback w"
| step: "reachable cl accept_callback (r, k) \<Longrightarrow> \<not> (terminated r \<and> current_clients r = 0) \<Longrightarrow>
    master_event_ok r m \<Longrightarrow> serve_step cl accept_callback m (r, k) = Ret w \<Longrightarrow>
    reachable cl accept_callback w"

inductive_cases reachableE: "reachable cl accept_callback w"

lemma create_reactor_result: "create_reactor fd k = Ret (r, k') \<Longrightarrow>
   \<exists>s t g m. r = \<lparr>listen_fd = fd, listen_fd_ctx = 0, socket_epoll_fd = s, timer_epoll_fd = t,
           signal_fd = g, master_epoll_fd = m, current_clients = 0, terminated = False,
           heap = [0 \<mapsto> new_ctx 0 fd], next_addr = 1\<rparr>"
  by (auto simp: create_reactor_def obind_Ret_iff)

lemma create_reactor_ok: "create_reactor fd k = Ret (r, k') \<Longrightarrow> reactor_ok good r"
  by (drule create_reactor_result) (auto simp: reactor_ok_def clients_def split: if_splits)

context event_client begin

lemma reachable_ok: "reachable cl accept_callback w \<Longrightarrow> reactor_ok good (fst w)"
proof (induction rule: reachable.induct)
  case (start fd k w)
  then show ?case by (cases w) (simp add: create_reactor_ok)
next
  case (step r k m w)
  then have "reactor_keeps good bad (\<lambda>r'. terminated r' = (terminated r \<or> signalled r m))
    (serve_step cl accept_callback m (r, k))" by (intro serve_step_keeps) simp_all
  with step(4) show ?case by (cases w) simp
qed

lemma reachable_step:
  assumes "reachable cl accept_callback (r, k)" "master_event_ok r m"
  shows "reactor_keeps good bad (\<lambda>r'. terminated r' = (terminated r \<or> signalled r m))
    (serve_step cl accept_callback m (r, k))"
  using reachable_ok [OF assms(1)] assms(2) by (intro serve_step_keeps) simp_all

end

text \<open>The signal branch taken again finds the listening context freed.\<close>

lemma order_termination_twice:
  "reactor_ok good r \<Longrightarrow> terminated r \<Longrightarrow> order_termination r k = Crash BadFree"
  by (simp add: order_termination_def free_ctx_def reactor_ok_def Let_def split: prod.splits)

end
