(* ===== verification/Yotta_Safety.thy ===== *)
theory Yotta_Safety
  imports Yotta_Server Http_Path_Correct Event_Safety
begin

text \<open>
  The file server keeps the contract of the event loop: whatever the requests, the files and the
  kernel do, its callbacks and the loops stay inside the arrays of the connection, use no freed
  memory and no null pointer of the program.  The crashes that remain are listed in \<open>yotta_crash\<close>.
\<close>

section \<open>Outcomes of strptime\<close>

definition only_overrun :: "'a outcome \<Rightarrow> bool" where
  "only_overrun m \<longleftrightarrow> (\<forall>r. m \<noteq> Fail r) \<and> (\<forall>k. m = Crash k \<longrightarrow> k = UnboundedRead)"

lemma only_overrun_simps [simp]:
  "only_overrun (Ret x)" "\<not> only_overrun (Fail r)" "only_overrun (Crash k) \<longleftrightarrow> k = UnboundedRead"
  by (auto simp: only_overrun_def)

lemma only_overrun_bind: "only_overrun m \<Longrightarrow> (\<And>x. only_overrun (f x)) \<Longrightarrow> only_overrun (obind m f)"
  by (cases m) auto

lemma only_overrun_then: "only_overrun m \<Longrightarrow> (\<And>x. only_overrun (f x)) \<Longrightarrow> only_overrun (then_parse m f)"
  by (cases m) (auto simp: then_parse_def split: option.splits)

lemma only_overrun_prims:
  "only_overrun (next_char s)" "only_overrun (skip_while P s)" "only_overrun (match_nocase xs s)"
  "only_overrun (more_digits lim n v s)" "only_overrun (literal c s)" "only_overrun (get_number a b n s)"
proof -
  show n: "only_overrun (next_char s)" for s by (cases s) simp_all
  show k: "only_overrun (skip_while P s)" for P s by (induction s) simp_all
  show "only_overrun (match_nocase xs s)" by (induction xs s rule: match_nocase.induct) simp_all
  show m: "only_overrun (more_digits lim n v s)" for lim n v s
    by (induction s arbitrary: n v) simp_all
  show "only_overrun (literal c s)"
    unfolding literal_def by (intro only_overrun_bind n) (auto split: prod.splits)
  show "only_overrun (get_number a b n s)"
    unfolding get_number_def
    by (intro only_overrun_bind n k) (auto split: prod.splits intro!: only_overrun_bind m)
qed

lemma only_overrun_names: "only_overrun (match_name i names s)"
  by (induction names arbitrary: i)
     (auto intro!: only_overrun_bind only_overrun_prims split: option.splits)

lemma strptime_overrun: "only_overrun (strptime s)"
  unfolding strptime_def
  by (intro only_overrun_then only_overrun_bind only_overrun_prims only_overrun_names
      allI only_overrun_simps | (split prod.splits, intro allI impI))+

section \<open>The file name\<close>

text \<open>The name the request path stands for.\<close>

definition file_name :: "char list \<Rightarrow> char list" where
  "file_name path =
     (let s = CHR ''.'' # clean_spec path;
          s = (if last path = CHR ''/'' \<and> length s \<noteq> 2 then s @ ''/'' else s)
      in if last s = CHR ''/'' then s @ ''index.html'' else s)"

lemma copy_out_fits: "w + length s \<le> length a \<Longrightarrow>
   copy_out s (a, w) = Ret (take w a @ s @ drop (w + length s) a, w + length s)"
  by (simp add: copy_out_def)

lemma put_fits: "w < length a \<Longrightarrow> put c (a, w) = Ret (a[w := c], Suc w)"
  by (simp add: put_def)

lemma normalize_url_result:
  assumes "path \<noteq> []" "length path \<le> 1004"
  shows "\<exists>np n. normalize_url path = Ret (np, n) \<and> length np = 1024 \<and> n \<le> 1020 \<and>
    take n np = file_name path"
proof -
  define np0 where "np0 = (replicate MAX_URL_SIXE NUL)[0 := CHR ''.'']"
  have "max 1 (length path) \<le> length (drop 1 np0)"
    using assms by (cases path) (simp_all add: np0_def MAX_URL_SIXE_def)
  from clean_path_refines [OF this] obtain np' w where
    C: "clean_path path (drop 1 np0) = Ret (np', w)" "take w np' = clean_spec path" "0 < w"
      "w \<le> max 1 (length path)" "length np' = 1023" by (auto simp: np0_def MAX_URL_SIXE_def)
  define np1 where "np1 = take 1 np0 @ np'"
  have t1: "take (Suc 0) np0 = ''.''"
    using take_Suc_conv_app_nth [of 0 np0] by (simp add: np0_def MAX_URL_SIXE_def)
  have np1: "length np1 = 1024" "take (Suc w) np1 = CHR ''.'' # clean_spec path" "w \<le> 1004"
    using C assms t1 by (auto simp: np1_def)
  have lc: "length (clean_spec path) = w" using C(5) np1(3) by (simp add: C(2) [symmetric])
  define np2n where "np2n = (if last path = CHR ''/'' \<and> Suc w \<noteq> 2 then (np1[Suc w := CHR ''/''], Suc (Suc w)) else (np1, Suc w))"
  obtain np2 n2 where n2: "np2n = (np2, n2)" by fastforce
  have np2: "length np2 = 1024" "n2 \<le> 1006" "0 < n2"
    "take n2 np2 = (if last path = CHR ''/'' \<and> length (CHR ''.'' # clean_spec path) \<noteq> 2
       then (CHR ''.'' # clean_spec path) @ ''/'' else CHR ''.'' # clean_spec path)"
    using n2 np1 lc by (auto simp: np2n_def take_Suc_conv_app_nth split: if_splits)
  have last2: "np2 ! (n2 - 1) = last (take n2 np2)"
  proof -
    have "take n2 np2 \<noteq> []" using np2(1,3) by (cases np2) auto
    then show ?thesis using np2(1-3) by (simp add: last_conv_nth)
  qed
  have "normalize_url path = (if np2 ! (n2 - 1) = CHR ''/''
      then Ret (take n2 np2 @ (''index.html'' @ [NUL]) @ drop (n2 + 11) np2, n2 + 10) else Ret (np2, n2))"
  proof -
    have "rd path (length path - Suc 0) = Ret (last path)"
      using assms(1) by (simp add: last_conv_nth)
    moreover have "(if last path = CHR ''/'' \<and> Suc w \<noteq> 2 then put (CHR ''/'') (np1, Suc w)
       else Ret (np1, Suc w)) = Ret (np2, n2)"
    proof -
      define P where "P = (last path = CHR ''/'' \<and> Suc w \<noteq> 2)"
      show ?thesis using n2 np1(1,3) unfolding np2n_def P_def [symmetric]
        by (cases P) (simp_all add: put_fits)
    qed
    moreover have "rd np2 (n2 - Suc 0) = Ret (np2 ! (n2 - Suc 0))" using np2 by simp
    moreover have "copy_out (''index.html'' @ [NUL]) (np2, n2) =
      Ret (take n2 np2 @ (''index.html'' @ [NUL]) @ drop (n2 + 11) np2, n2 + 11)"
    proof -
      obtain L where L: "L = ''index.html'' @ [NUL]" "length L = 11" by simp
      show ?thesis unfolding L(1) [symmetric]
        using copy_out_fits [of n2 L np2] L(2) np2(1,2) by simp
    qed
    ultimately show ?thesis
      unfolding normalize_url_def Let_def np0_def [symmetric] C(1) obind.simps prod.case
        np1_def [symmetric] plus_1_eq_Suc by (simp split del: if_split) simp
  qed
  moreover have "take (n2 + 10) (take n2 np2 @ (''index.html'' @ [NUL]) @ drop (n2 + 11) np2) =
     take n2 np2 @ ''index.html''"
  proof -
    have "length X = n2 \<Longrightarrow> take (n2 + 10) (X @ (''index.html'' @ [NUL]) @ r) = X @ ''index.html''" for X r
      by simp
    then show ?thesis using np2(1,2) by simp
  qed
  moreover have "file_name path =
     (if np2 ! (n2 - 1) = CHR ''/'' then take n2 np2 @ ''index.html'' else take n2 np2)"
    unfolding file_name_def Let_def last2 np2(4) by simp
  moreover have "length (take n2 np2 @ (''index.html'' @ [NUL]) @ drop (n2 + 11) np2) = 1024"
    using np2(1,2) by simp
  moreover have "n2 + 10 \<le> 1020" "n2 \<le> 1020" using np2(2) by simp_all
  ultimately show ?thesis
    using np2(1) by (cases "np2 ! (n2 - 1) = CHR ''/''") (metis, metis)
qed

section \<open>The invariant of a connection\<close>

fun yotta_crash :: "crash \<Rightarrow> bool" where
  "yotta_crash SignedOverflow = True"       \<comment> \<open>minor version, range arithmetic\<close>
| "yotta_crash UncaughtException = True"    \<comment> \<open>\<^verbatim>\<open>stoi\<close>\<close>
| "yotta_crash AssertFailed = True"         \<comment> \<open>nothing to send\<close>
| "yotta_crash UnboundedRead = True"        \<comment> \<open>\<^verbatim>\<open>strptime\<close>\<close>
| "yotta_crash LibraryNull = True"          \<comment> \<open>\<^verbatim>\<open>gmtime\<close> of a year beyond \<^verbatim>\<open>int\<close>\<close>
| "yotta_crash (ProcessExit n) = (n = 1)"
| "yotta_crash _ = False"

definition user_ok :: "user_data \<Rightarrow> bool" where
  "user_ok u \<longleftrightarrow>
     length (buf u) = 2048 \<and> length (response_buf u) = 2048 \<and>
     length (headers (parser u)) = 30 \<and> num_headers (parser u) \<le> 30 \<and>
     (finalized u \<longrightarrow> unat (response_size u) \<le> 2048) \<and> length (extension u) \<le> 100"

definition read_ok :: "yotta_ctx \<Rightarrow> user_data \<Rightarrow> bool" where
  "read_ok ctx u \<longleftrightarrow>
     (read_callback ctx = None \<or>
      read_callback ctx = Some Read_callback_http \<and> read_buf ctx = At Buf (unat (counter u)) \<and>
      unat (counter u) + unat (to_read ctx) = 2048)"

definition write_ok :: "yotta_ctx \<Rightarrow> bool" where
  "write_ok ctx \<longleftrightarrow>
     (case write_callback ctx of
        None \<Rightarrow> True
      | Some Write_header_callback \<Rightarrow>
          wtype ctx = BASIC_WTYPE \<and> wdata ctx = Basic_data (At Response_buf 0) \<and>
          already_written ctx \<le> to_write ctx \<and> unat (to_write ctx) \<le> 2048
      | Some Http_finish_callback \<Rightarrow>
          wtype ctx = SENDFILE_WTYPE \<and> (\<exists>fd. wdata ctx = Sendfile_data fd)
      | Some Read_callback_http \<Rightarrow> False)"

definition yotta_ok :: "yotta_ctx \<Rightarrow> bool" where
  "yotta_ok ctx \<longleftrightarrow>
     (\<exists>u. ctx_user_data ctx = Some u \<and> user_ok u \<and> read_ok ctx u \<and> write_ok ctx) \<and>
     close_callback ctx = Some Http_cleanup \<and> timer_callback ctx = Some Timer_callback"

section \<open>The responses stay in their buffer\<close>

text \<open>A step on the user data that leaves the request, the parser and the position alone.\<close>

definition user_keeps :: "user_data \<Rightarrow> user_data outcome \<Rightarrow> bool" where
  "user_keeps u m =
     (case m of
        Ret u' \<Rightarrow> user_ok u' \<and> buf u' = buf u \<and> parser u' = parser u \<and> counter u' = counter u
      | Fail _ \<Rightarrow> False
      | Crash x \<Rightarrow> yotta_crash x)"

lemma user_keeps_simps [simp]:
  "user_keeps u (Ret u') \<longleftrightarrow> user_ok u' \<and> buf u' = buf u \<and> parser u' = parser u \<and> counter u' = counter u"
  "user_keeps u (Crash x) \<longleftrightarrow> yotta_crash x"
  "\<not> user_keeps u (Fail r)"
  by (simp_all add: user_keeps_def)

lemma respond_appends:
  assumes "appends text srv" "length text < length (response_buf u)"
  shows "\<exists>a. respond c srv u = Ret (u\<lparr>response_buf := a, response_size := of_nat (length text),
      content := c, finalized := True\<rparr>) \<and>
    length a = length (response_buf u) \<and> take (length text) a = text"
proof -
  have "0 + length text < length (response_buf u)" using assms(2) by simp
  then obtain a where "srv (response_buf u, 0) = Ret (a, 0 + length text)"
    "length a = length (response_buf u)" "take (0 + length text) a = take 0 (response_buf u) @ text"
    using assms(1) unfolding appends_def by blast
  then show ?thesis by (auto simp: respond_def)
qed

lemma unat_small: "n < 2 ^ 64 \<Longrightarrow> unat (of_nat n :: size_t) = n"
  by (simp add: unat_of_nat)

lemma respond_keeps:
  assumes "user_ok u" "appends text srv" "length text < 2048"
  shows "user_keeps u (respond c srv u)"
  using respond_appends [OF assms(2), of u c] assms
  by (auto simp: user_ok_def unat_small)

lemma serve_4xx_appends:
  "\<exists>text. appends text serve_400 \<and> length text < 2048"
  "\<exists>text. appends text serve_404 \<and> length text < 2048"
  "\<exists>text. appends text serve_304 \<and> length text < 2048"
  unfolding serve_400_def serve_404_def serve_304_def by (rule exI, rule conjI, rule appends_copy_out, simp)+

lemma return_400_keeps: "user_ok u \<Longrightarrow> user_keeps u (return_400 u)"
  and return_404_keeps: "user_ok u \<Longrightarrow> user_keeps u (return_404 u)"
  and respond_304_keeps: "user_ok u \<Longrightarrow> user_keeps u (respond False serve_304 u)"
  using serve_4xx_appends unfolding return_400_def return_404_def by (blast intro: respond_keeps)+

text \<open>A date that \<^verbatim>\<open>gmtime\<close> cannot convert.\<close>

lemma put_date_null: "\<not> year_fits t \<Longrightarrow> put_date t out = Crash LibraryNull"
  by (auto simp: put_date_def year_fits_def Let_def)

lemma serve_200_null:
  "\<not> year_fits t \<Longrightarrow> 100 \<le> length a \<Longrightarrow> serve_200 n t ct (a, 0) = Crash LibraryNull"
  by (simp add: serve_200_def copy_out_def put_date_null)

lemma serve_206_null:
  "\<not> year_fits t \<Longrightarrow> 100 \<le> length a \<Longrightarrow> serve_206 n t x y z (a, 0) = Crash LibraryNull"
  by (simp add: serve_206_def copy_out_def put_date_null)

lemma unat_less_2_64: "unat (w :: size_t) < 2 ^ 64"
  using unsigned_less [of w] by simp

lemma respond_200_keeps:
  assumes "user_ok u" "length ct \<le> 100"
  shows "user_keeps u (respond c (serve_200 (unat (w :: size_t)) t ct) u)"
proof (cases "year_fits t")
  case True
  have "length (text_200 (unat w) t ct) < 2048"
    using length_text_200 [OF True unat_less_2_64, of w ct] assms(2) by simp
  with serve_200_appends [OF True] show ?thesis by (blast intro: respond_keeps assms(1))
next
  case False
  then show ?thesis using assms(1) by (simp add: respond_def serve_200_null user_ok_def)
qed

lemma respond_206_keeps:
  assumes "user_ok u"
  shows "user_keeps u (respond c (serve_206 (unat (w :: size_t)) t (unat (x :: size_t)) (unat (y :: size_t)) (unat (z :: size_t))) u)"
proof (cases "year_fits t")
  case True
  have "length (text_206 (unat w) t (unat x) (unat y) (unat z)) < 2048"
    using length_text_206 [OF True unat_less_2_64 unat_less_2_64 unat_less_2_64 unat_less_2_64, of w x y z] by simp
  with serve_206_appends [OF True] show ?thesis by (blast intro: respond_keeps assms)
next
  case False
  then show ?thesis using assms by (simp add: respond_def serve_206_null user_ok_def)
qed

section \<open>Choosing the response\<close>

lemma content_type_short: "length (content_type v) \<le> 100"
proof -
  have "\<forall>x \<in> set mime_types. length (snd x) \<le> 100" by (simp add: mime_types_def)
  then show ?thesis
    by (auto simp: content_type_def Let_def split: option.splits dest!: map_of_SomeD)
qed

definition user_of :: "(user_data \<times> 'k) outcome \<Rightarrow> user_data outcome" where
  "user_of m = obind m (\<lambda>(u, _). Ret u)"

lemma user_of_simps [simp]: "user_of (Ret (u, k)) = Ret u" "user_of (Crash x) = Crash x"
  by (simp_all add: user_of_def)

lemma keeps_404: "user_ok u \<Longrightarrow> user_keeps u (user_of (obind (return_404 u) (\<lambda>u. Ret (u, k))))"
  using return_404_keeps [of u] by (cases "return_404 u") (simp_all add: user_of_def)

lemma parse_url_keeps:
  assumes "user_ok u"
  shows "user_keeps u (user_of (parse_url path u k))"
proof -
  define p where "p = takeWhile (\<lambda>c. c \<noteq> CHR ''?'') path"
  show ?thesis
  proof (cases "MAX_URL_SIXE - 20 < length p \<or> length p = 0")
    case True
    then have "parse_url path u k = obind (return_404 u) (\<lambda>u. Ret (u, k))"
      unfolding parse_url_def Let_def p_def [symmetric] by (simp only: if_True)
    then show ?thesis using keeps_404 [OF assms] by simp
  next
    case False
    then have "p \<noteq> []" "length p \<le> 1004" by (auto simp: MAX_URL_SIXE_def)
    then obtain np n where np: "normalize_url p = Ret (np, n)" using normalize_url_result by blast
    have ok: "user_ok (u\<lparr>extension := content_type v, file_fd := fd, file_size := sz, file_stat := st\<rparr>)"
      for v fd sz st using assms content_type_short by (simp add: user_ok_def)
    obtain fd k1 where op: "sys_open (takeWhile (\<lambda>c. c \<noteq> NUL) np) k = (fd, k1)" by fastforce
    show ?thesis
      using False ok unfolding parse_url_def Let_def p_def [symmetric]
      by (simp add: np op keeps_404 [OF assms] split: option.splits)
  qed
qed

definition bool_of :: "(bool \<times> user_data) outcome \<Rightarrow> user_data outcome" where
  "bool_of m = obind m (\<lambda>(_, u). Ret u)"

lemma bool_of_simps [simp]: "bool_of (Ret (b, u)) = Ret u" "bool_of (Crash x) = Crash x"
  "bool_of (obind m (\<lambda>u. Ret (b, u))) = m"
  by (cases m, simp_all add: bool_of_def)+

lemma if_modified_keeps:
  assumes "user_ok u"
  shows "user_keeps u (bool_of (handle_if_modified_since v u))"
proof (cases "strptime (drop v (buf u))")
  case (Ret x)
  then show ?thesis
    using return_400_keeps [OF assms] respond_304_keeps [OF assms] assms
    by (cases x) (auto simp: handle_if_modified_since_def return_400_def)
qed (use strptime_overrun [of "drop v (buf u)"] in \<open>auto simp: handle_if_modified_since_def\<close>)

lemma stoi_cases: "(\<exists>x. stoi s = Ret x \<and> fits_int x) \<or> stoi s = Crash UncaughtException"
  by (auto simp: stoi_def split: prod.splits)

lemma int_op_cases: "int_op x = Ret x \<or> int_op x = Crash SignedOverflow"
  by (simp add: int_op_def)

lemma keeps_if:
  "(b \<Longrightarrow> user_keeps u (bool_of x)) \<Longrightarrow> (\<not> b \<Longrightarrow> user_keeps u (bool_of y)) \<Longrightarrow>
   user_keeps u (bool_of (if b then x else y))"
  by simp

lemma keeps_stoi:
  "(\<And>x. user_keeps u (bool_of (f x))) \<Longrightarrow> user_keeps u (bool_of (obind (stoi s) f))"
  using stoi_cases [of s] by auto

lemma keeps_stoi_if:
  "(\<And>x. user_keeps u (bool_of (f x))) \<Longrightarrow>
   user_keeps u (bool_of (obind (if b then Ret y else stoi s) f))"
  using stoi_cases [of s] by auto

lemma keeps_int_op:
  "(\<And>x. user_keeps u (bool_of (f x))) \<Longrightarrow> user_keeps u (bool_of (obind (int_op x) f))"
  using int_op_cases [of x] by auto

lemma user_keeps_same:
  "user_keeps u2 m \<Longrightarrow> buf u2 = buf u \<Longrightarrow> parser u2 = parser u \<Longrightarrow> counter u2 = counter u \<Longrightarrow> user_keeps u m"
  by (auto simp: user_keeps_def split: outcome.splits)

lemma range_keeps:
  assumes "user_ok u"
  shows "user_keeps u (bool_of (handle_range v u))"
proof -
  have r: "user_keeps u (bool_of (obind (respond True (serve_206 (unat (n :: size_t)) t
      (unat (x :: size_t)) (unat (y :: size_t)) (unat (z :: size_t))) (u\<lparr>file_size := a, offset := b\<rparr>))
      (\<lambda>u. Ret (True, u))))" for a b n t x y z
  proof -
    have "user_ok (u\<lparr>file_size := a, offset := b\<rparr>)" using assms by (simp add: user_ok_def)
    from respond_206_keeps [OF this] show ?thesis
      unfolding bool_of_simps by (rule user_keeps_same) simp_all
  qed
  have f: "user_keeps u (bool_of (obind (return_400 u) (\<lambda>u. Ret (True, u))))"
    using return_400_keeps [OF assms] by simp
  show ?thesis
    unfolding handle_range_def Let_def by (intro keeps_if keeps_stoi keeps_stoi_if keeps_int_op r f)
qed

lemma header_handler_keeps: "user_ok u \<Longrightarrow> user_keeps u (bool_of (call_header_handler hh h u))"
  by (cases hh) (simp_all add: call_header_handler_def if_modified_keeps range_keeps)

lemma header_loop_keeps: "user_ok u \<Longrightarrow> user_keeps u (bool_of (header_loop hs u))"
proof (induction hs arbitrary: u)
  case (Cons h hs)
  show ?case
  proof (cases "map_of header_callbacks (header_text u h)")
    case (Some hh)
    have k: "user_keeps u (bool_of (call_header_handler hh h u))"
      by (rule header_handler_keeps [OF Cons.prems])
    show ?thesis
    proof (cases "call_header_handler hh h u")
      case (Ret x)
      then obtain b u' where x: "call_header_handler hh h u = Ret (b, u')" by (cases x) auto
      with k have "user_ok u'" "buf u' = buf u" "parser u' = parser u" "counter u' = counter u" by simp_all
      with Cons.IH [of u'] have "user_keeps u (bool_of (header_loop hs u'))"
        by (auto intro: user_keeps_same)
      with x k Some Cons.prems show ?thesis by simp
    qed (use k Some Cons.prems in \<open>simp_all add: bool_of_def\<close>)
  qed (use Cons in simp)
qed simp

lemma http_parse_headers_keeps:
  assumes "user_ok u"
  shows "user_keeps u (http_parse_headers u)"
proof -
  let ?m = "header_loop (take (num_headers (parser u)) (headers (parser u))) u"
  note k = header_loop_keeps [OF assms, of "take (num_headers (parser u)) (headers (parser u))"]
  show ?thesis
  proof (cases ?m)
    case (Ret x)
    then obtain b u' where x: "?m = Ret (b, u')" by (cases x) auto
    with k have u': "user_ok u'" "buf u' = buf u" "parser u' = parser u" "counter u' = counter u" by simp_all
    then have "length (extension u') \<le> 100" by (simp add: user_ok_def)
    from respond_200_keeps [OF u'(1) this] u' x show ?thesis
      by (auto simp: http_parse_headers_def intro: user_keeps_same)
  qed (use k in \<open>simp_all add: http_parse_headers_def bool_of_def\<close>)
qed

section \<open>The callbacks keep the invariant\<close>

abbreviation keeps_yotta where "keeps_yotta \<equiv> keeps yotta_ok yotta_crash"

lemma write_ok_same:
  "write_callback c = write_callback c' \<Longrightarrow> wtype c = wtype c' \<Longrightarrow> wdata c = wdata c' \<Longrightarrow>
   already_written c = already_written c' \<Longrightarrow> to_write c = to_write c' \<Longrightarrow> write_ok c = write_ok c'"
  by (simp add: write_ok_def split: option.splits io_callback.splits)

lemma accept_logic_ok:
  assumes "length (buf u) = 2048" "length (response_buf u) = 2048" "length (extension u) \<le> 100"
    and "close_callback ctx = Some Http_cleanup" "timer_callback ctx = Some Timer_callback"
    and "write_ok ctx"
  shows "yotta_ok (accept_logic u ctx) \<and> ctx_fd (accept_logic u ctx) = ctx_fd ctx"
proof -
  have "write_ok (accept_logic u ctx)"
    using assms(6) write_ok_same [of "accept_logic u ctx" ctx]
    by (simp add: accept_logic_def Let_def yta_async_read_def)
  with assms(1-5) show ?thesis
    by (simp add: accept_logic_def yotta_ok_def yta_async_read_def user_ok_def read_ok_def
        fresh_request_def MAX_HEADERS_def MAX_BUFFER_SIZE_def Let_def)
qed

lemma close_file_keeps: "close_file u k = (u', k') \<Longrightarrow>
   buf u' = buf u \<and> response_buf u' = response_buf u \<and> extension u' = extension u"
  by (auto simp: close_file_def split: if_splits)

lemma http_finish_keeps:
  assumes "ctx_user_data ctx = Some u" "user_ok u" "close_callback ctx = Some Http_cleanup"
    "timer_callback ctx = Some Timer_callback" "write_ok ctx"
  shows "keeps_yotta ctx (http_finish_callback ctx k)"
proof -
  obtain u' k' where c: "close_file u k = (u', k')" by fastforce
  have "yotta_ok (accept_logic u' ctx) \<and> ctx_fd (accept_logic u' ctx) = ctx_fd ctx"
    using close_file_keeps [OF c] assms(2) by (intro accept_logic_ok assms(3-5)) (auto simp: user_ok_def)
  with c assms(1) call_or_exit_cases [of "Corked (ctx_fd ctx) False" k'] show ?thesis
    by (auto simp: http_finish_callback_def the_user_def set_cork_def)
qed

lemma write_header_keeps:
  assumes "yotta_ok ctx"
  shows "keeps_yotta ctx (write_header_callback (ctx\<lparr>write_callback := None\<rparr>) k)"
proof -
  obtain u where u: "ctx_user_data ctx = Some u" "user_ok u" "read_ok ctx u"
    "close_callback ctx = Some Http_cleanup" "timer_callback ctx = Some Timer_callback"
    using assms by (auto simp: yotta_ok_def)
  show ?thesis
  proof (cases "content u")
    case True
    then show ?thesis using u
      by (simp add: write_header_callback_def the_user_def yta_async_sendfile_def yotta_ok_def
          read_ok_def write_ok_def)
  next
    case False
    have "keeps_yotta (ctx\<lparr>write_callback := None\<rparr>) (http_finish_callback (ctx\<lparr>write_callback := None\<rparr>) k)"
      using u by (intro http_finish_keeps [of _ u]) (simp_all add: write_ok_def)
    then show ?thesis using u False
      by (simp add: write_header_callback_def the_user_def keeps_fd [of ctx "ctx\<lparr>write_callback := None\<rparr>"])
  qed
qed

lemma finish_written_keeps:
  assumes "yotta_ok ctx"
  shows "keeps_yotta ctx (http_finish_callback (ctx\<lparr>write_callback := None\<rparr>) k)"
proof -
  obtain u where u: "ctx_user_data ctx = Some u" "user_ok u"
    "close_callback ctx = Some Http_cleanup" "timer_callback ctx = Some Timer_callback"
    using assms by (auto simp: yotta_ok_def)
  have "keeps_yotta (ctx\<lparr>write_callback := None\<rparr>) (http_finish_callback (ctx\<lparr>write_callback := None\<rparr>) k)"
    using u by (intro http_finish_keeps [of _ u]) (simp_all add: write_ok_def)
  then show ?thesis by (simp add: keeps_fd [of ctx "ctx\<lparr>write_callback := None\<rparr>"])
qed

lemma decide_keeps:
  assumes "user_ok u" "parsed > 0 \<Longrightarrow> rq_path (parser u) \<noteq> None"
  shows "user_keeps u (user_of (decide parsed u k))"
proof -
  consider (bad) "parsed = -1" | (request) "parsed > 0" | (more) "parsed \<noteq> -1" "\<not> parsed > 0" by linarith
  then show ?thesis
  proof cases
    case bad
    then show ?thesis using return_400_keeps [OF assms(1)]
      by (cases "return_400 u") (simp_all add: user_of_def decide_def)
  next
    case request
    then obtain path where p: "rq_path (parser u) = Some path" using assms(2) by auto
    let ?m = "parse_url (take (rq_path_len (parser u)) (drop path (buf u))) u k"
    note k = parse_url_keeps [OF assms(1), of "take (rq_path_len (parser u)) (drop path (buf u))" k]
    show ?thesis
    proof (cases ?m)
      case (Ret x)
      then obtain u' k' where x: "?m = Ret (u', k')" by (cases x) auto
      with k have u': "user_ok u'" "buf u' = buf u" "parser u' = parser u" "counter u' = counter u" by simp_all
      have "user_keeps u (http_parse_headers u')"
        using http_parse_headers_keeps [OF u'(1)] u' by (auto intro: user_keeps_same)
      with request p x show ?thesis
        by (cases "http_parse_headers u'") (simp_all add: user_of_def decide_def)
    qed (use k request p in \<open>simp_all add: user_of_def decide_def\<close>)
  next
    case more
    then show ?thesis using assms(1) by (simp add: decide_def)
  qed
qed

lemma parse_step:
  assumes "user_ok u" "unat (counter u) + n \<le> 2048"
    and "phr_parse_request False (take (unat (counter u) + n) (buf u)) (unat (counter u)) (parser u) = (st, res)"
  shows "user_ok (u\<lparr>counter := counter u + of_nat n, parser := st\<rparr>) \<and>
    (res = Crash SignedOverflow \<or> (\<exists>r. res = Ret r \<and> (r > 0 \<longrightarrow> rq_path st \<noteq> None)))"
  using phr_parse_request_contract [OF _ _ assms(3)] assms(1,2)
  by (auto simp: user_ok_def request_inside_def token_inside_def)

lemma arm_next_keeps:
  assumes u: "user_ok u" "close_callback ctx = Some Http_cleanup"
    "timer_callback ctx = Some Timer_callback" "write_ok ctx" "read_callback ctx = None"
    and n: "unat (counter u) = c + n" "c + n \<le> 2048"
  shows "keeps_yotta ctx (arm_next ctx (At Buf c) n u k)"
proof -
  have w: "write_ok (ctx\<lparr>ctx_user_data := Some u\<rparr>)"
    using u(4) write_ok_same [of "ctx\<lparr>ctx_user_data := Some u\<rparr>" ctx] by simp
  consider (response) "finalized u" | (full) "\<not> finalized u" "c + n = 2048"
    | (more) "\<not> finalized u" "c + n < 2048" using n by linarith
  then show ?thesis
  proof cases
    case response
    have "unat (response_size u) \<le> 2048" using u(1) response by (simp add: user_ok_def)
    with call_or_exit_cases [of "Corked (ctx_fd ctx) True" k] response u show ?thesis
      by (auto simp: arm_next_def Let_def set_cork_def yta_async_write_def yotta_ok_def read_ok_def write_ok_def)
  next
    case full
    have "keeps_yotta (ctx\<lparr>ctx_user_data := Some u\<rparr>) (http_finish_callback (ctx\<lparr>ctx_user_data := Some u\<rparr>) k)"
      using u w by (intro http_finish_keeps [of _ u]) simp_all
    with full n show ?thesis
      by (simp add: arm_next_def Let_def MAX_BUFFER_SIZE_def keeps_fd [of ctx "ctx\<lparr>ctx_user_data := Some u\<rparr>"])
  next
    case more
    define ctx1 where "ctx1 = yta_async_read Read_callback_http (At Buf (c + n))
       (of_nat MAX_BUFFER_SIZE - counter u) (ctx\<lparr>ctx_user_data := Some u\<rparr>)"
    have "unat (2048 - counter u) = 2048 - (c + n)"
      using n by (simp add: unat_sub word_le_nat_alt)
    moreover have "write_ok ctx1"
      using u(4) write_ok_same [of ctx1 ctx] by (simp add: ctx1_def yta_async_read_def)
    ultimately have "yotta_ok ctx1" "ctx_fd ctx1 = ctx_fd ctx"
      using u n more by (simp_all add: ctx1_def yotta_ok_def yta_async_read_def read_ok_def MAX_BUFFER_SIZE_def)
    with more n show ?thesis
      by (simp add: arm_next_def Let_def MAX_BUFFER_SIZE_def ctx1_def)
  qed
qed

lemma read_callback_keeps:
  assumes u: "ctx_user_data ctx = Some u" "user_ok u" "close_callback ctx = Some Http_cleanup"
    "timer_callback ctx = Some Timer_callback" "write_ok ctx" "read_callback ctx = None"
    and n: "unat (counter u) + n \<le> 2048"
  shows "keeps_yotta ctx (read_callback_http ctx (At Buf (unat (counter u))) n k)"
proof -
  have c: "unat (counter u + of_nat n) = unat (counter u) + n"
    using n by (simp add: unat_word_ariths unat_small)
  obtain st res where po: "phr_parse_request False (take (unat (counter u) + n) (buf u))
     (unat (counter u)) (parser u) = (st, res)" by fastforce
  define u1 where "u1 = u\<lparr>counter := counter u + of_nat n, parser := st\<rparr>"
  note ps = parse_step [OF u(2) n po, folded u1_def]
  have run: "read_callback_http ctx (At Buf (unat (counter u))) n k =
    obind res (\<lambda>parsed. obind (decide parsed u1 k) (\<lambda>(u', k). arm_next ctx (At Buf (unat (counter u))) n u' k))"
    using po u(1) c by (simp add: read_callback_http_def the_user_def Let_def u1_def)
  show ?thesis
  proof (cases res)
    case (Ret r)
    then have d: "user_keeps u1 (user_of (decide r u1 k))"
      using ps by (intro decide_keeps) (auto simp: u1_def)
    show ?thesis
    proof (cases "decide r u1 k")
      case (Ret x)
      then obtain u' k' where x: "decide r u1 k = Ret (u', k')" by (cases x) auto
      with d have "user_ok u'" "counter u' = counter u1" by simp_all
      then have "keeps_yotta ctx (arm_next ctx (At Buf (unat (counter u))) n u' k')"
        using n c u by (intro arm_next_keeps) (simp_all add: u1_def)
      with x \<open>res = Ret r\<close> show ?thesis unfolding run by simp
    qed (use d \<open>res = Ret r\<close> in \<open>simp_all add: run user_of_def\<close>)
  qed (use ps in \<open>simp_all add: run\<close>)
qed

section \<open>The contract with the event loop\<close>

lemma length_sized [simp]: "length (sized n s) = n"
  by (simp add: sized_def)

lemma accept_keeps: "keeps_yotta (new_ctx tmr fd) (accept_callback_http junk (new_ctx tmr fd) k)"
proof -
  obtain t k1 where t: "new_fd k = (t, k1)" by fastforce
  define u where "u = new_user_data junk"
  have u: "length (buf u) = 2048" "length (response_buf u) = 2048" "length (extension u) \<le> 100"
    by (simp_all add: u_def new_user_data_def MAX_BUFFER_SIZE_def)
  define ctx where "ctx = (yta_set_close_callback Http_cleanup ((new_ctx tmr fd :: yotta_ctx)\<lparr>ctx_user_data := Some u\<rparr>))
     \<lparr>timer_callback := Some Timer_callback, timer_fd := t\<rparr>"
  have "yotta_ok (accept_logic u ctx) \<and> ctx_fd (accept_logic u ctx) = ctx_fd ctx"
    using u by (intro accept_logic_ok) (simp_all add: ctx_def yta_set_close_callback_def new_ctx_def write_ok_def)
  with t call_or_exit_cases [of "Epoll_added tmr t [EPOLLIN, EPOLLET]" k1] show ?thesis
    by (auto simp: accept_callback_http_def Let_def yta_async_timer_def u_def [symmetric]
        ctx_def yta_set_close_callback_def new_ctx_def split: prod.splits)
qed

lemma load_response:
  assumes "length (response_buf u) = 2048" "unat (to_write ctx) \<le> 2048" "already_written ctx \<le> to_write ctx"
    and "n \<le> unat (to_write ctx - already_written ctx)"
  shows "\<exists>bs. yotta_load u (ptr_add (At Response_buf 0) (unat (already_written ctx))) n = Ret bs"
proof -
  have "unat (to_write ctx - already_written ctx) = unat (to_write ctx) - unat (already_written ctx)"
    using assms(3) by (rule unat_sub)
  then have "unat (already_written ctx) + n \<le> 2048"
    using assms by (simp add: word_le_nat_alt)
  then show ?thesis using assms(1) by (simp add: load_at_def)
qed

lemma progress_ok:
  fixes a t :: size_t
  assumes "a \<le> t" "n \<le> unat (t - a)"
  shows "a + of_nat n \<le> t"
proof -
  have d: "unat (t - a) = unat t - unat a" using assms(1) by (rule unat_sub)
  then have le: "unat a + n \<le> unat t" using assms by (simp add: word_le_nat_alt)
  moreover have "unat t < 2 ^ 64" by (rule unat_less_2_64)
  ultimately have "unat (a + of_nat n) = unat a + n" by (simp add: unat_word_ariths unat_small)
  with le show ?thesis by (simp add: word_le_nat_alt)
qed

interpretation yotta: event_client "yotta junk" Accept_callback_http yotta_ok yotta_crash for junk
proof
  fix ctx :: yotta_ctx and c :: io_callback and d :: plain_callback and bs :: "char list" and k :: kernel
    and n :: nat and p :: "object ptr" and tmr fd :: int
  show "\<exists>u u'. ctx_user_data ctx = Some u \<and> cl_store (yotta junk) u (read_buf ctx) bs = Ret u' \<and>
      keeps_yotta ctx (cl_io (yotta junk) c (ctx\<lparr>ctx_user_data := Some u', read_callback := None\<rparr>)
        (read_buf ctx) (length bs) k)"
    if i: "yotta_ok ctx" and r: "read_callback ctx = Some c" and b: "bs \<noteq> []" "length bs \<le> unat (to_read ctx)"
  proof -
    obtain u where u: "ctx_user_data ctx = Some u" "user_ok u" "read_ok ctx u" "write_ok ctx"
      "close_callback ctx = Some Http_cleanup" "timer_callback ctx = Some Timer_callback"
      using i by (auto simp: yotta_ok_def)
    have rd: "c = Read_callback_http" "read_buf ctx = At Buf (unat (counter u))"
      "unat (counter u) + length bs \<le> 2048" using u(3) r b by (auto simp: read_ok_def)
    define u' where "u' = u\<lparr>buf := take (unat (counter u)) (buf u) @ bs @ drop (unat (counter u) + length bs) (buf u)\<rparr>"
    have u': "user_ok u'" "counter u' = counter u" using u(2) rd(3) by (auto simp: user_ok_def u'_def)
    have st: "yotta_store u (read_buf ctx) bs = Ret u'"
      using u(2) rd by (simp add: store_at_def u'_def user_ok_def)
    let ?ctx = "ctx\<lparr>ctx_user_data := Some u', read_callback := None\<rparr>"
    have "write_ok ?ctx" using u(4) write_ok_same [of ?ctx ctx] by simp
    then have "keeps_yotta ?ctx (read_callback_http ?ctx (At Buf (unat (counter u'))) (length bs) k)"
      using u u' rd by (intro read_callback_keeps) simp_all
    then have "keeps_yotta ctx (read_callback_http ?ctx (At Buf (unat (counter u'))) (length bs) k)"
      by (simp add: keeps_fd [of ctx ?ctx])
    with u st rd u' show ?thesis by (simp add: yotta_def yotta_io_def)
  qed
  show "\<exists>p u. wdata ctx = Basic_data p \<and> ctx_user_data ctx = Some u \<and>
        (\<forall>n \<le> unat (to_write ctx - already_written ctx).
           \<exists>bs. cl_load (yotta junk) u (ptr_add p (unat (already_written ctx))) n = Ret bs)"
    if "yotta_ok ctx" "write_callback ctx \<noteq> None" "wtype ctx = BASIC_WTYPE"
    using that load_response [of _ ctx]
    by (auto simp: yotta_ok_def write_ok_def yotta_def user_ok_def split: io_callback.splits)
  show "\<exists>fd. wdata ctx = Sendfile_data fd"
    if "yotta_ok ctx" "write_callback ctx \<noteq> None" "wtype ctx = SENDFILE_WTYPE"
    using that by (cases "the (write_callback ctx)") (auto simp: yotta_ok_def write_ok_def)
  show "yotta_ok (ctx\<lparr>already_written := already_written ctx + of_nat n\<rparr>)"
    if "yotta_ok ctx" "write_callback ctx \<noteq> None" "n \<le> unat (to_write ctx - already_written ctx)"
    using that progress_ok [of "already_written ctx" "to_write ctx" n]
    by (auto simp: yotta_ok_def write_ok_def read_ok_def split: io_callback.splits)
  show "keeps_yotta ctx (cl_io (yotta junk) c (ctx\<lparr>write_callback := None\<rparr>) p n k)"
    if "yotta_ok ctx" "write_callback ctx = Some c" "already_written ctx = to_write ctx"
  proof -
    have "c \<noteq> Read_callback_http" using that by (auto simp: yotta_ok_def write_ok_def)
    then show ?thesis using write_header_keeps [OF that(1)] finish_written_keeps [OF that(1)]
      by (cases c) (simp_all add: yotta_def yotta_io_def)
  qed
  show "keeps_yotta (new_ctx tmr fd) (cl_plain (yotta junk) Accept_callback_http (new_ctx tmr fd) k)"
    using accept_keeps by (simp add: yotta_def yotta_plain_def)
  show "(\<exists>r. cl_plain (yotta junk) d ctx k = Ret r) \<or> (\<exists>x. cl_plain (yotta junk) d ctx k = Crash x \<and> yotta_crash x)"
    if "yotta_ok ctx" "close_callback ctx = Some d"
    using that by (auto simp: yotta_def yotta_plain_def yotta_ok_def http_cleanup_def the_user_def split: prod.splits)
  show "\<exists>d. timer_callback ctx = Some d \<and> keeps_yotta ctx (cl_plain (yotta junk) d ctx k)"
    if "yotta_ok ctx" "timer_fd ctx \<noteq> 0"
    using that by (auto simp: yotta_ok_def yotta_def yotta_plain_def)
qed simp_all

section \<open>The worker\<close>


text \<open>Fresh memory that happens to be zero.\<close>

definition some_user :: user_data where
  "some_user = \<lparr>counter = 0, buf = [], response_buf = [], finalized = False, response_size = 0,
     content = False, extension = [], file_fd = 0, file_size = 0, offset = 0,
     parser = fresh_request 0, file_stat = \<lparr>st_regular = False, st_mtime = 0, st_size = 0\<rparr>\<rparr>"

definition quiet_kernel :: kernel where
  "quiet_kernel = \<lparr>k_files = (\<lambda>_. None), k_fds = (\<lambda>_. None), k_new_fds = [], k_results = [], k_trace = []\<rparr>"

text \<open>
  A worker on descriptor 3, whose epoll sets and signal descriptor are 10 to 13, and which is then given
  descriptor 8.
\<close>

definition first_reactor :: "(user_data, object, io_callback, plain_callback) loop_core" where
  "first_reactor = \<lparr>listen_fd = 3, listen_fd_ctx = 0, socket_epoll_fd = 10, timer_epoll_fd = 11,
     signal_fd = 12, master_epoll_fd = 13, current_clients = 0, terminated = False,
     heap = [0 \<mapsto> new_ctx 0 3], next_addr = 1\<rparr>"

definition first_kernel :: kernel where
  "first_kernel =
     quiet_kernel\<lparr>k_new_fds := [8], k_trace := [Epoll_added 10 3 [EPOLLIN, EPOLLET], Quit_blocked,
       Epoll_added 13 10 [EPOLLIN, EPOLLET], Epoll_added 13 11 [EPOLLIN, EPOLLET],
       Epoll_added 13 12 [EPOLLIN, EPOLLET]]\<rparr>"

lemma create_reactor_first:
  "create_reactor 3 (quiet_kernel\<lparr>k_new_fds := [10, 11, 12, 13, 8]\<rparr>) = Ret (first_reactor, first_kernel)"
  by (simp add: create_reactor_def fd_or_exit_def new_fd_def or_exit_def call_or_exit_def next_result_def
      quiet_kernel_def trace_event_def first_reactor_def first_kernel_def)

definition quit_event :: master_event where
  "quit_event = \<lparr>me_fd = 12, me_events = []\<rparr>"


text \<open>
  C28.  The termination branch is not idempotent: once the worker is ordered to terminate, and still has
  connections, another report of the signal descriptor (which is never read) frees the listening context a
  second time.
\<close>

theorem second_signal_double_free:
  assumes "reachable (yotta junk) Accept_callback_http (r, k)" "terminated r" "current_clients r \<noteq> 0"
    and "signalled r m"
  shows "serve_step (yotta junk) Accept_callback_http m (r, k) = Crash BadFree"
  using yotta.reachable_ok [OF assms(1)] order_termination_twice [OF _ assms(2)] assms(4)
  by (simp add: serve_step_def signalled_def)

text \<open>One connection is accepted, then the worker is ordered to terminate.\<close>

definition accept_one :: master_event where
  "accept_one = \<lparr>me_fd = 10, me_events = [\<lparr>ev_ptr = 0, ev_in = True, ev_out = False, ev_err = False,
     ev_rdhup = False, ev_accepts = [Accepted 7], ev_reads = [], ev_writes = []\<rparr>]\<rparr>"

lemma accept_one_step:
  "\<exists>r k. serve_step (yotta some_user) Accept_callback_http accept_one (first_reactor, first_kernel) = Ret (r, k) \<and>
   current_clients r = 1 \<and> \<not> terminated r \<and> socket_epoll_fd r = 10 \<and> timer_epoll_fd r = 11 \<and> signal_fd r = 12"
  by (simp add: first_reactor_def first_kernel_def serve_step_def accept_one_def serve_socket_def hung_up_def new_ctx_def set_nonblock_def
      or_exit_def call_or_exit_def next_result_def quiet_kernel_def trace_event_def yotta_def yotta_plain_def
      accept_callback_http_def Let_def yta_async_timer_def yta_set_close_callback_def new_fd_def)

lemma second_signal_double_free_witness:
  "\<exists>r k. terminated r \<and> current_clients r = 1 \<and>
     serve_step (yotta some_user) Accept_callback_http quit_event (r, k) = Crash BadFree"
proof -
  obtain r1 k where s1: "serve_step (yotta some_user) Accept_callback_http accept_one (first_reactor, first_kernel) = Ret (r1, k)"
    "current_clients r1 = 1" "\<not> terminated r1" "socket_epoll_fd r1 = 10" "timer_epoll_fd r1 = 11" "signal_fd r1 = 12"
    using accept_one_step by blast
  have e: "master_event_ok first_reactor accept_one"
    by (simp add: first_reactor_def master_event_ok_def accept_one_def socket_event_ok_def hung_up_def)
  have R1: "reachable (yotta some_user) Accept_callback_http (r1, k)"
    using reachable.step [OF reachable.start [OF create_reactor_first] _ e s1(1)] by (simp add: first_reactor_def)
  have "reactor_ok yotta_ok r1" using yotta.reachable_ok [OF R1] by simp
  then have h: "heap r1 (listen_fd_ctx r1) \<noteq> None" using s1(3) by (simp add: reactor_ok_def)
  define r2 where "r2 = r1\<lparr>terminated := True, heap := (heap r1)(listen_fd_ctx r1 := None)\<rparr>"
  obtain k2 where s2: "serve_step (yotta some_user) Accept_callback_http quit_event (r1, k) = Ret (r2, k2)"
  proof -
    have "\<exists>k2. order_termination r1 k = Ret (r2, k2)"
      using h by (cases "next_result k") (auto simp: order_termination_def free_ctx_def r2_def Let_def)
    then show ?thesis using that s1 by (auto simp: serve_step_def quit_event_def)
  qed
  have "master_event_ok r1 quit_event" using s1 by (simp add: master_event_ok_def quit_event_def)
  then have R2: "reachable (yotta some_user) Accept_callback_http (r2, k2)"
    using reachable.step [OF R1 _ _ s2] s1(3) by simp
  have "terminated r2" "current_clients r2 = 1" "signalled r2 quit_event"
    using s1 by (simp_all add: r2_def signalled_def quit_event_def)
  with second_signal_double_free [OF R2] show ?thesis by auto
qed

end
