(* ===== verification/Yotta_Delivery.thy ===== *)
theory Yotta_Delivery
  imports Yotta_Safety
begin

text \<open>
  What reaches the client.  \<open>owed\<close> is what is still to be sent of the response a connection is
  writing: the rest of the header and then the part of the file that goes with it.  However the
  kernel cuts the writes, what has been sent and what is owed stay the same string, and enough rm
  sends all of it.
\<close>

section \<open>Moving a position\<close>

lemma advance_word:
  fixes a t :: size_t
  assumes "n \<le> unat (t - a)"
  shows "a + of_nat n = t \<longleftrightarrow> n = unat (t - a)" "unat (t - (a + of_nat n)) = unat (t - a) - n"
proof -
  have n: "unat (of_nat n :: size_t) = n"
    using assms unat_less_2_64 [of "t - a"] by (intro unat_small) linarith
  have le: "of_nat n \<le> t - a" using assms n by (simp add: word_le_nat_alt)
  have e: "t - (a + of_nat n) = (t - a) - of_nat n" by (simp add: algebra_simps)
  show u: "unat (t - (a + of_nat n)) = unat (t - a) - n" unfolding e using unat_sub [OF le] n by simp
  have "a + of_nat n = t \<longleftrightarrow> of_nat n = t - a" by (auto simp: algebra_simps)
  also have "\<dots> \<longleftrightarrow> n = unat (t - a)"
    using n by (simp add: word_unat_eq_iff)
  finally show "a + of_nat n = t \<longleftrightarrow> n = unat (t - a)" .
qed

lemma advance_unat:
  fixes a :: size_t
  assumes "unat a + n < 2 ^ 64"
  shows "unat (a + of_nat n) = unat a + n"
  using assms by (simp add: unat_word_ariths unat_small)

lemma split_slice: "n \<le> m \<Longrightarrow> take m (drop i xs) = take n (drop i xs) @ take (m - n) (drop (i + n) xs)"
  by (metis add.commute drop_drop le_add_diff_inverse take_add)

section \<open>What is owed\<close>

definition file_part :: "kernel \<Rightarrow> int \<Rightarrow> nat \<Rightarrow> nat \<Rightarrow> char list" where
  "file_part k fd i n = (case k_fds k fd of None \<Rightarrow> [] | Some f \<Rightarrow> take n (drop i (f_content f)))"

definition owed :: "yotta_ctx \<Rightarrow> kernel \<Rightarrow> char list" where
  "owed ctx k =
     (case (write_callback ctx, ctx_user_data ctx) of
        (Some Write_header_callback, Some u) \<Rightarrow>
          take (unat (to_write ctx - already_written ctx)) (drop (unat (already_written ctx)) (response_buf u)) @
          (if content u then file_part k (file_fd u) (unat (offset u)) (unat (file_size u)) else [])
      | (Some Http_finish_callback, Some u) \<Rightarrow>
          file_part k (file_fd u) (unat (already_written ctx)) (unat (to_write ctx - already_written ctx))
      | _ \<Rightarrow> [])"

text \<open>There is something to send, and all of it is there.\<close>

definition region_ok :: "kernel \<Rightarrow> int \<Rightarrow> size_t \<Rightarrow> size_t \<Rightarrow> bool" where
  "region_ok k fd i n \<longleftrightarrow>
     (\<exists>f. k_fds k fd = Some f \<and> 0 < unat n \<and> unat i + unat n \<le> length (f_content f) \<and>
          length (f_content f) < 2 ^ 64)"

definition sendable :: "yotta_ctx \<Rightarrow> kernel \<Rightarrow> bool" where
  "sendable ctx k \<longleftrightarrow>
     yotta_ok ctx \<and> False \<notin> set (k_results k) \<and>
     (case (write_callback ctx, ctx_user_data ctx) of
        (Some Write_header_callback, Some u) \<Rightarrow>
          already_written ctx < to_write ctx \<and>
          (content u \<longrightarrow> region_ok k (file_fd u) (offset u) (file_size u))
      | (Some Http_finish_callback, Some u) \<Rightarrow>
          wdata ctx = Sendfile_data (file_fd u) \<and>
          region_ok k (file_fd u) (already_written ctx) (to_write ctx - already_written ctx)
      | _ \<Rightarrow> True)"

lemma region_trace [simp]: "region_ok (trace_event e k) fd i n = region_ok k fd i n"
  by (simp add: region_ok_def)

lemma file_part_trace [simp]: "file_part (trace_event e k) fd i n = file_part k fd i n"
  by (simp add: file_part_def)

text \<open>The connection is between two requests.\<close>

definition waiting :: "yotta_ctx \<Rightarrow> user_data \<Rightarrow> bool" where
  "waiting ctx u \<longleftrightarrow>
     yotta_ok ctx \<and> ctx_user_data ctx = Some u \<and> read_callback ctx = Some Read_callback_http \<and>
     write_callback ctx = None \<and> counter u = 0 \<and> \<not> finalized u \<and> parser u = fresh_request MAX_HEADERS"

definition user_offset :: "yotta_ctx \<Rightarrow> size_t option" where
  "user_offset ctx = map_option offset (ctx_user_data ctx)"

text \<open>
  The end of a response: nothing is owed, only the cork shows in the trace, and the next request is
  awaited.
\<close>

lemma finish_step:
  assumes "ctx_user_data ctx = Some u" "False \<notin> set (k_results k)" "write_callback ctx = None"
  shows "\<exists>ctx' k' u'. http_finish_callback ctx k = Ret (ctx', YTA_OK, k') \<and>
    sent_on fd (k_trace k') = sent_on fd (k_trace k) \<and> False \<notin> set (k_results k') \<and> owed ctx' k' = [] \<and>
    user_offset ctx' = user_offset ctx \<and> (yotta_ok ctx' \<longrightarrow> waiting ctx' u')"
proof -
  obtain u1 k1 where c: "close_file u k = (u1, k1)" by fastforce
  have k1: "k_results k1 = k_results k" "sent_on fd (k_trace k1) = sent_on fd (k_trace k)" "offset u1 = offset u"
    using c by (auto simp: close_file_def split: if_splits)
  obtain k2 where k2: "call_or_exit (Corked (ctx_fd ctx) False) k1 = Ret k2"
    "k_trace k2 = k_trace k1 @ [Corked (ctx_fd ctx) False]" "set (k_results k2) \<subseteq> set (k_results k1)"
    using call_or_exit_ok [of k1 "Corked (ctx_fd ctx) False"] k1(1) assms(2) by auto
  let ?u = "u1\<lparr>parser := fresh_request MAX_HEADERS, counter := 0, finalized := False, file_fd := 0\<rparr>"
  show ?thesis
    using c k1 k2 assms
    by (intro exI [of _ "accept_logic u1 ctx"] exI [of _ k2] exI [of _ ?u])
       (auto simp: http_finish_callback_def the_user_def set_cork_def accept_logic_def Let_def
        yta_async_read_def owed_def user_offset_def waiting_def)
qed


section \<open>One answer of the kernel\<close>

definition write_step :: "user_data \<Rightarrow> write_answer \<Rightarrow> yotta_ctx \<Rightarrow> kernel \<Rightarrow> (yotta_ctx \<times> loop_status \<times> kernel) outcome" where
  "write_step junk a ctx k =
     (if wtype ctx = BASIC_WTYPE then write_handle_basic (yotta junk) a ctx k
      else write_handle_sendfile (yotta junk) a ctx k)"

text \<open>A step that sends the next part of what is owed.\<close>

definition sends :: "yotta_ctx \<Rightarrow> kernel \<Rightarrow> (yotta_ctx \<times> loop_status \<times> kernel) outcome \<Rightarrow> bool" where
  "sends ctx k res \<longleftrightarrow>
     (\<exists>ctx' k' bs. res = Ret (ctx', YTA_LOOP_CONTINUE, k') \<and> sendable ctx' k' \<and> ctx_fd ctx' = ctx_fd ctx \<and>
        bs \<noteq> [] \<and> sent_on (ctx_fd ctx) (k_trace k') = sent_on (ctx_fd ctx) (k_trace k) @ bs \<and>
        owed ctx k = bs @ owed ctx' k' \<and> user_offset ctx' = user_offset ctx \<and>
        (write_callback ctx' = None \<longrightarrow> (\<exists>u. waiting ctx' u)))"

lemma sendI:
  assumes "res = Ret (ctx', YTA_LOOP_CONTINUE, k')" "sendable ctx' k'" "ctx_fd ctx' = ctx_fd ctx"
    "bs \<noteq> []" "sent_on (ctx_fd ctx) (k_trace k') = sent_on (ctx_fd ctx) (k_trace k) @ bs"
    "owed ctx k = bs @ owed ctx' k'" "user_offset ctx' = user_offset ctx"
    "write_callback ctx' = None \<Longrightarrow> \<exists>u. waiting ctx' u"
  shows "sends ctx k res"
  unfolding sends_def
  by (intro exI [of _ ctx'] exI [of _ k'] exI [of _ bs] conjI impI assms) simp_all

lemma sendE:
  assumes "sends ctx k res"
  obtains ctx' k' bs where "res = Ret (ctx', YTA_LOOP_CONTINUE, k')" "sendable ctx' k'" "ctx_fd ctx' = ctx_fd ctx"
    "bs \<noteq> []" "sent_on (ctx_fd ctx) (k_trace k') = sent_on (ctx_fd ctx) (k_trace k) @ bs"
    "owed ctx k = bs @ owed ctx' k'" "user_offset ctx' = user_offset ctx"
    "write_callback ctx' = None \<longrightarrow> (\<exists>u. waiting ctx' u)"
  using assms unfolding sends_def by (elim exE conjE) (rule that)

text \<open>The connection after the whole response.\<close>

lemma finish_sends:
  assumes "yotta_ok (ctx\<lparr>already_written := a\<rparr>)" "ctx_user_data ctx = Some u"
    "False \<notin> set (k_results k)" "k_results k1 = k_results k"
    "sent_on (ctx_fd ctx) (k_trace k1) = sent_on (ctx_fd ctx) (k_trace k) @ bs" "bs \<noteq> []" "owed ctx k = bs"
  shows "sends ctx k (obind (http_finish_callback (ctx\<lparr>already_written := a, write_callback := None\<rparr>) k1)
    (\<lambda>(ctx, st, k). Ret (ctx, if st \<noteq> YTA_OK then YTA_LOOP_ERROR else YTA_LOOP_CONTINUE, k)))"
proof -
  let ?c = "ctx\<lparr>already_written := a, write_callback := None\<rparr>"
  obtain c' k' u' where f: "http_finish_callback ?c k1 = Ret (c', YTA_OK, k')"
    "sent_on (ctx_fd ctx) (k_trace k') = sent_on (ctx_fd ctx) (k_trace k1)"
    "False \<notin> set (k_results k')" "owed c' k' = []" "user_offset c' = user_offset ctx" "yotta_ok c' \<longrightarrow> waiting c' u'"
    using finish_step [of ?c u k1 "ctx_fd ctx"] assms by (auto simp: user_offset_def)
  have "keeps_yotta (ctx\<lparr>already_written := a\<rparr>) (http_finish_callback ?c k1)"
    using finish_written_keeps [OF assms(1), of k1] by simp
  then have "yotta_ok c'" "ctx_fd c' = ctx_fd ctx" using f(1) by simp_all
  moreover from this f(6) have "waiting c' u'" by simp
  moreover from this have "write_callback c' = None" by (simp add: waiting_def)
  ultimately show ?thesis using f assms
    by (intro sendI [of _ c' k' _ bs]) (auto simp: sendable_def)
qed

lemma basic_sends:
  assumes S: "sendable ctx k" and W: "write_callback ctx = Some Write_header_callback" and r: "0 < rm"
  shows "sends ctx k (write_step junk (Room rm) ctx k)"
proof -
  obtain u where u: "ctx_user_data ctx = Some u" "user_ok u" "yotta_ok ctx" "False \<notin> set (k_results k)"
    using S W by (auto simp: sendable_def yotta_ok_def)
  have w: "wtype ctx = BASIC_WTYPE" "wdata ctx = Basic_data (At Response_buf 0)"
    "unat (to_write ctx) \<le> 2048" "already_written ctx < to_write ctx"
    "content u \<longrightarrow> region_ok k (file_fd u) (offset u) (file_size u)"
    using S W u(1) by (auto simp: sendable_def yotta_ok_def write_ok_def)
  define m where "m = unat (to_write ctx - already_written ctx)"
  have m: "m = unat (to_write ctx) - unat (already_written ctx)"
    unfolding m_def using w(4) by (intro unat_sub) simp
  have lt: "unat (already_written ctx) < unat (to_write ctx)" using w(4) by (simp add: word_less_nat_alt)
  define n where "n = min rm m"
  have n: "0 < n" "n \<le> m" using r m lt by (auto simp: n_def)
  define bs where "bs = take n (drop (unat (already_written ctx)) (response_buf u))"
  have lb: "length bs = n" using n m w(3) u(2) by (auto simp: bs_def user_ok_def)
  have ld: "load_at (response_buf u) (unat (already_written ctx)) n = Ret bs"
    using n m w(3) u(2) lt by (auto simp: load_at_def bs_def user_ok_def)
  define k1 where "k1 = trace_event (Sent (ctx_fd ctx) bs) k"
  define ctx1 where "ctx1 = ctx\<lparr>already_written := already_written ctx + of_nat n\<rparr>"
  note adv = advance_word [of n "to_write ctx" "already_written ctx", folded m_def, OF n(2)]
  have ok1: "yotta_ok ctx1"
    unfolding ctx1_def using yotta.on_progress [OF u(3)] W n(2) m_def by simp
  have sent: "sent_on (ctx_fd ctx) (k_trace k1) = sent_on (ctx_fd ctx) (k_trace k) @ bs"
    by (simp add: k1_def)
  define tail where "tail = (if content u then file_part k (file_fd u) (unat (offset u)) (unat (file_size u)) else [])"
  have owed: "owed ctx k = take m (drop (unat (already_written ctx)) (response_buf u)) @ tail"
    using W u(1) by (simp add: owed_def m_def tail_def)
  have st: "write_step junk (Room rm) ctx k = write_done (yotta junk) (At Response_buf 0) n ctx k1"
    using w(1,2) n(1) ld u(1) unfolding write_step_def write_handle_basic_def m_def [symmetric]
    by (simp add: n_def [symmetric] Let_def the_user_def yotta_def k1_def)
  show ?thesis
  proof (cases "n = m")
    case False
    have "already_written ctx1 \<noteq> to_write ctx1" using adv(1) False by (simp add: ctx1_def)
    then have res: "write_step junk (Room rm) ctx k = Ret (ctx1, YTA_LOOP_CONTINUE, k1)"
      unfolding st write_done_def ctx1_def [symmetric] Let_def by simp
    have "unat (already_written ctx) + n < 2 ^ 64" using n m lt w(3) by simp
    then have a1: "unat (already_written ctx1) = unat (already_written ctx) + n"
      unfolding ctx1_def by (simp add: advance_unat)
    have "owed ctx k = bs @ owed ctx1 k1"
      unfolding owed bs_def using split_slice [OF n(2)] W u(1) a1 adv(2)
      by (simp add: owed_def ctx1_def tail_def k1_def)
    moreover have "sendable ctx1 k1"
      using ok1 W u(1,4) w(5) a1 n m lt False by (simp add: sendable_def ctx1_def k1_def word_less_nat_alt)
    ultimately show ?thesis using res sent lb n(1)
      by (intro sendI [of _ ctx1 k1 _ bs]) (auto simp: ctx1_def user_offset_def W)
  next
    case True
    have "already_written ctx1 = to_write ctx1" using adv(1) True by (simp add: ctx1_def)
    then have res: "write_step junk (Room rm) ctx k =
       obind (write_header_callback (ctx1\<lparr>write_callback := None\<rparr>) k1) (\<lambda>(ctx, st, k).
         Ret (ctx, if st \<noteq> YTA_OK then YTA_LOOP_ERROR else YTA_LOOP_CONTINUE, k))"
      unfolding st write_done_def ctx1_def [symmetric] Let_def using W
      by (simp add: ctx1_def yotta_def yotta_io_def)
    show ?thesis
    proof (cases "content u")
      case False
      have "write_step junk (Room rm) ctx k = obind (http_finish_callback
         (ctx\<lparr>already_written := already_written ctx + of_nat n, write_callback := None\<rparr>) k1) (\<lambda>(ctx, st, k).
         Ret (ctx, if st \<noteq> YTA_OK then YTA_LOOP_ERROR else YTA_LOOP_CONTINUE, k))"
        unfolding res using False u(1) by (simp add: write_header_callback_def the_user_def ctx1_def)
      moreover have "owed ctx k = bs" unfolding owed using False True by (simp add: tail_def bs_def)
      moreover have "bs \<noteq> []" using lb n by auto
      moreover have "k_results k1 = k_results k" by (simp add: k1_def)
      ultimately show ?thesis
        using finish_sends [OF ok1 [unfolded ctx1_def] u(1,4) _ sent] by simp
    next
      case c: True
      define ctx2 where "ctx2 = yta_async_sendfile Http_finish_callback (file_fd u) (file_size u) (offset u)
         (ctx1\<lparr>write_callback := None\<rparr>)"
      have res2: "write_step junk (Room rm) ctx k = Ret (ctx2, YTA_LOOP_CONTINUE, k1)"
        unfolding res using c u(1) by (simp add: write_header_callback_def the_user_def ctx1_def ctx2_def)
      have "keeps_yotta ctx1 (write_header_callback (ctx1\<lparr>write_callback := None\<rparr>) k1)"
        by (rule write_header_keeps [OF ok1])
      moreover have "write_header_callback (ctx1\<lparr>write_callback := None\<rparr>) k1 = Ret (ctx2, YTA_OK, k1)"
        using c u(1) by (simp add: write_header_callback_def the_user_def ctx1_def ctx2_def)
      ultimately have ok2: "yotta_ok ctx2" by simp
      have f: "write_callback ctx2 = Some Http_finish_callback" "ctx_user_data ctx2 = Some u"
        "wdata ctx2 = Sendfile_data (file_fd u)" "already_written ctx2 = offset u"
        "to_write ctx2 - already_written ctx2 = file_size u" "ctx_fd ctx2 = ctx_fd ctx"
        using u(1) by (simp_all add: ctx2_def ctx1_def yta_async_sendfile_def)
      have "sendable ctx2 k1" using ok2 f u(4) w(5) c by (simp add: sendable_def k1_def)
      moreover have "owed ctx k = bs @ owed ctx2 k1"
        unfolding owed using True c f by (simp add: owed_def tail_def bs_def k1_def)
      ultimately show ?thesis using res2 sent lb n(1) f
          by (intro sendI [of _ ctx2 k1 _ bs]) (auto simp: user_offset_def u(1))
    qed
  qed
qed

lemma sendfile_sends:
  assumes S: "sendable ctx k" and W: "write_callback ctx = Some Http_finish_callback" and r: "0 < rm"
  shows "sends ctx k (write_step junk (Room rm) ctx k)"
proof -
  obtain u where u: "ctx_user_data ctx = Some u" "user_ok u" "yotta_ok ctx" "False \<notin> set (k_results k)"
    using S W by (auto simp: sendable_def yotta_ok_def)
  have w: "wtype ctx = SENDFILE_WTYPE" "wdata ctx = Sendfile_data (file_fd u)"
    "region_ok k (file_fd u) (already_written ctx) (to_write ctx - already_written ctx)"
    using S W u(1) by (auto simp: sendable_def yotta_ok_def write_ok_def)
  define m where "m = unat (to_write ctx - already_written ctx)"
  obtain f where f: "k_fds k (file_fd u) = Some f" "0 < m"
    "unat (already_written ctx) + m \<le> length (f_content f)" "length (f_content f) < 2 ^ 64"
    using w(3) by (auto simp: region_ok_def m_def)
  define n where "n = min rm m"
  have n: "0 < n" "n \<le> m" using r f by (auto simp: n_def)
  define bs where "bs = take n (drop (unat (already_written ctx)) (f_content f))"
  have lb: "length bs = n" using n f by (auto simp: bs_def)
  define k1 where "k1 = trace_event (Sent (ctx_fd ctx) bs) k"
  define ctx1 where "ctx1 = ctx\<lparr>already_written := already_written ctx + of_nat n\<rparr>"
  note adv = advance_word [of n "to_write ctx" "already_written ctx", folded m_def, OF n(2)]
  have ok1: "yotta_ok ctx1"
    unfolding ctx1_def using yotta.on_progress [OF u(3)] W n(2) m_def by simp
  have sent: "sent_on (ctx_fd ctx) (k_trace k1) = sent_on (ctx_fd ctx) (k_trace k) @ bs"
    by (simp add: k1_def)
  have owed: "owed ctx k = take m (drop (unat (already_written ctx)) (f_content f))"
    using W u(1) f(1) by (simp add: owed_def m_def file_part_def)
  have nb: "bs \<noteq> []" using lb n by auto
  have st: "write_step junk (Room rm) ctx k = write_done (yotta junk) Null n ctx k1"
    using w(1,2) n(1) f(1) lb nb
    unfolding write_step_def write_handle_sendfile_def m_def [symmetric] n_def [symmetric] bs_def [symmetric]
    by (simp add: n_def [symmetric] bs_def [symmetric] Let_def k1_def)
  show ?thesis
  proof (cases "n = m")
    case False
    have "already_written ctx1 \<noteq> to_write ctx1" using adv(1) False by (simp add: ctx1_def)
    then have res: "write_step junk (Room rm) ctx k = Ret (ctx1, YTA_LOOP_CONTINUE, k1)"
      unfolding st write_done_def ctx1_def [symmetric] Let_def by simp
    have "unat (already_written ctx) + n < 2 ^ 64" using n f by simp
    then have a1: "unat (already_written ctx1) = unat (already_written ctx) + n"
      unfolding ctx1_def by (simp add: advance_unat)
    have m1: "unat (to_write ctx1 - already_written ctx1) = m - n" using adv(2) by (simp add: ctx1_def)
    have g: "write_callback ctx1 = Some Http_finish_callback" "ctx_user_data ctx1 = Some u"
      "wdata ctx1 = Sendfile_data (file_fd u)" using W u(1) w(2) by (simp_all add: ctx1_def)
    have "owed ctx k = bs @ owed ctx1 k1"
      unfolding owed bs_def using split_slice [OF n(2)] g a1 m1 f(1)
      by (simp add: owed_def file_part_def k1_def)
    moreover have "region_ok k1 (file_fd u) (already_written ctx1) (to_write ctx1 - already_written ctx1)"
      using f n False a1 m1 by (simp add: region_ok_def k1_def)
    then have "sendable ctx1 k1"
      using ok1 g u(4) by (simp add: sendable_def k1_def)
    ultimately show ?thesis using res sent lb n(1)
      by (intro sendI [of _ ctx1 k1 _ bs]) (auto simp: ctx1_def user_offset_def W)
  next
    case True
    have "already_written ctx1 = to_write ctx1" using adv(1) True by (simp add: ctx1_def)
    then have res: "write_step junk (Room rm) ctx k =
       obind (http_finish_callback (ctx\<lparr>already_written := already_written ctx + of_nat n, write_callback := None\<rparr>) k1)
       (\<lambda>(ctx, st, k). Ret (ctx, if st \<noteq> YTA_OK then YTA_LOOP_ERROR else YTA_LOOP_CONTINUE, k))"
      unfolding st write_done_def ctx1_def [symmetric] Let_def using W
      by (simp add: ctx1_def yotta_def yotta_io_def)
    have "owed ctx k = bs" unfolding owed using True by (simp add: bs_def)
    moreover have "bs \<noteq> []" using lb n by auto
    moreover have "k_results k1 = k_results k" by (simp add: k1_def)
    ultimately show ?thesis
      unfolding res using finish_sends [OF ok1 [unfolded ctx1_def] u(1,4) _ sent] by simp
  qed
qed

lemma write_step_sends:
  assumes "sendable ctx k" "write_callback ctx \<noteq> None" "0 < rm"
  shows "sends ctx k (write_step junk (Room rm) ctx k)"
proof -
  obtain c where c: "write_callback ctx = Some c" using assms(2) by blast
  moreover have "c \<noteq> Read_callback_http" using c assms(1) by (auto simp: sendable_def yotta_ok_def write_ok_def)
  ultimately show ?thesis using basic_sends sendfile_sends assms by (cases c) auto
qed

section \<open>Delivery\<close>

text \<open>
  The write loop on any answers of the kernel but a write of zero bytes: what was sent and what is owed
  stay the same.
\<close>

lemma write_loop_step: "write_callback ctx \<noteq> None \<Longrightarrow>
  write_loop (yotta junk) (a # as) ctx k = obind (write_step junk a ctx k) (\<lambda>(ctx, st, k).
    if st = YTA_LOOP_CONTINUE then write_loop (yotta junk) as ctx k else Ret (ctx, st, k))"
  unfolding write_loop.simps write_step_def by (rule if_not_P)

lemma write_step_stops:
  assumes "sendable ctx k" "write_callback ctx \<noteq> None"
  shows "write_step junk Write_again ctx k = Ret (ctx, YTA_LOOP_AGAIN, k)"
    "write_step junk Write_error ctx k = Ret (ctx, YTA_LOOP_ERROR, k)"
proof -
  obtain c where c: "write_callback ctx = Some c" using assms(2) by blast
  have "(wtype ctx = BASIC_WTYPE \<and> (\<exists>p. wdata ctx = Basic_data p)) \<or>
    (wtype ctx = SENDFILE_WTYPE \<and> (\<exists>fd. wdata ctx = Sendfile_data fd))"
    using assms(1) c by (cases c) (auto simp: sendable_def yotta_ok_def write_ok_def)
  then show "write_step junk Write_again ctx k = Ret (ctx, YTA_LOOP_AGAIN, k)"
    "write_step junk Write_error ctx k = Ret (ctx, YTA_LOOP_ERROR, k)"
    by (auto simp: write_step_def write_handle_basic_def write_handle_sendfile_def)
qed

definition delivers :: "yotta_ctx \<Rightarrow> kernel \<Rightarrow> (yotta_ctx \<times> loop_status \<times> kernel) outcome \<Rightarrow> bool" where
  "delivers ctx k res \<longleftrightarrow>
     (\<exists>ctx' st k'. res = Ret (ctx', st, k') \<and> sendable ctx' k' \<and> ctx_fd ctx' = ctx_fd ctx \<and>
        sent_on (ctx_fd ctx) (k_trace k') @ owed ctx' k' = sent_on (ctx_fd ctx) (k_trace k) @ owed ctx k \<and>
        (st = YTA_LOOP_CONTINUE \<longrightarrow> write_callback ctx' = None))"

lemma write_loop_delivers:
  "sendable ctx k \<Longrightarrow> Room 0 \<notin> set as \<Longrightarrow> delivers ctx k (write_loop (yotta junk) as ctx k)"
proof (induction as arbitrary: ctx k)
  case Nil
  then show ?case by (auto simp: delivers_def)
next
  case (Cons a as)
  show ?case
  proof (cases "write_callback ctx = None")
    case True
    then show ?thesis using Cons.prems by (auto simp: delivers_def)
  next
    case False
    note L = write_loop_step [OF False, of junk a as k]
    show ?thesis
    proof (cases a)
      case (Room n)
      then have "0 < n" using Cons.prems(2) by (cases n) auto
      from write_step_sends [OF Cons.prems(1) False this, of junk]
      obtain ctx1 k1 bs where s: "write_step junk a ctx k = Ret (ctx1, YTA_LOOP_CONTINUE, k1)"
        "sendable ctx1 k1" "ctx_fd ctx1 = ctx_fd ctx"
        "sent_on (ctx_fd ctx) (k_trace k1) = sent_on (ctx_fd ctx) (k_trace k) @ bs"
        "owed ctx k = bs @ owed ctx1 k1"
        unfolding sends_def Room by blast
      have "delivers ctx1 k1 (write_loop (yotta junk) as ctx1 k1)"
        using Cons.IH [OF s(2)] Cons.prems(2) by simp
      then show ?thesis unfolding L using s by (auto simp: delivers_def)
    next
      case Write_again
      then show ?thesis unfolding L using write_step_stops(1) [OF Cons.prems(1) False] Cons.prems(1)
        by (simp add: delivers_def)
    next
      case Write_error
      then show ?thesis unfolding L using write_step_stops(2) [OF Cons.prems(1) False] Cons.prems(1)
        by (simp add: delivers_def)
    qed
  qed
qed

lemma owed_None: "write_callback ctx = None \<Longrightarrow> owed ctx k = []"
  by (simp add: owed_def)

text \<open>Enough room: every answer that is not a refusal sends at least one byte.\<close>

lemma write_loop_completes:
  assumes "sendable ctx k" "\<And>a. a \<in> set as \<Longrightarrow> \<exists>n. a = Room (Suc n)" "length (owed ctx k) \<le> length as"
  shows "\<exists>ctx' k'. write_loop (yotta junk) as ctx k = Ret (ctx', YTA_LOOP_CONTINUE, k') \<and>
    write_callback ctx' = None \<and> user_offset ctx' = user_offset ctx \<and> ctx_fd ctx' = ctx_fd ctx \<and>
    False \<notin> set (k_results k') \<and> (write_callback ctx = None \<longrightarrow> ctx' = ctx) \<and>
    (write_callback ctx \<noteq> None \<longrightarrow> (\<exists>u. waiting ctx' u)) \<and>
    sent_on (ctx_fd ctx) (k_trace k') = sent_on (ctx_fd ctx) (k_trace k) @ owed ctx k"
  using assms
proof (induction as arbitrary: ctx k)
  case Nil
  have "write_callback ctx = None"
  proof (rule ccontr)
    assume "write_callback ctx \<noteq> None"
    from write_step_sends [OF Nil.prems(1) this zero_less_one] Nil.prems(3) show False
      by (auto simp: sends_def)
  qed
  then show ?case using Nil.prems(1) by (simp add: owed_None sendable_def)
next
  case (Cons a as)
  show ?case
  proof (cases "write_callback ctx = None")
    case True
    then show ?thesis using Cons.prems(1) by (simp add: owed_None sendable_def)
  next
    case False
    obtain n where a: "a = Room (Suc n)" using Cons.prems(2) by auto
    have "sends ctx k (write_step junk a ctx k)"
      unfolding a by (rule write_step_sends [OF Cons.prems(1) False]) simp
    then obtain ctx1 k1 bs where s: "write_step junk a ctx k = Ret (ctx1, YTA_LOOP_CONTINUE, k1)"
      "sendable ctx1 k1" "ctx_fd ctx1 = ctx_fd ctx" "bs \<noteq> []"
      "sent_on (ctx_fd ctx) (k_trace k1) = sent_on (ctx_fd ctx) (k_trace k) @ bs"
      "owed ctx k = bs @ owed ctx1 k1" "user_offset ctx1 = user_offset ctx"
      "write_callback ctx1 = None \<longrightarrow> (\<exists>u. waiting ctx1 u)" by (rule sendE)
    have len: "length (owed ctx1 k1) \<le> length as" using Cons.prems(3) s(4,6) by (cases bs) auto
    have rooms: "\<exists>n. x = Room (Suc n)" if "x \<in> set as" for x using Cons.prems(2) [of x] that by simp
    note IH = Cons.IH [OF s(2) rooms len, simplified]
    from IH obtain ctx2 k2 where c2:
      "write_loop (yotta junk) as ctx1 k1 = Ret (ctx2, YTA_LOOP_CONTINUE, k2)" "write_callback ctx2 = None"
      "user_offset ctx2 = user_offset ctx1" "ctx_fd ctx2 = ctx_fd ctx1" "False \<notin> set (k_results k2)"
      "write_callback ctx1 = None \<longrightarrow> ctx2 = ctx1" "write_callback ctx1 \<noteq> None \<longrightarrow> (\<exists>u. waiting ctx2 u)"
      "sent_on (ctx_fd ctx1) (k_trace k2) = sent_on (ctx_fd ctx1) (k_trace k1) @ owed ctx1 k1"
      by (elim exE conjE) (rule that, simp_all)
    have "\<exists>u. waiting ctx2 u" using s(8) c2(6,7) by (cases "write_callback ctx1 = None") auto
    moreover have "write_loop (yotta junk) (a # as) ctx k = Ret (ctx2, YTA_LOOP_CONTINUE, k2)"
      unfolding write_loop_step [OF False] s(1) using c2(1) by simp
    moreover have "sent_on (ctx_fd ctx) (k_trace k2) = sent_on (ctx_fd ctx) (k_trace k) @ owed ctx k"
      using s(3,5,6) c2(8) by simp
    moreover have "user_offset ctx2 = user_offset ctx" "ctx_fd ctx2 = ctx_fd ctx" using s(3,7) c2(3,4) by simp_all
    ultimately show ?thesis using c2(2,5) False
      by (intro exI [of _ ctx2] exI [of _ k2] conjI impI; (assumption | blast))
  qed
qed

end
