(* ===== verification/Yotta_Names.thy ===== *)
theory Yotta_Names
  imports Yotta_Safety
begin

text \<open>
  Which file a request path opens.  \<^verbatim>\<open>parse_url\<close> hands the array \<^verbatim>\<open>normalized_path\<close> to
  \<^verbatim>\<open>open\<close> as a C string, although \<^verbatim>\<open>clean_path\<close> only vouches for its first
  \<^verbatim>\<open>new_length\<close> bytes.  Without two dots in a row in the path the rest of the array is still zero, and
  the name is the intended one; with them, the bytes of elements that were dropped can follow.
\<close>

section \<open>Bytes behind the output pointer\<close>

definition no_dot_dot :: "char list \<Rightarrow> bool" where
  "no_dot_dot path \<longleftrightarrow>
     (\<forall>i. Suc i < length path \<longrightarrow> \<not> (path ! i = CHR ''.'' \<and> path ! Suc i = CHR ''.''))"

definition tail_kept :: "char list \<times> nat \<Rightarrow> char list \<times> nat \<Rightarrow> bool" where
  "tail_kept a b \<longleftrightarrow> snd a \<le> snd b \<and> length (fst b) = length (fst a) \<and> drop (snd b) (fst b) = drop (snd b) (fst a)"

lemma tail_kept_refl: "tail_kept a a"
  by (simp add: tail_kept_def)

lemma tail_kept_trans: "tail_kept a b \<Longrightarrow> tail_kept b c \<Longrightarrow> tail_kept a c"
proof -
  assume a: "tail_kept a b" and b: "tail_kept b c"
  then have "drop (snd c) (fst b) = drop (snd c) (fst a)"
    unfolding tail_kept_def by (metis drop_drop le_add_diff_inverse2)
  with a b show ?thesis by (simp add: tail_kept_def)
qed

lemma put_tail: "put c a = Ret b \<Longrightarrow> tail_kept a b"
  by (auto simp: put_def tail_kept_def split: prod.splits if_splits)

lemma copy_name_tail: "copy_name path r a = Ret (r', b) \<Longrightarrow> tail_kept a b"
proof (induction path r a rule: copy_name.induct)
  case (1 path r a)
  show ?case
  proof (cases "r < length path \<and> path ! r \<noteq> CHR ''/''")
    case True
    with "1.prems" obtain o1 where o1: "put (path ! r) a = Ret o1" "copy_name path (Suc r) o1 = Ret (r', b)"
      by (subst (asm) copy_name.simps) (auto simp: obind_Ret_iff)
    from "1.IH" [OF _ _ _ o1] True put_tail [OF o1(1)] show ?thesis by (auto intro: tail_kept_trans)
  next
    case False
    with "1.prems" show ?thesis by (subst (asm) copy_name.simps) (auto simp: tail_kept_refl split: if_splits)
  qed
qed

lemma no_dotdot_here: "no_dot_dot path \<Longrightarrow> at_dotdot path r \<noteq> Ret True"
  unfolding no_dot_dot_def at_dotdot_def
  by (auto simp: obind_Ret_iff rd_Ret_iff split: if_splits)

lemma clean_loop_tail:
  "no_dot_dot path \<Longrightarrow> clean_loop path rooted r d a = Ret b \<Longrightarrow> tail_kept a b"
proof (induction path rooted r d a rule: clean_loop.induct)
  case (1 path rooted r d a)
  note U = "1.prems"(2) [unfolded clean_loop.simps [of path rooted r d a]]
  show ?case
  proof (cases "r < length path")
    case r: True
    show ?thesis
    proof (cases "path ! r = CHR ''/''")
      case True
      with U r have "clean_loop path rooted (Suc r) d a = Ret b" by simp
      with "1.IH"(1) r True "1.prems"(1) show ?thesis by simp
    next
      case ns: False
      with U r obtain dot where dot: "at_dot path r = Ret dot" by (auto simp: obind_Ret_iff)
      show ?thesis
      proof (cases dot)
        case True
        with U r ns dot have "clean_loop path rooted (Suc r) d a = Ret b" by simp
        with "1.IH"(2) r ns dot True "1.prems"(1) show ?thesis by simp
      next
        case nd: False
        with U r ns dot obtain dots where dots: "at_dotdot path r = Ret dots" by (auto simp: obind_Ret_iff)
        with no_dotdot_here [OF "1.prems"(1)] have "\<not> dots" by auto
        with U r ns dot nd dots obtain o1 r2 o2 where o:
          "(if rooted \<and> snd a \<noteq> 1 \<or> \<not> rooted \<and> snd a \<noteq> 0 then put CHR ''/'' a else Ret a) = Ret o1"
          "copy_name path r o1 = Ret (r2, o2)" "clean_loop path rooted r2 d o2 = Ret b"
          by (auto simp: obind_Ret_iff simp del: One_nat_def)
        have "tail_kept a o1" using o(1) by (auto split: if_splits intro: put_tail tail_kept_refl)
        moreover have "tail_kept o1 o2" by (rule copy_name_tail [OF o(2)])
        moreover have "tail_kept o2 b"
          using "1.IH"(6) [OF r _ ns dot nd dots \<open>\<not> dots\<close> o(1,2) refl "1.prems"(1) o(3)] r by simp
        ultimately show ?thesis by (blast intro: tail_kept_trans)
      qed
    qed
  qed (use U in \<open>simp add: tail_kept_refl\<close>)
qed

lemma clean_path_tail:
  assumes "no_dot_dot path" "clean_path path np = Ret (np', w)"
  shows "length np' = length np \<and> drop w np' = drop w np"
proof (cases "path = []")
  case True
  then show ?thesis using assms(2) by (auto simp: clean_path_def put_def split: if_splits)
next
  case False
  define rooted where "rooted = (path ! 0 = CHR ''/'')"
  have U: "obind (if rooted then put CHR ''/'' (np, 0) else Ret (np, 0)) (\<lambda>out.
      obind (clean_loop path rooted (if rooted then 1 else 0) (if rooted then 1 else 0) out) (\<lambda>out.
        if snd out = 0 then put CHR ''.'' out else Ret out)) = Ret (np', w)"
    using assms(2) False by (simp add: clean_path_def rooted_def Let_def)
  then obtain o1 o2 where o: "(if rooted then put CHR ''/'' (np, 0) else Ret (np, 0)) = Ret o1"
    "clean_loop path rooted (if rooted then 1 else 0) (if rooted then 1 else 0) o1 = Ret o2"
    "(if snd o2 = 0 then put CHR ''.'' o2 else Ret o2) = Ret (np', w)"
    by (auto simp: obind_Ret_iff)
  have "tail_kept (np, 0) o1" using o(1) by (auto split: if_splits intro: put_tail tail_kept_refl)
  moreover have "tail_kept o1 o2" by (rule clean_loop_tail [OF assms(1) o(2)])
  moreover have "tail_kept o2 (np', w)" using o(3) by (auto split: if_splits intro: put_tail tail_kept_refl)
  ultimately have "tail_kept (np, 0) (np', w)" by (blast intro: tail_kept_trans)
  then show ?thesis by (simp add: tail_kept_def)
qed

section \<open>Characters of the normal form\<close>

lemma set_join: "set (join_slash st) \<subseteq> insert (CHR ''/'') (\<Union> (set ` set st))"
  by (induction st rule: join_slash.induct) auto

lemma set_split: "x \<in> set (split_slash s) \<Longrightarrow> set x \<subseteq> set s"
proof (induction s arbitrary: x)
  case (Cons a s)
  show ?case
  proof (cases "split_slash s")
    case (Cons y ys)
    then have "set y \<subseteq> set s" "\<And>z. z \<in> set ys \<Longrightarrow> set z \<subseteq> set s" using Cons.IH by auto
    with Cons \<open>x \<in> set (split_slash (a # s))\<close> show ?thesis by (auto split: if_splits)
  qed (use Cons.prems in \<open>auto split: if_splits\<close>)
qed simp

lemma norm_fold_chars:
  assumes "\<And>x. x \<in> set cs \<Longrightarrow> set x \<subseteq> S" "\<And>x. x \<in> set st \<Longrightarrow> set x \<subseteq> S" "CHR ''.'' \<in> S"
  shows "x \<in> set (foldl (norm_step rooted) st cs) \<Longrightarrow> set x \<subseteq> S"
  using assms
proof (induction cs arbitrary: st)
  case (Cons c cs)
  have "set y \<subseteq> S" if "y \<in> set (norm_step rooted st c)" for y
    using that Cons.prems(2,3,4) by (auto simp: norm_step_def split: if_splits dest!: in_set_butlastD)
  with Cons show ?case by simp
qed simp

lemma set_clean_spec: "set (clean_spec path) \<subseteq> set path \<union> set ''./''"
proof -
  let ?st = "foldl (norm_step (path \<noteq> [] \<and> hd path = CHR ''/'')) [] (split_slash path)"
  have "set x \<subseteq> set path \<union> set ''./''" if "x \<in> set ?st" for x
    using that by (rule norm_fold_chars [rotated 3]) (auto dest: set_split)
  then have "set (join_slash ?st) \<subseteq> set path \<union> set ''./''" using set_join [of ?st] by auto
  then show ?thesis by (auto simp: clean_spec_def Let_def render_def)
qed

lemma set_file_name: "set (file_name path) \<subseteq> set path \<union> set ''./index.html''"
  using set_clean_spec [of path] by (auto simp: file_name_def Let_def)

section \<open>The name given to open\<close>

definition c_string :: "char list \<Rightarrow> char list" where
  "c_string = takeWhile (\<lambda>c. c \<noteq> NUL)"

lemma c_string_take:
  assumes "n < length np" "np ! n = NUL" "NUL \<notin> set (take n np)"
  shows "c_string np = take n np"
proof -
  have "np = take n np @ NUL # drop (Suc n) np" using assms(1,2) by (metis id_take_nth_drop)
  then have "c_string np = takeWhile (\<lambda>c. c \<noteq> NUL) (take n np @ NUL # drop (Suc n) np)"
    unfolding c_string_def by argo
  also have "\<dots> = take n np"
    using assms(3) by (subst takeWhile_append2) auto
  finally show ?thesis .
qed

lemma normalize_url_steps:
  assumes "normalize_url path = Ret (np, n)" "path \<noteq> []" "length path \<le> 1004"
  obtains np' w where "clean_path path (replicate 1023 NUL) = Ret (np', w)"
    "w \<le> 1004" "length np' = 1023"
    "np ! n = NUL \<or> drop w np' \<noteq> drop w (replicate 1023 NUL)"
proof -
  define np0 where "np0 = (replicate MAX_URL_SIXE NUL)[0 := CHR ''.'']"
  have d0: "drop 1 np0 = replicate 1023 NUL" by (simp add: np0_def MAX_URL_SIXE_def)
  have "max 1 (length path) \<le> length (replicate 1023 NUL)" using assms by (cases path) simp_all
  from clean_path_refines [OF this] obtain np' w where
    C: "clean_path path (replicate 1023 NUL) = Ret (np', w)" "0 < w" "w \<le> max 1 (length path)" "length np' = 1023"
    by auto
  have w: "w \<le> 1004" using C(3) assms by auto
  define np1 where "np1 = take 1 np0 @ np'"
  have l1: "length np1 = 1024" using C(4) by (simp add: np1_def np0_def MAX_URL_SIXE_def)
  have "np ! n = NUL" if t: "drop w np' = drop w (replicate 1023 NUL)"
  proof -
    have z: "np1 ! i = NUL" if "Suc w \<le> i" "i < 1024" for i
    proof -
      have "np1 ! i = np' ! (i - 1)" using that by (simp add: np1_def nth_append np0_def MAX_URL_SIXE_def)
      also have "\<dots> = drop w np' ! (i - 1 - w)" using that C(4) by simp
      also have "\<dots> = NUL" using that unfolding t by simp
      finally show ?thesis .
    qed
    have U: "obind (rd path (length path - 1)) (\<lambda>c.
      obind (if c = CHR ''/'' \<and> 1 + w \<noteq> 2 then put (CHR ''/'') (np1, 1 + w)
             else Ret (np1, 1 + w)) (\<lambda>(np, new_length).
      obind (rd np (new_length - 1)) (\<lambda>c.
      if c = CHR ''/'' then
        obind (copy_out (''index.html'' @ [NUL]) (np, new_length)) (\<lambda>(np, _). Ret (np, new_length + 10))
      else Ret (np, new_length)))) = Ret (np, n)"
      using assms(1) unfolding normalize_url_def Let_def np0_def [symmetric] d0 C(1) obind.simps prod.case
        np1_def [symmetric] .
    then obtain c np2 n2 c2 where s:
      "(if c = CHR ''/'' \<and> 1 + w \<noteq> 2 then put (CHR ''/'') (np1, 1 + w) else Ret (np1, 1 + w)) = Ret (np2, n2)"
      "(if c2 = CHR ''/'' then
        obind (copy_out (''index.html'' @ [NUL]) (np2, n2)) (\<lambda>(np, _). Ret (np, n2 + 10))
      else Ret (np2, n2)) = Ret (np, n)"
    proof -
      let ?P = "\<lambda>c. if c = CHR ''/'' \<and> 1 + w \<noteq> 2 then put (CHR ''/'') (np1, 1 + w) else Ret (np1, 1 + w)"
      let ?F = "\<lambda>np2 n2 c2. if c2 = CHR ''/'' then
        obind (copy_out (''index.html'' @ [NUL]) (np2, n2)) (\<lambda>(np, _). Ret (np, n2 + 10)) else Ret (np2, n2)"
      obtain c where 1: "obind (?P c) (\<lambda>(np, n). obind (rd np (n - 1)) (?F np n)) = Ret (np, n)"
        using iffD1 [OF obind_Ret_iff U] by blast
      obtain np2 n2 where 2: "?P c = Ret (np2, n2)" "obind (rd np2 (n2 - 1)) (?F np2 n2) = Ret (np, n)"
        using iffD1 [OF obind_Ret_iff 1] by auto
      obtain c2 where "?F np2 n2 c2 = Ret (np, n)" using iffD1 [OF obind_Ret_iff 2(2)] by blast
      with 2(1) show ?thesis by (rule that)
    qed
    have 2: "length np2 = 1024" "n2 \<le> 1006" "np2 ! n2 = NUL"
      using s(1) l1 w z by (auto simp: put_def nth_list_update split: if_splits)
    show ?thesis
    proof (cases "c2 = CHR ''/''")
      case True
      obtain L where L: "L = ''index.html''" "length L = 10" by simp
      have "np = take n2 np2 @ (L @ [NUL]) @ drop (n2 + 11) np2" "n = n2 + 10"
        using s(2) True 2(1,2) L(2) unfolding L(1) [symmetric] by (auto simp: copy_out_def)
      then show ?thesis using 2 L(2) by (simp add: nth_append)
    next
      case False
      with s(2) 2 show ?thesis by simp
    qed
  qed
  with C w that show thesis by blast
qed

lemma normalize_url_opens:
  assumes "path \<noteq> []" "length path \<le> 1004" "no_dot_dot path" "NUL \<notin> set path"
  shows "\<exists>np n. normalize_url path = Ret (np, n) \<and> c_string np = file_name path \<and> take n np = file_name path"
proof -
  obtain np n where r: "normalize_url path = Ret (np, n)" "length np = 1024" "n \<le> 1020" "take n np = file_name path"
    using normalize_url_result [OF assms(1,2)] by blast
  obtain np' w where C: "clean_path path (replicate 1023 NUL) = Ret (np', w)"
    "np ! n = NUL \<or> drop w np' \<noteq> drop w (replicate 1023 NUL)"
    using normalize_url_steps [OF r(1) assms(1,2)] by metis
  have "np ! n = NUL" using clean_path_tail [OF assms(3) C(1)] C(2) by blast
  moreover have "NUL \<notin> set (take n np)"
    unfolding r(4) using set_file_name [of path] assms(4) by auto
  ultimately have "c_string np = take n np" using r(2,3) by (intro c_string_take) auto
  with r show ?thesis by auto
qed

text \<open>
  C22.  The file name: for a request path of 1 to 1004 bytes without a zero byte and without two dots in
  a row, \<^verbatim>\<open>parse_url\<close> passes \<^verbatim>\<open>open\<close> exactly \<open>file_name path\<close> (a dot, the normalised path, the trailing
  slash put back, \<^verbatim>\<open>index.html\<close> behind a slash), and the same text is what the content type is chosen by.
\<close>

theorem opened_file_name:
  assumes "path \<noteq> []" "length path \<le> 1004" "no_dot_dot path" "NUL \<notin> set path"
  shows "\<exists>np n. normalize_url path = Ret (np, n) \<and> c_string np = file_name path \<and> take n np = file_name path"
  by (rule normalize_url_opens [OF assms])

lemma opened_file_name_witness:
  "\<exists>np n. normalize_url ''/a//b/'' = Ret (np, n) \<and> c_string np = ''./a/b/index.html''"
proof -
  have "file_name ''/a//b/'' = ''./a/b/index.html''" by code_simp
  moreover have "no_dot_dot ''/a//b/''" by (simp add: no_dot_dot_def nth_Cons' less_Suc_eq)
  ultimately show ?thesis using opened_file_name [of "''/a//b/''"] by auto
qed


end
