(* ===== verification/Yotta_Serving.thy ===== *)
theory Yotta_Serving
  imports Yotta_Delivery Yotta_Names
begin

text \<open>
  From the request to the response: what \<^verbatim>\<open>read_callback_http\<close> decides, and what a client
  receives in the end.
\<close>

section \<open>A request that arrives in one piece\<close>

definition request_path :: "char list \<Rightarrow> request_out \<Rightarrow> char list" where
  "request_path b st = takeWhile (\<lambda>c. c \<noteq> CHR ''?'') (slice b (the (rq_path st)) (rq_path_len st))"

definition name_of :: "char list \<Rightarrow> phr_header \<Rightarrow> char list" where
  "name_of b h = (case hname h of None \<Rightarrow> [] | Some p \<Rightarrow> slice b p (hname_len h))"

text \<open>No header the server looks at.\<close>

definition plain_headers :: "char list \<Rightarrow> request_out \<Rightarrow> bool" where
  "plain_headers b st \<longleftrightarrow>
     (\<forall>h \<in> set (take (num_headers st) (headers st)). name_of b h \<notin> {''If-Modified-Since'', ''Range''})"

lemma slice_append: "p + n \<le> length b \<Longrightarrow> take n (drop p (b @ c)) = slice b p n"
  by (simp add: Pico_Parse.slice_def)

lemma header_loop_plain:
  assumes "\<And>h. h \<in> set hs \<Longrightarrow> map_of header_callbacks (header_text u h) = None"
  shows "header_loop hs u = Ret (False, u)"
  using assms by (induction hs) simp_all

lemma no_callback: "map_of header_callbacks n = None \<longleftrightarrow> n \<notin> {''If-Modified-Since'', ''Range''}"
  by (auto simp: header_callbacks_def)

definition opened_file :: "char list \<Rightarrow> int \<Rightarrow> inode \<Rightarrow> kernel \<Rightarrow> kernel" where
  "opened_file name fd f k =
     trace_event (Opened fd name) (k\<lparr>k_new_fds := tl (k_new_fds k), k_fds := (k_fds k)(fd \<mapsto> f)\<rparr>)"

lemma parse_url_file:
  assumes "path' = takeWhile (\<lambda>c. c \<noteq> CHR ''?'') path" "path' \<noteq> []" "length path' \<le> 1004"
    "normalize_url path' = Ret (np, n)" "k_files k (c_string np) = Some f" "f_regular f"
    "k_new_fds k = fd # fds" "fd \<noteq> -1"
  shows "parse_url path u k = Ret (u\<lparr>extension := content_type (take n np), file_fd := fd,
      file_size := of_nat (length (f_content f)),
      file_stat := \<lparr>st_regular = True, st_mtime = f_mtime f, st_size = int (length (f_content f))\<rparr>\<rparr>,
    opened_file (c_string np) fd f k)"
  using assms
  by (simp add: parse_url_def Let_def MAX_URL_SIXE_def sys_open_def new_fd_def c_string_def [symmetric]
      opened_file_def)

text \<open>The user data once a whole file has been chosen as the response.\<close>

definition file_chosen :: "user_data \<Rightarrow> char list \<Rightarrow> int \<Rightarrow> inode \<Rightarrow> user_data" where
  "file_chosen u name fd f = u\<lparr>extension := content_type name, file_fd := fd,
      file_size := of_nat (length (f_content f)),
      file_stat := \<lparr>st_regular = True, st_mtime = f_mtime f, st_size = int (length (f_content f))\<rparr>\<rparr>"

definition file_header :: "char list \<Rightarrow> inode \<Rightarrow> char list" where
  "file_header name f = text_200 (length (f_content f)) (f_mtime f) (content_type name)"

lemma length_file_header:
  assumes "year_fits (f_mtime f)" "length (f_content f) < 2 ^ 64"
  shows "0 < length (file_header name f) \<and> length (file_header name f) < 2048"
  using length_text_200 [OF assms, of "content_type name"] content_type_short [of name]
  by (simp add: file_header_def) (simp add: text_200_def)

lemma decide_file:
  assumes u: "user_ok u" "\<not> finalized u" "parsed > 0" "rq_path (parser u) = Some p"
    and path: "path = takeWhile (\<lambda>c. c \<noteq> CHR ''?'') (take (rq_path_len (parser u)) (drop p (buf u)))"
      "path \<noteq> []" "length path \<le> 1004"
    and fil: "normalize_url path = Ret (np, n)" "k_files k (c_string np) = Some f" "f_regular f"
      "k_new_fds k = fd # fds" "fd \<noteq> -1" "year_fits (f_mtime f)" "length (f_content f) < 2 ^ 64"
    and plain: "\<And>h. h \<in> set (take (num_headers (parser u)) (headers (parser u))) \<Longrightarrow>
      header_text u h \<notin> {''If-Modified-Since'', ''Range''}"
  shows "\<exists>a. decide parsed u k = Ret ((file_chosen u (take n np) fd f)
      \<lparr>response_buf := a, response_size := of_nat (length (file_header (take n np) f)), content := True, finalized := True\<rparr>,
      opened_file (c_string np) fd f k) \<and>
    length a = 2048 \<and> take (length (file_header (take n np) f)) a = file_header (take n np) f"
proof -
  let ?u = "file_chosen u (take n np) fd f"
  have pu: "parse_url (take (rq_path_len (parser u)) (drop p (buf u))) u k = Ret (?u, opened_file (c_string np) fd f k)"
    unfolding file_chosen_def by (rule parse_url_file [OF path fil(1-5)])
  have same: "parser ?u = parser u" "\<not> finalized ?u" "response_buf ?u = response_buf u"
    "header_text ?u h = header_text u h" for h
    using u(2) by (simp_all add: file_chosen_def header_text_def split: option.splits)
  have hl: "header_loop (take (num_headers (parser ?u)) (headers (parser ?u))) ?u = Ret (False, ?u)"
    using plain same by (intro header_loop_plain) (simp add: no_callback)
  have "length (file_header (take n np) f) < length (response_buf ?u)"
    using length_file_header [OF fil(6,7)] u(1) same by (simp add: user_ok_def)
  from respond_appends [OF serve_200_appends [OF fil(6), of "length (f_content f)" "content_type (take n np)",
      folded file_header_def] this, of True]
  obtain a where a: "respond True (serve_200 (length (f_content f)) (f_mtime f) (content_type (take n np))) ?u =
      Ret (?u\<lparr>response_buf := a, response_size := of_nat (length (file_header (take n np) f)),
        content := True, finalized := True\<rparr>)"
    "length a = length (response_buf ?u)" "take (length (file_header (take n np) f)) a = file_header (take n np) f"
    by blast
  have "http_parse_headers ?u = respond True (serve_200 (length (f_content f)) (f_mtime f) (content_type (take n np))) ?u"
    using hl same(2) fil(7)
    by (simp add: http_parse_headers_def file_chosen_def unat_small)
  with a pu u same show ?thesis by (auto simp: decide_def user_ok_def)
qed

section \<open>From the request to the client\<close>

text \<open>
  The first read of a request: the bytes \<open>b\<close> land at the start of the buffer, the parser sees exactly
  them.
\<close>

lemma read_loop_first:
  assumes W: "waiting ctx u" and b: "b \<noteq> []" "length b \<le> 2048"
    and P: "phr_parse_request False b 0 (fresh_request MAX_HEADERS) = (st, Ret parsed)"
    and D: "decide parsed (u\<lparr>buf := b @ drop (length b) (buf u), counter := of_nat (length b), parser := st\<rparr>) k =
      Ret (u', k')" "finalized u'" "False \<notin> set (k_results k')"
  shows "\<exists>k2. read_loop (yotta junk) [Data b] ctx k =
      Ret (yta_async_write Write_header_callback (At Response_buf 0) (response_size u')
        (ctx\<lparr>ctx_user_data := Some u', read_callback := None\<rparr>), YTA_LOOP_CONTINUE, k2) \<and>
    k_fds k2 = k_fds k' \<and> set (k_results k2) \<subseteq> set (k_results k') \<and>
    k_trace k2 = k_trace k' @ [Corked (ctx_fd ctx) True]"
proof -
  have w: "ctx_user_data ctx = Some u" "user_ok u" "read_callback ctx = Some Read_callback_http"
    "read_buf ctx = At Buf 0" "unat (to_read ctx) = 2048" "counter u = 0" "parser u = fresh_request MAX_HEADERS"
    using W by (auto simp: waiting_def yotta_ok_def read_ok_def)
  obtain k2 where s: "call_or_exit (Corked (ctx_fd ctx) True) k' = Ret k2"
    "k_trace k2 = k_trace k' @ [Corked (ctx_fd ctx) True]" "k_fds k2 = k_fds k'"
    "set (k_results k2) \<subseteq> set (k_results k')"
    using call_or_exit_ok [OF D(3)] by blast
  have "yotta_store u (read_buf ctx) b = Ret (u\<lparr>buf := b @ drop (length b) (buf u)\<rparr>)"
    using w(2,4) b(2) by (simp add: store_at_def user_ok_def)
  moreover have "unat (of_nat (length b) :: size_t) = length b" using b(2) by (intro unat_small) simp
  moreover have "take 2048 b = b" using b(2) by simp
  ultimately show ?thesis
    using w b P D(1,2) s
    by (intro exI [of _ k2])
       (simp add: yotta_def yotta_io_def the_user_def read_callback_http_def Let_def arm_next_def set_cork_def
          yta_async_write_def)
qed

text \<open>Slices of the request are slices of the buffer that starts with it.\<close>

lemma header_text_first:
  "header_inside b h \<Longrightarrow> buf u = b @ c \<Longrightarrow> header_text u h = name_of b h"
  by (auto simp: header_text_def name_of_def header_inside_def Pico_Parse.slice_def split: option.splits)

lemma request_facts:
  assumes "phr_parse_request False b 0 (fresh_request MAX_HEADERS) = (st, Ret parsed)" "0 < parsed"
  shows "request_inside b st" "num_headers st \<le> 30" "length (headers st) = 30"
  using phr_parse_request_contract [OF _ _ assms(1)] assms(2)
  by (auto simp: fresh_request_def MAX_HEADERS_def)

definition served :: "char list \<Rightarrow> inode \<Rightarrow> char list" where
  "served name f = file_header name f @ f_content f"

text \<open>
  The whole exchange, on the events and answers of one entry of the event array, for whatever response
  \<open>decide\<close> chooses: its header and then its part of the file reach the client, and the connection waits
  for the next request.
\<close>

definition received :: "char list \<Rightarrow> user_data \<Rightarrow> request_out \<Rightarrow> user_data" where
  "received b u st = u\<lparr>buf := b @ drop (length b) (buf u), counter := of_nat (length b), parser := st\<rparr>"

definition body_of :: "user_data \<Rightarrow> kernel \<Rightarrow> char list" where
  "body_of u k = (if content u then file_part k (file_fd u) (unat (offset u)) (unat (file_size u)) else [])"

definition one_request :: "epoll_event \<Rightarrow> char list \<Rightarrow> char list \<Rightarrow> bool" where
  "one_request e b response \<longleftrightarrow> ev_in e \<and> ev_out e \<and> ev_reads e = [Data b] \<and> b \<noteq> [] \<and> length b \<le> 2048 \<and>
     (\<forall>a \<in> set (ev_writes e). \<exists>n. a = Room (Suc n)) \<and> length response \<le> length (ev_writes e)"

lemma exchange:
  assumes W: "waiting ctx u" and e: "one_request e b (header @ body_of u2 k1)"
    and P: "phr_parse_request False b 0 (fresh_request MAX_HEADERS) = (st, Ret parsed)"
    and D: "decide parsed (received b u st) k = Ret (u2, k1)" "finalized u2" "False \<notin> set (k_results k1)"
    and H: "take (length header) (response_buf u2) = header" "header \<noteq> []" "length header < 2048"
      "response_size u2 = of_nat (length header)"
    and R: "content u2 \<Longrightarrow> region_ok k1 (file_fd u2) (offset u2) (file_size u2)"
    and T: "sent_on (ctx_fd ctx) (k_trace k1) = sent_on (ctx_fd ctx) (k_trace k)"
  shows "\<exists>ctx' k' u'. serve_connection (yotta junk) e ctx k = Ret (ctx', YTA_LOOP_CONTINUE, k') \<and>
    waiting ctx' u' \<and> offset u' = offset u2 \<and> ctx_fd ctx' = ctx_fd ctx \<and> False \<notin> set (k_results k') \<and>
    sent_on (ctx_fd ctx) (k_trace k') = sent_on (ctx_fd ctx) (k_trace k) @ header @ body_of u2 k1"
proof -
  have b: "b \<noteq> []" "length b \<le> 2048" using e by (simp_all add: one_request_def)
  from read_loop_first [OF W b P D(1) [unfolded received_def] D(2,3), of junk]
  obtain k2 where k2: "read_loop (yotta junk) [Data b] ctx k =
      Ret (yta_async_write Write_header_callback (At Response_buf 0) (response_size u2)
        (ctx\<lparr>ctx_user_data := Some u2, read_callback := None\<rparr>), YTA_LOOP_CONTINUE, k2)"
    "k_fds k2 = k_fds k1" "set (k_results k2) \<subseteq> set (k_results k1)"
    "k_trace k2 = k_trace k1 @ [Corked (ctx_fd ctx) True]" by blast
  define ctx1 where "ctx1 = yta_async_write Write_header_callback (At Response_buf 0) (response_size u2)
        (ctx\<lparr>ctx_user_data := Some u2, read_callback := None\<rparr>)"
  have "keeps_yotta ctx (read_loop (yotta junk) [Data b] ctx k)"
    using W by (intro yotta.read_loop_keeps) (simp add: waiting_def)
  then have ok1: "yotta_ok ctx1" "ctx_fd ctx1 = ctx_fd ctx" using k2(1) by (simp_all add: ctx1_def)
  have rs: "unat (response_size u2) = length header" using H(3,4) by (simp add: unat_small)
  have c: "write_callback ctx1 = Some Write_header_callback" "ctx_user_data ctx1 = Some u2"
    "already_written ctx1 = 0" "to_write ctx1 = response_size u2"
    by (simp_all add: ctx1_def yta_async_write_def)
  have reg: "content u2 \<Longrightarrow> region_ok k2 (file_fd u2) (offset u2) (file_size u2)"
    using R k2(2) by (simp add: region_ok_def)
  have S: "sendable ctx1 k2"
    using ok1 c reg k2(3) D(3) rs H(2) by (auto simp: sendable_def word_less_nat_alt)
  have ow: "owed ctx1 k2 = header @ body_of u2 k1"
    using c rs H(1) k2(2) by (simp add: owed_def body_of_def file_part_def)
  have rooms: "\<exists>n. a = Room (Suc n)" if "a \<in> set (ev_writes e)" for a
    using that e by (simp add: one_request_def)
  have len: "length (owed ctx1 k2) \<le> length (ev_writes e)" using e ow by (simp add: one_request_def)
  obtain ctx' k' u' where w: "write_loop (yotta junk) (ev_writes e) ctx1 k2 = Ret (ctx', YTA_LOOP_CONTINUE, k')"
    "user_offset ctx' = user_offset ctx1" "ctx_fd ctx' = ctx_fd ctx1" "False \<notin> set (k_results k')" "waiting ctx' u'"
    "sent_on (ctx_fd ctx1) (k_trace k') = sent_on (ctx_fd ctx1) (k_trace k2) @ owed ctx1 k2"
    using write_loop_completes [OF S rooms len, of junk] c(1) by auto
  have "serve_connection (yotta junk) e ctx k = Ret (ctx', YTA_LOOP_CONTINUE, k')"
    using e k2(1) w(1) unfolding ctx1_def [symmetric] by (simp add: serve_connection_def one_request_def)
  moreover have "offset u' = offset u2" using w(2,5) c(2) by (simp add: user_offset_def waiting_def)
  ultimately show ?thesis using w ok1 ow k2(4) T by auto
qed

text \<open>What the parser found, in the user data that holds the request.\<close>

lemma received_facts:
  assumes "waiting ctx u" "b \<noteq> []" "length b \<le> 2048"
    and "phr_parse_request False b 0 (fresh_request MAX_HEADERS) = (st, Ret parsed)" "0 < parsed"
  shows "user_ok (received b u st)" "\<not> finalized (received b u st)"
    "rq_path st = Some (the (rq_path st))"
    "request_path b st = takeWhile (\<lambda>c. c \<noteq> CHR ''?'')
       (take (rq_path_len (parser (received b u st))) (drop (the (rq_path st)) (buf (received b u st))))"
    "\<And>h. h \<in> set (take (num_headers st) (headers st)) \<Longrightarrow>
       header_text (received b u st) h = name_of b h \<and>
       take (hvalue_len h) (drop (hvalue h) (buf (received b u st))) = slice b (hvalue h) (hvalue_len h)"
proof -
  have uok: "user_ok u" "\<not> finalized u" using assms(1) by (auto simp: waiting_def yotta_ok_def)
  note F = request_facts [OF assms(4,5)]
  show "user_ok (received b u st)" "\<not> finalized (received b u st)"
    using uok F assms(3) by (auto simp: received_def user_ok_def)
  obtain p where p: "rq_path st = Some p" "p + rq_path_len st \<le> length b"
    using F(1) by (auto simp: request_inside_def token_inside_def)
  then show "rq_path st = Some (the (rq_path st))"
    "request_path b st = takeWhile (\<lambda>c. c \<noteq> CHR ''?'')
       (take (rq_path_len (parser (received b u st))) (drop (the (rq_path st)) (buf (received b u st))))"
    using slice_append [OF p(2)] by (simp_all add: request_path_def received_def)
  show "header_text (received b u st) h = name_of b h \<and>
       take (hvalue_len h) (drop (hvalue h) (buf (received b u st))) = slice b (hvalue h) (hvalue_len h)"
    if "h \<in> set (take (num_headers st) (headers st))" for h
  proof -
    have "header_inside b h"
      using that F by (auto simp: request_inside_def in_set_conv_nth)
    then show ?thesis using header_text_first [of b h "received b u st" "drop (length b) (buf u)"] slice_append
      by (simp add: received_def header_inside_def)
  qed
qed

lemma request_path_no_NUL:
  assumes "request_inside b st"
  shows "NUL \<notin> set (request_path b st)"
proof -
  have "\<forall>c \<in> set (slice b (the (rq_path st)) (rq_path_len st)). tok_char c"
    using assms by (auto simp: request_inside_def token_inside_def)
  moreover have "\<not> tok_char NUL" by (simp add: tok_char_def uchar_def)
  ultimately show ?thesis by (auto simp: request_path_def dest: set_takeWhileD)
qed



section \<open>A concrete exchange\<close>

text \<open>A connection on descriptor 7 that has just been accepted, with its timer on descriptor 8.\<close>

definition accepted_user :: user_data where
  "accepted_user = (new_user_data some_user)\<lparr>parser := fresh_request MAX_HEADERS, counter := 0,
     finalized := False, file_fd := 0\<rparr>"

definition accepted :: yotta_ctx where
  "accepted = accept_logic (new_user_data some_user)
     ((new_ctx 11 7)\<lparr>close_callback := Some Http_cleanup, timer_callback := Some Timer_callback, timer_fd := 8\<rparr>)"

lemma accepted_waiting: "waiting accepted accepted_user"
proof -
  have "yotta_ok accepted \<and> ctx_fd accepted = 7"
    unfolding accepted_def
    using accept_logic_ok [of "new_user_data some_user" "(new_ctx 11 7)\<lparr>close_callback := Some Http_cleanup,
      timer_callback := Some Timer_callback, timer_fd := 8\<rparr>"]
    by (simp add: new_user_data_def MAX_BUFFER_SIZE_def new_ctx_def write_ok_def)
  then show ?thesis
    by (simp add: waiting_def accepted_def accepted_user_def accept_logic_def Let_def yta_async_read_def new_ctx_def)
qed

definition hello_file :: inode where
  "hello_file = \<lparr>f_regular = True, f_mtime = 0, f_content = ''hello world''\<rparr>"

definition hello_kernel :: kernel where
  "hello_kernel = \<lparr>k_files = [''./hello'' \<mapsto> hello_file], k_fds = (\<lambda>_. None), k_new_fds = [9],
     k_results = [], k_trace = []\<rparr>"

definition hello_request :: "char list" where
  "hello_request = ''GET /hello?x HTTP/1.1'' @ crlf @ ''Host: y'' @ crlf @ crlf"

definition hello_event :: epoll_event where
  "hello_event = \<lparr>ev_ptr = 1, ev_in = True, ev_out = True, ev_err = False, ev_rdhup = False,
     ev_accepts = [], ev_reads = [Data hello_request], ev_writes = replicate 2100 (Room 1)\<rparr>"

lemma hello_parsed:
  "snd (phr_parse_request False hello_request 0 (fresh_request MAX_HEADERS)) = Ret 34"
  "request_path hello_request (fst (phr_parse_request False hello_request 0 (fresh_request MAX_HEADERS))) = ''/hello''"
  "map (name_of hello_request) (take (num_headers (fst (phr_parse_request False hello_request 0 (fresh_request MAX_HEADERS))))
     (headers (fst (phr_parse_request False hello_request 0 (fresh_request MAX_HEADERS))))) = [''Host'']"
  by code_simp+

lemma year_fits_0: "year_fits 0"
  using year_1970_9999 [of 0] by (simp add: year_fits_def)



end
