(* ===== verification/Yotta_Responses.thy ===== *)
theory Yotta_Responses
  imports Yotta_Serving
begin

text \<open>
  The other responses of the file server, end to end: parts of a file for a \<^verbatim>\<open>Range\<close> header, 304 for
  \<^verbatim>\<open>If-Modified-Since\<close>, 404 for what cannot be opened and 400 for what cannot be parsed.
\<close>

section \<open>The header that decides\<close>

text \<open>The first header the server looks at.\<close>

definition first_callback :: "char list \<Rightarrow> request_out \<Rightarrow> phr_header \<Rightarrow> bool" where
  "first_callback b st h \<longleftrightarrow>
     (\<exists>pre post. take (num_headers st) (headers st) = pre @ h # post \<and>
        (\<forall>h' \<in> set pre. name_of b h' \<notin> {''If-Modified-Since'', ''Range''}))"

lemma header_loop_first:
  assumes "\<And>h'. h' \<in> set pre \<Longrightarrow> map_of header_callbacks (header_text u h') = None"
    and "map_of header_callbacks (header_text u h) = Some handler" "\<not> finalized u"
  shows "header_loop (pre @ h # post) u = obind (call_header_handler handler h u) (\<lambda>(done, u).
    if done then Ret (True, u) else header_loop post u)"
  using assms by (induction pre) simp_all

text \<open>The decision for a file that can be opened.\<close>

lemma decide_header:
  assumes u: "\<not> finalized u" "parsed > 0" "rq_path (parser u) = Some p"
    and path: "path = takeWhile (\<lambda>c. c \<noteq> CHR ''?'') (take (rq_path_len (parser u)) (drop p (buf u)))"
      "path \<noteq> []" "length path \<le> 1004"
    and fil: "normalize_url path = Ret (np, n)" "k_files k (c_string np) = Some f" "f_regular f"
      "k_new_fds k = fd # fds" "fd \<noteq> -1"
    and hs: "take (num_headers (parser u)) (headers (parser u)) = pre @ h # post"
      "\<And>h'. h' \<in> set pre \<Longrightarrow> map_of header_callbacks (header_text u h') = None"
      "map_of header_callbacks (header_text u h) = Some handler"
    and run: "call_header_handler handler h (file_chosen u (take n np) fd f) = Ret (True, u2)"
  shows "decide parsed u k = Ret (u2, opened_file (c_string np) fd f k)"
proof -
  let ?u = "file_chosen u (take n np) fd f"
  have pu: "parse_url (take (rq_path_len (parser u)) (drop p (buf u))) u k = Ret (?u, opened_file (c_string np) fd f k)"
    unfolding file_chosen_def by (rule parse_url_file [OF path fil(1-5)])
  have same: "parser ?u = parser u" "\<not> finalized ?u" "header_text ?u h' = header_text u h'" for h'
    using u(1) by (simp_all add: file_chosen_def header_text_def split: option.splits)
  have "header_loop (pre @ h # post) ?u = Ret (True, u2)"
    using hs same run by (subst header_loop_first [where handler = handler]) simp_all
  then have "http_parse_headers ?u = Ret u2"
    using hs(1) same by (simp add: http_parse_headers_def)
  then show ?thesis using u pu by (simp add: decide_def)
qed

section \<open>Ranges\<close>

text \<open>A range as the client writes it, and the last byte the server sends for it.\<close>

definition range_text :: "nat \<Rightarrow> nat option \<Rightarrow> char list" where
  "range_text a b = ''bytes='' @ dec a @ ''-'' @ (case b of None \<Rightarrow> [] | Some b \<Rightarrow> dec b)"

definition range_last :: "nat \<Rightarrow> nat \<Rightarrow> nat option \<Rightarrow> nat" where
  "range_last sz a b = (case b of None \<Rightarrow> sz - 1 | Some b \<Rightarrow> if b \<le> a then sz - 1 else min b (sz - 1))"

lemma stoi_dec: "n \<le> 2147483647 \<Longrightarrow> stoi (dec n) = Ret (int n)"
  using scan_dec [of "[]" n] dec_not_Nil [of n] by (simp add: stoi_def fits_int_def)

lemma dec_no_dash: "takeWhile (\<lambda>c. c \<noteq> CHR ''-'') (dec n @ CHR ''-'' # r) = dec n"
  "dropWhile (\<lambda>c. c \<noteq> CHR ''-'') (dec n @ CHR ''-'' # r) = CHR ''-'' # r"
  using dec_digits [of n] ascii_digit_no_sign by (simp_all add: takeWhile_append dropWhile_append3)

text \<open>The response to a range that starts inside the file.\<close>

lemma handle_range_run:
  assumes "st_size (file_stat u) = int sz" "a < sz" "sz \<le> 2147483647"
    and "case b of None \<Rightarrow> True | Some b \<Rightarrow> b \<le> 2147483647"
  shows "handle_range (range_text a b) u =
    obind (respond True (serve_206 (range_last sz a b - a + 1) (st_mtime (file_stat u)) a (range_last sz a b) sz)
      (u\<lparr>file_size := of_nat (range_last sz a b - a + 1), offset := of_nat a\<rparr>)) (\<lambda>u. Ret (True, u))"
proof -
  define l where "l = range_last sz a b"
  have l: "a \<le> l" "l < sz" using assms(2) by (auto simp: l_def range_last_def split: option.splits)
  define r where "r = (case b of None \<Rightarrow> [] | Some b \<Rightarrow> dec b)"
  define v where "v = range_text a b"
  have v: "take 6 v = ''bytes=''" "drop 6 v = dec a @ CHR ''-'' # r" "\<not> length v < 8"
    using dec_not_Nil [of a] by (auto simp: v_def range_text_def r_def Suc_le_eq simp flip: length_greater_0_conv)
  have sa: "stoi (dec a) = Ret (int a)" using assms(2,3) by (intro stoi_dec) simp
  have ti: "to_int (int sz - 1) = int sz - 1" using assms(2,3) by (intro to_int_fits) (simp add: fits_int_def)
  define e where "e = (case b of None \<Rightarrow> int sz - 1 | Some b \<Rightarrow> int b)"
  have sb: "(if r = [] then Ret (to_int (int sz - 1)) else stoi r) = Ret e"
    using assms(4) dec_not_Nil ti by (simp add: r_def e_def stoi_dec split: option.splits)
  have el: "(if int sz \<le> (if e \<le> int a then int sz - 1 else e) then int sz - 1
      else if e \<le> int a then int sz - 1 else e) = int l"
    using assms(2) by (auto simp: e_def l_def range_last_def split: option.splits)
  have d: "int_op (int l - int a) = Ret (int l - int a)" "int_op (int l - int a + 1) = Ret (int (l - a + 1))"
    using l assms(3) by (auto simp: int_op_def fits_int_def)
  have w: "unat (of_int (int (l - a + 1)) :: size_t) = l - a + 1" "unat (of_int (int a) :: size_t) = a"
    "unat (of_int (int l) :: size_t) = l" "unat (of_int (int sz) :: size_t) = sz"
    unfolding of_int_of_nat_eq using l assms(3) by (intro unat_small; simp)+
  have c: "(length v < 8) = False" "(CHR ''-'' # r = []) = False" "(dec a = []) = False"
    "(if int a < 0 then 0 else int a) = int a"
    using v(3) dec_not_Nil [of a] by simp_all
  have fs: "file_size (u\<lparr>file_size := x, offset := y\<rparr>) = x" "file_stat (u\<lparr>file_size := x, offset := y\<rparr>) = file_stat u"
    for x y by simp_all
  show ?thesis
    unfolding l_def [symmetric] v_def [symmetric] handle_range_def Let_def v(1,2) dec_no_dash assms(1)
    by (simp only: c list.sel obind.simps if_False if_True not_True_eq_False simp_thms sa sb)
      (simp only: ti el d obind.simps of_int_of_nat_eq fs w [unfolded of_int_of_nat_eq])
qed

text \<open>What the client receives for a range.\<close>

definition served_range :: "inode \<Rightarrow> nat \<Rightarrow> nat \<Rightarrow> char list" where
  "served_range f a l = text_206 (l - a + 1) (f_mtime f) a l (length (f_content f)) @ take (l - a + 1) (drop a (f_content f))"

text \<open>A request for a file that exists, up to the header that decides.\<close>

lemma decided_by_header:
  assumes W: "waiting ctx u" and b: "b \<noteq> []" "length b \<le> 2048"
    and P: "phr_parse_request False b 0 (fresh_request MAX_HEADERS) = (st, Ret parsed)" "0 < parsed"
    and path: "request_path b st \<noteq> []" "length (request_path b st) \<le> 1004" "no_dot_dot (request_path b st)"
    and fil: "name = file_name (request_path b st)" "k_files k name = Some f" "f_regular f" "k_new_fds k = fd # fds" "fd \<noteq> -1"
    and h: "first_callback b st h" "map_of header_callbacks (name_of b h) = Some handler"
    and run: "call_header_handler handler h (file_chosen (received b u st) name fd f) = Ret (True, u2)"
  shows "decide parsed (received b u st) k = Ret (u2, opened_file name fd f k)"
proof -
  note F = received_facts [OF W b P]
  obtain np n where np: "normalize_url (request_path b st) = Ret (np, n)" "c_string np = name" "take n np = name"
    using normalize_url_opens [OF path request_path_no_NUL [OF request_facts(1) [OF P]]] fil(1) by blast
  obtain pre post where hs: "take (num_headers st) (headers st) = pre @ h # post"
    "\<forall>h' \<in> set pre. name_of b h' \<notin> {''If-Modified-Since'', ''Range''}"
    using h(1) by (auto simp: first_callback_def)
  have u1: "parser (received b u st) = st" by (simp add: received_def)
  have t: "header_text (received b u st) h' = name_of b h'" if "h' \<in> set (pre @ h # post)" for h'
    using F(5) that unfolding hs(1) [symmetric] by blast
  show ?thesis
  proof (rule decide_header [OF F(2) P(2) _ F(4) path(1,2) np(1) _ fil(3-5), unfolded np(2,3) u1])
    show "rq_path st = Some (the (rq_path st))" by (rule F(3))
    show "k_files k name = Some f" by (rule fil(2))
    show "take (num_headers st) (headers st) = pre @ h # post" by (rule hs(1))
    show "map_of header_callbacks (header_text (received b u st) h') = None" if "h' \<in> set pre" for h'
      using hs(2) t [of h'] that no_callback by simp
    show "map_of header_callbacks (header_text (received b u st) h) = Some handler" using h(2) t [of h] by simp
    show "call_header_handler handler h (file_chosen (received b u st) name fd f) = Ret (True, u2)" by (rule run)
  qed
qed


section \<open>Responses without a body\<close>

definition text_304 :: "char list" where
  "text_304 = ''HTTP/1.1 304 Not Modified'' @ crlf @ ''Connection: keep-alive'' @ crlf @ ''Content-Length: 0'' @ crlf @ crlf"

definition text_400 :: "char list" where
  "text_400 = ''HTTP/1.1 400 Bad Request'' @ crlf @ ''Connection: close'' @ crlf @ ''Content-Length: 0'' @ crlf @ crlf"

definition text_404 :: "char list" where
  "text_404 = ''HTTP/1.1 404 Not Found'' @ crlf @ ''Connection: keep-alive'' @ crlf @ ''Content-Length: 0'' @ crlf @ crlf"

lemma plain_responses:
  "appends text_304 serve_304" "appends text_400 serve_400" "appends text_404 serve_404"
  "length text_304 < 2048" "length text_400 < 2048" "length text_404 < 2048"
  "text_304 \<noteq> []" "text_400 \<noteq> []" "text_404 \<noteq> []"
  using appends_copy_out
  by (simp_all add: serve_304_def serve_400_def serve_404_def text_304_def text_400_def text_404_def)

lemma respond_plain:
  assumes "appends t srv" "length t < 2048" "length (response_buf u) = 2048"
  shows "\<exists>a. respond False srv u = Ret (u\<lparr>response_buf := a, response_size := of_nat (length t), content := False,
    finalized := True\<rparr>) \<and> take (length t) a = t"
  using respond_appends [OF assms(1), of u False] assms(2,3) by auto

text \<open>An exchange whose response has no body.\<close>

lemma exchange_plain:
  assumes W: "waiting ctx u" and e: "one_request e b t"
    and P: "phr_parse_request False b 0 (fresh_request MAX_HEADERS) = (st, Ret parsed)"
    and D: "decide parsed (received b u st) k = Ret (u0\<lparr>response_buf := a, response_size := of_nat (length t),
      content := False, finalized := True\<rparr>, k1)" "False \<notin> set (k_results k1)" "offset u0 = offset u"
    and T: "take (length t) a = t" "t \<noteq> []" "length t < 2048"
    and S: "sent_on (ctx_fd ctx) (k_trace k1) = sent_on (ctx_fd ctx) (k_trace k)"
  shows "\<exists>ctx' k' u'. serve_connection (yotta junk) e ctx k = Ret (ctx', YTA_LOOP_CONTINUE, k') \<and>
    waiting ctx' u' \<and> offset u' = offset u \<and> ctx_fd ctx' = ctx_fd ctx \<and>
    sent_on (ctx_fd ctx) (k_trace k') = sent_on (ctx_fd ctx) (k_trace k) @ t"
proof -
  define u2 where "u2 = u0\<lparr>response_buf := a, response_size := of_nat (length t), content := False, finalized := True\<rparr>"
  have v: "finalized u2" "\<not> content u2" "response_buf u2 = a" "response_size u2 = of_nat (length t)" "offset u2 = offset u"
    using D(3) by (simp_all add: u2_def)
  have body: "body_of u2 k1 = []" using v(2) by (simp add: body_of_def)
  have "one_request e b (t @ body_of u2 k1)" using e body by simp
  from exchange [OF W this P D(1) [folded u2_def] v(1) D(2), of junk] T v S body show ?thesis by auto
qed

text \<open>The value of a header with what follows it in the buffer.\<close>

lemma value_in_buffer:
  assumes "hvalue h + hvalue_len h < length b"
  shows "\<exists>r. drop (hvalue h) (buf (received b u st)) = slice b (hvalue h) (hvalue_len h) @ b ! (hvalue h + hvalue_len h) # r"
proof -
  have "drop (hvalue h) b = slice b (hvalue h) (hvalue_len h) @ drop (hvalue h + hvalue_len h) b"
    using append_take_drop_id [of "hvalue_len h" "drop (hvalue h) b"]
    by (simp add: Pico_Parse.slice_def add.commute)
  moreover have "drop (hvalue h + hvalue_len h) b = b ! (hvalue h + hvalue_len h) # drop (Suc (hvalue h + hvalue_len h)) b"
    using assms by (simp add: Cons_nth_drop_Suc)
  ultimately show ?thesis using assms by (auto simp: received_def)
qed

text \<open>
  C18.  Conditional requests, end to end: a date in the form the server prints it in \<^verbatim>\<open>Last-Modified\<close>
  is read back, so a request with the date of the file, or a later one, is answered with 304 and no body.
\<close>

theorem get_not_modified:
  assumes "waiting ctx u" "one_request e b text_304"
    and "phr_parse_request False b 0 (fresh_request MAX_HEADERS) = (st, Ret parsed)" "0 < parsed"
    and "request_path b st \<noteq> []" "length (request_path b st) \<le> 1004" "no_dot_dot (request_path b st)"
    and "first_callback b st h" "name_of b h = ''If-Modified-Since''"
      "slice b (hvalue h) (hvalue_len h) = strftime (gmtime t)" "0 \<le> t" "t < 253402300800"
      "hvalue h + hvalue_len h < length b" "is_space (b ! (hvalue h + hvalue_len h))"
    and "k_files k (file_name (request_path b st)) = Some f" "f_regular f" "f_mtime f \<le> t"
    and "k_new_fds k = fd # fds" "fd \<noteq> -1" "False \<notin> set (k_results k)"
  shows "\<exists>ctx' k' u'. serve_connection (yotta junk) e ctx k = Ret (ctx', YTA_LOOP_CONTINUE, k') \<and>
    waiting ctx' u' \<and> offset u' = offset u \<and> ctx_fd ctx' = ctx_fd ctx \<and>
    sent_on (ctx_fd ctx) (k_trace k') = sent_on (ctx_fd ctx) (k_trace k) @ text_304"
proof -
  have b: "b \<noteq> []" "length b \<le> 2048" using assms(2) by (simp_all add: one_request_def)
  note F = received_facts [OF assms(1) b assms(3,4)]
  define name where "name = file_name (request_path b st)"
  define uf where "uf = file_chosen (received b u st) name fd f"
  obtain r where r: "drop (hvalue h) (buf uf) = strftime (gmtime t) @ b ! (hvalue h + hvalue_len h) # r"
    using value_in_buffer [OF assms(13), of u st] assms(10) by (auto simp: uf_def file_chosen_def)
  have "length (response_buf uf) = 2048" using F(1) by (simp add: uf_def file_chosen_def user_ok_def)
  then obtain a where a: "respond False serve_304 uf = Ret (uf\<lparr>response_buf := a,
      response_size := of_nat (length text_304), content := False, finalized := True\<rparr>)"
    "take (length text_304) a = text_304"
    using respond_plain [OF plain_responses(1,4)] by blast
  have run: "call_header_handler Handle_if_modified_since h uf = Ret (True, uf\<lparr>response_buf := a,
      response_size := of_nat (length text_304), content := False, finalized := True\<rparr>)"
    using http_date_read_back [OF assms(11,12,14), of r] r a(1) assms(17)
    by (simp add: call_header_handler_def handle_if_modified_since_def uf_def file_chosen_def)
  have mo: "map_of header_callbacks (name_of b h) = Some Handle_if_modified_since"
    using assms(9) by (simp add: header_callbacks_def)
  have D: "decide parsed (received b u st) k = Ret (uf\<lparr>response_buf := a,
      response_size := of_nat (length text_304), content := False, finalized := True\<rparr>, opened_file name fd f k)"
    by (rule decided_by_header [OF assms(1) b assms(3-7) name_def _ assms(16,18,19,8) mo run [unfolded uf_def], folded uf_def])
       (use assms(15) in \<open>simp add: name_def\<close>)
  show ?thesis
    by (rule exchange_plain [OF assms(1,2,3) D _ _ a(2) plain_responses(7,4)])
       (use assms(20) in \<open>simp_all add: opened_file_def uf_def file_chosen_def received_def\<close>)
qed

text \<open>
  C19.  A file that is not there, end to end: a request whose path names no file is answered with 404, and
  nothing but that is sent.
\<close>

theorem get_missing:
  assumes "waiting ctx u" "one_request e b text_404"
    and "phr_parse_request False b 0 (fresh_request MAX_HEADERS) = (st, Ret parsed)" "0 < parsed"
    and "request_path b st \<noteq> []" "length (request_path b st) \<le> 1004" "no_dot_dot (request_path b st)"
    and "k_files k (file_name (request_path b st)) = None" "False \<notin> set (k_results k)"
  shows "\<exists>ctx' k' u'. serve_connection (yotta junk) e ctx k = Ret (ctx', YTA_LOOP_CONTINUE, k') \<and>
    waiting ctx' u' \<and> offset u' = offset u \<and> ctx_fd ctx' = ctx_fd ctx \<and>
    sent_on (ctx_fd ctx) (k_trace k') = sent_on (ctx_fd ctx) (k_trace k) @ text_404"
proof -
  have b: "b \<noteq> []" "length b \<le> 2048" using assms(2) by (simp_all add: one_request_def)
  note F = received_facts [OF assms(1) b assms(3,4)]
  obtain np n where np: "normalize_url (request_path b st) = Ret (np, n)" "c_string np = file_name (request_path b st)"
    using normalize_url_opens [OF assms(5-7) request_path_no_NUL [OF request_facts(1) [OF assms(3,4)]]] by blast
  have "length (response_buf (received b u st)) = 2048" using F(1) by (simp add: user_ok_def)
  then obtain a where a: "return_404 (received b u st) = Ret ((received b u st)\<lparr>response_buf := a,
      response_size := of_nat (length text_404), content := False, finalized := True\<rparr>)"
    "take (length text_404) a = text_404"
    using respond_plain [OF plain_responses(3,6)] unfolding return_404_def by blast
  have "sys_open (c_string np) k = (-1, k)" using assms(8) np(2) by (simp add: sys_open_def)
  then have pu: "parse_url (take (rq_path_len (parser (received b u st))) (drop (the (rq_path st)) (buf (received b u st))))
      (received b u st) k = Ret ((received b u st)\<lparr>response_buf := a,
        response_size := of_nat (length text_404), content := False, finalized := True\<rparr>, k)"
    using a(1) np(1) assms(5,6) F(4)
    by (simp add: parse_url_def Let_def MAX_URL_SIXE_def c_string_def [symmetric])
  have hl: "header_loop hs v = Ret (False, v)" if "finalized v" for hs v
    using that by (cases hs) simp_all
  have u1: "parser (received b u st) = st" by (simp add: received_def)
  have D: "decide parsed (received b u st) k = Ret ((received b u st)\<lparr>response_buf := a,
      response_size := of_nat (length text_404), content := False, finalized := True\<rparr>, k)"
  proof -
    obtain p where p: "rq_path st = Some p" using F(3) by blast
    show ?thesis using assms(4) pu hl by (simp add: decide_def http_parse_headers_def u1 p)
  qed
  show ?thesis
    by (rule exchange_plain [OF assms(1,2,3) D assms(9) _ a(2) plain_responses(9,6)]) (simp_all add: received_def)
qed

text \<open>
  C20.  What is no request, end to end: bytes the parser rejects are answered with 400.  The response says
  \<^verbatim>\<open>Connection: close\<close>, but the connection stays open and waits for the next request.
\<close>

theorem bad_request:
  assumes "waiting ctx u" "one_request e b text_400"
    and "phr_parse_request False b 0 (fresh_request MAX_HEADERS) = (st, Ret (- 1))" "False \<notin> set (k_results k)"
  shows "\<exists>ctx' k' u'. serve_connection (yotta junk) e ctx k = Ret (ctx', YTA_LOOP_CONTINUE, k') \<and>
    waiting ctx' u' \<and> offset u' = offset u \<and> ctx_fd ctx' = ctx_fd ctx \<and>
    sent_on (ctx_fd ctx) (k_trace k') = sent_on (ctx_fd ctx) (k_trace k) @ text_400"
proof -
  have "length (response_buf (received b u st)) = 2048"
    using assms(1) by (auto simp: waiting_def yotta_ok_def user_ok_def received_def)
  then obtain a where a: "return_400 (received b u st) = Ret ((received b u st)\<lparr>response_buf := a,
      response_size := of_nat (length text_400), content := False, finalized := True\<rparr>)"
    "take (length text_400) a = text_400"
    using respond_plain [OF plain_responses(2,5)] unfolding return_400_def by blast
  then have D: "decide (- 1) (received b u st) k = Ret ((received b u st)\<lparr>response_buf := a,
      response_size := of_nat (length text_400), content := False, finalized := True\<rparr>, k)"
    by (simp add: decide_def)
  show ?thesis
    by (rule exchange_plain [OF assms(1,2,3) D assms(4) _ a(2) plain_responses(8,5)]) (simp_all add: received_def)
qed

section \<open>The offset that stays\<close>

text \<open>The header goes out in one piece, and \<^verbatim>\<open>sendfile\<close> is armed.\<close>

lemma header_then_sendfile:
  assumes "ctx_user_data ctx = Some u" "write_callback ctx = Some Write_header_callback" "wtype ctx = BASIC_WTYPE"
    "wdata ctx = Basic_data (At Response_buf 0)" "already_written ctx = 0" "to_write ctx = of_nat n"
    "0 < n" "n \<le> 2048" "length (response_buf u) = 2048" "content u"
  shows "\<exists>k1. write_loop (yotta junk) (Room 2048 # as) ctx k = write_loop (yotta junk) as
      (yta_async_sendfile Http_finish_callback (file_fd u) (file_size u) (offset u)
        (ctx\<lparr>already_written := of_nat n, write_callback := None\<rparr>)) k1 \<and> k_fds k1 = k_fds k"
proof -
  have n: "unat (of_nat n :: size_t) = n" using assms(8) by (intro unat_small) simp
  have "write_step junk (Room 2048) ctx k = Ret (yta_async_sendfile Http_finish_callback (file_fd u) (file_size u) (offset u)
        (ctx\<lparr>already_written := of_nat n, write_callback := None\<rparr>), YTA_LOOP_CONTINUE,
      trace_event (Sent (ctx_fd ctx) (take n (response_buf u))) k)"
    using assms n by (simp add: write_step_def write_handle_basic_def Let_def the_user_def yotta_def load_at_def
        write_done_def yotta_io_def write_header_callback_def)
  then show ?thesis
    using write_loop_step [of ctx junk "Room 2048" as k] assms(2) by auto
qed

text \<open>Where the file ends, \<^verbatim>\<open>sendfile\<close> moves nothing, and the assertion fails.\<close>

lemma sendfile_at_end:
  assumes "write_callback ctx \<noteq> None" "wtype ctx = SENDFILE_WTYPE" "wdata ctx = Sendfile_data fd"
    "k_fds k fd = Some f" "length (f_content f) \<le> unat (already_written ctx)"
  shows "write_loop (yotta junk) (Room r # as) ctx k = Crash AssertFailed"
  using assms by (simp add: write_loop_step write_step_def write_handle_sendfile_def Let_def del: write_loop.simps)

lemma sendfile_past_end:
  assumes c: "write_callback ctx = Some c" "wtype ctx = SENDFILE_WTYPE" "wdata ctx = Sendfile_data fd"
    and f: "k_fds k fd = Some f" "0 < r"
    and w: "unat (already_written ctx) = a" "unat (to_write ctx) = t" "length (f_content f) < t" "a < t"
    and r: "length (f_content f) \<le> a + r"
  shows "write_loop (yotta junk) [Room r, Room 1] ctx k = Crash AssertFailed"
proof (cases "length (f_content f) \<le> a")
  case True
  then show ?thesis using sendfile_at_end [of ctx fd k f junk r "[Room 1]"] c f w(1) by simp
next
  case False
  have t: "t < 2 ^ 64" using w(2) unat_less_2_64 by blast
  have le: "already_written ctx \<le> to_write ctx" using w by (simp add: word_le_nat_alt)
  have m: "unat (to_write ctx - already_written ctx) = t - a" using unat_sub [OF le] w(1,2) by simp
  define bs where "bs = take (min r (t - a)) (drop a (f_content f))"
  have lb: "length bs = length (f_content f) - a" using r w(3) by (simp add: bs_def)
  define ctx1 where "ctx1 = ctx\<lparr>already_written := already_written ctx + of_nat (length bs)\<rparr>"
  define k1 where "k1 = trace_event (Sent (ctx_fd ctx) bs) k"
  have "unat (already_written ctx1) = unat (already_written ctx) + length bs"
    unfolding ctx1_def using advance_unat [of "already_written ctx" "length bs"] w t lb False by simp
  then have a1: "unat (already_written ctx1) = length (f_content f)" using lb w(1) False by simp
  have ne: "already_written ctx1 \<noteq> to_write ctx1"
  proof
    assume "already_written ctx1 = to_write ctx1"
    then have "length (f_content f) = t" using a1 w(2) by (simp add: ctx1_def)
    then show False using w(3) by simp
  qed
  have nb: "bs \<noteq> []" using lb False by auto
  have "write_step junk (Room r) ctx k = write_done (yotta junk) Null (length bs) ctx k1"
    using c f w(1) m nb
    by (simp add: write_step_def write_handle_sendfile_def Let_def bs_def [symmetric] k1_def)
  also have "\<dots> = Ret (ctx1, YTA_LOOP_CONTINUE, k1)"
    unfolding write_done_def ctx1_def [symmetric] Let_def using ne by simp
  finally have "write_loop (yotta junk) [Room r, Room 1] ctx k = write_loop (yotta junk) [Room 1] ctx1 k1"
    using write_loop_step [of ctx junk "Room r" "[Room 1]" k] c(1) by simp
  also have "\<dots> = Crash AssertFailed"
    using c f(1) a1 by (intro sendfile_at_end [of _ fd _ f]) (simp_all add: ctx1_def k1_def)
  finally show ?thesis .
qed

text \<open>
  C27.  The offset of a range is not reset: on a connection whose last response was a range that did not start
  at 0, a request without a range for a file that exists (which the connection would answer with 200 and the
  whole file) sends the header and the file from the old offset on, then asks \<^verbatim>\<open>sendfile\<close> for bytes behind
  the end, and the worker dies in \<^verbatim>\<open>assert(0)\<close>.
\<close>

theorem stale_offset_kills_worker:
  assumes "waiting ctx u" "0 < unat (offset u)" "unat (offset u) + length (f_content f) < 2 ^ 64"
    and "ev_in e" "ev_out e" "ev_reads e = [Data b]" "b \<noteq> []" "length b \<le> 2048"
      "ev_writes e = [Room 2048, Room (length (f_content f)), Room 1]"
    and "phr_parse_request False b 0 (fresh_request MAX_HEADERS) = (st, Ret parsed)" "0 < parsed"
    and "request_path b st \<noteq> []" "length (request_path b st) \<le> 1004" "no_dot_dot (request_path b st)"
    and "plain_headers b st"
    and "k_files k (file_name (request_path b st)) = Some f" "f_regular f" "year_fits (f_mtime f)"
      "0 < length (f_content f)"
    and "k_new_fds k = fd # fds" "fd \<noteq> -1" "False \<notin> set (k_results k)"
  shows "serve_connection (yotta junk) e ctx k = Crash AssertFailed"
proof -
  note F = received_facts [OF assms(1,7,8,10,11)]
  define name where "name = file_name (request_path b st)"
  obtain np n where np: "normalize_url (request_path b st) = Ret (np, n)" "c_string np = name" "take n np = name"
    using normalize_url_opens [OF assms(12,13,14) request_path_no_NUL [OF request_facts(1) [OF assms(10,11)]]]
    unfolding name_def by blast
  have kf: "k_files k (c_string np) = Some f" using assms(16) np(2) by (simp add: name_def)
  have u1: "parser (received b u st) = st" by (simp add: received_def)
  have lf: "length (f_content f) < 2 ^ 64" using assms(3) by simp
  have pl: "header_text (received b u st) h \<notin> {''If-Modified-Since'', ''Range''}"
    if "h \<in> set (take (num_headers (parser (received b u st))) (headers (parser (received b u st))))" for h
    using that F(5) assms(15) by (simp add: plain_headers_def u1)
  from decide_file [OF F(1,2) assms(11) _ F(4) assms(12,13) np(1) kf assms(17,20,21,18) lf pl] F(3)
  obtain a where a: "decide parsed (received b u st) k = Ret ((file_chosen (received b u st) name fd f)
      \<lparr>response_buf := a, response_size := of_nat (length (file_header name f)), content := True, finalized := True\<rparr>,
      opened_file name fd f k)"
    "length a = 2048"
    unfolding np(2,3) by (auto simp: u1)
  define u2 where "u2 = (file_chosen (received b u st) name fd f)
      \<lparr>response_buf := a, response_size := of_nat (length (file_header name f)), content := True, finalized := True\<rparr>"
  define k1 where "k1 = opened_file name fd f k"
  have fin: "finalized u2" "False \<notin> set (k_results k1)" using assms(22) by (simp_all add: u2_def k1_def opened_file_def)
  from read_loop_first [OF assms(1,7,8,10) a(1) [folded u2_def k1_def, unfolded received_def] fin, of junk]
  obtain k2 where k2: "read_loop (yotta junk) [Data b] ctx k =
      Ret (yta_async_write Write_header_callback (At Response_buf 0) (response_size u2)
        (ctx\<lparr>ctx_user_data := Some u2, read_callback := None\<rparr>), YTA_LOOP_CONTINUE, k2)" "k_fds k2 = k_fds k1" by blast
  define ctx1 where "ctx1 = yta_async_write Write_header_callback (At Response_buf 0) (response_size u2)
        (ctx\<lparr>ctx_user_data := Some u2, read_callback := None\<rparr>)"
  note lh = length_file_header [OF assms(18) lf, of name]
  define ctx2 where "ctx2 = yta_async_sendfile Http_finish_callback (file_fd u2) (file_size u2) (offset u2)
        (ctx1\<lparr>already_written := of_nat (length (file_header name f)), write_callback := None\<rparr>)"
  have "\<exists>k3. write_loop (yotta junk) (Room 2048 # [Room (length (f_content f)), Room 1]) ctx1 k2 =
      write_loop (yotta junk) [Room (length (f_content f)), Room 1] ctx2 k3 \<and> k_fds k3 = k_fds k2"
    unfolding ctx2_def
    by (rule header_then_sendfile) (use lh a(2) in \<open>simp_all add: ctx1_def yta_async_write_def u2_def\<close>)
  then obtain k3 where k3: "write_loop (yotta junk) [Room 2048, Room (length (f_content f)), Room 1] ctx1 k2 =
      write_loop (yotta junk) [Room (length (f_content f)), Room 1] ctx2 k3" "k_fds k3 = k_fds k2" by blast
  have v: "write_callback ctx2 = Some Http_finish_callback" "wtype ctx2 = SENDFILE_WTYPE" "wdata ctx2 = Sendfile_data fd"
    "already_written ctx2 = offset u" "to_write ctx2 = of_nat (length (f_content f)) + offset u"
    by (simp_all add: ctx2_def yta_async_sendfile_def u2_def file_chosen_def received_def)
  have t: "unat (to_write ctx2) = length (f_content f) + unat (offset u)"
    using assms(3) lf by (simp add: v(5) unat_word_ariths unat_small)
  have q: "length (f_content f) < length (f_content f) + unat (offset u)"
    "unat (offset u) < length (f_content f) + unat (offset u)"
    using assms(2,19) by linarith+
  have "write_loop (yotta junk) [Room (length (f_content f)), Room 1] ctx2 k3 = Crash AssertFailed"
    by (rule sendfile_past_end [OF v(1-3), where f = f and a = "unat (offset u)" and t = "length (f_content f) + unat (offset u)"])
       (use v(4) t q assms(2,19) k3(2) k2(2) in \<open>simp_all add: k1_def opened_file_def\<close>)
  then show ?thesis using k2(1) k3(1) assms(4-6,9) unfolding ctx1_def [symmetric]
    by (simp add: serve_connection_def del: write_loop.simps)
qed

section \<open>Concrete exchanges\<close>

definition ask :: "char list \<Rightarrow> epoll_event" where
  "ask b = \<lparr>ev_ptr = 1, ev_in = True, ev_out = True, ev_err = False, ev_rdhup = False,
     ev_accepts = [], ev_reads = [Data b], ev_writes = replicate 2100 (Room 1)\<rparr>"

lemma one_request_ask: "b \<noteq> [] \<Longrightarrow> length b \<le> 2048 \<Longrightarrow> length t \<le> 2100 \<Longrightarrow> one_request (ask b) b t"
  by (simp add: one_request_def ask_def)

definition parse_fresh :: "char list \<Rightarrow> request_out \<times> int outcome" where
  "parse_fresh b = phr_parse_request False b 0 (fresh_request MAX_HEADERS)"

text \<open>The result, the path, and the headers with their values.\<close>

definition summary :: "char list \<Rightarrow> int outcome \<times> char list \<times> (char list \<times> char list) list" where
  "summary b = (case parse_fresh b of (st, r) \<Rightarrow>
     (r, request_path b st, map (\<lambda>h. (name_of b h, slice b (hvalue h) (hvalue_len h))) (take (num_headers st) (headers st))))"

lemma summary_first:
  assumes "summary b = (Ret n, path, [(nm, v)])"
  obtains st h where "phr_parse_request False b 0 (fresh_request MAX_HEADERS) = (st, Ret n)" "request_path b st = path"
    "first_callback b st h" "name_of b h = nm" "slice b (hvalue h) (hvalue_len h) = v"
proof -
  obtain st r where st: "parse_fresh b = (st, r)" by fastforce
  obtain h where "take (num_headers st) (headers st) = [h]" "name_of b h = nm" "slice b (hvalue h) (hvalue_len h) = v"
    using assms st by (auto simp: summary_def map_eq_Cons_conv)
  moreover from this have "first_callback b st h"
    unfolding first_callback_def by (intro exI [of _ "[]"]) simp
  ultimately show ?thesis
    using that [of st h] st assms by (auto simp: summary_def parse_fresh_def)
qed

definition range_request :: "char list" where
  "range_request = ''GET /hello HTTP/1.1'' @ crlf @ ''Range: bytes=2-3'' @ crlf @ crlf"

lemma range_summary: "summary range_request = (Ret 41, ''/hello'', [(''Range'', ''bytes=2-3'')])"
  by code_simp

lemma hello_facts:
  "file_name ''/hello'' = ''./hello''" "no_dot_dot ''/hello''" "k_files hello_kernel ''./hello'' = Some hello_file"
  "f_regular hello_file" "year_fits (f_mtime hello_file)" "length (f_content hello_file) = 11"
  "k_new_fds hello_kernel = 9 # []" "False \<notin> set (k_results hello_kernel)" "k_trace hello_kernel = []" "ctx_fd accepted = 7"
proof -
  show "file_name ''/hello'' = ''./hello''" by code_simp
qed (simp_all add: no_dot_dot_def nth_Cons' less_Suc_eq hello_kernel_def hello_file_def year_fits_0
    accepted_def accept_logic_def Let_def yta_async_read_def new_ctx_def)


definition since_request :: "char list" where
  "since_request = ''GET /hello HTTP/1.1'' @ crlf @ ''If-Modified-Since: '' @ strftime (gmtime 0) @ crlf @ crlf"

lemma since_summary: "summary since_request = (Ret 73, ''/hello'', [(''If-Modified-Since'', strftime (gmtime 0))])"
  by code_simp

lemma get_not_modified_witness:
  "\<exists>ctx' k'. serve_connection (yotta some_user) (ask since_request) accepted hello_kernel = Ret (ctx', YTA_LOOP_CONTINUE, k') \<and>
     sent_on 7 (k_trace k') = text_304"
proof -
  obtain st h where p: "phr_parse_request False since_request 0 (fresh_request MAX_HEADERS) = (st, Ret 73)"
    "request_path since_request st = ''/hello''" "first_callback since_request st h"
    "name_of since_request h = ''If-Modified-Since''"
    "slice since_request (hvalue h) (hvalue_len h) = strftime (gmtime 0)"
    using summary_first [OF since_summary] by blast
  have ends: "list_all (\<lambda>h. hvalue h + hvalue_len h < length since_request \<and>
      is_space (since_request ! (hvalue h + hvalue_len h)))
    (take (num_headers (fst (parse_fresh since_request))) (headers (fst (parse_fresh since_request))))"
    by code_simp
  have "h \<in> set (take (num_headers st) (headers st))" using p(3) by (auto simp: first_callback_def)
  then have c: "hvalue h + hvalue_len h < length since_request" "is_space (since_request ! (hvalue h + hvalue_len h))"
    using ends p(1) by (auto simp: list_all_iff parse_fresh_def)
  have "length since_request = 73" by code_simp
  then have "one_request (ask since_request) since_request text_304"
    using plain_responses(4) by (intro one_request_ask) auto
  from get_not_modified [OF accepted_waiting this p(1) _ _ _ _ p(3,4,5) _ _ c _ hello_facts(4) _ hello_facts(7), of some_user]
  show ?thesis using p(2) hello_facts by (auto simp: hello_file_def)
qed

definition missing_request :: "char list" where
  "missing_request = ''GET /none HTTP/1.1'' @ crlf @ ''Host: y'' @ crlf @ crlf"

lemma missing_summary: "summary missing_request = (Ret 31, ''/none'', [(''Host'', ''y'')])"
  by code_simp

lemma get_missing_witness:
  "\<exists>ctx' k'. serve_connection (yotta some_user) (ask missing_request) accepted hello_kernel = Ret (ctx', YTA_LOOP_CONTINUE, k') \<and>
     sent_on 7 (k_trace k') = text_404"
proof -
  obtain st h where p: "phr_parse_request False missing_request 0 (fresh_request MAX_HEADERS) = (st, Ret 31)"
    "request_path missing_request st = ''/none''" using summary_first [OF missing_summary] by blast
  have f: "file_name ''/none'' = ''./none''" by code_simp
  have "no_dot_dot ''/none''" by (simp add: no_dot_dot_def nth_Cons' less_Suc_eq)
  moreover have "k_files hello_kernel ''./none'' = None" by (simp add: hello_kernel_def)
  moreover have "one_request (ask missing_request) missing_request text_404"
    using plain_responses(6) by (intro one_request_ask) (simp_all add: missing_request_def)
  ultimately show ?thesis
    using get_missing [OF accepted_waiting _ p(1), of "ask missing_request" hello_kernel some_user] p(2) f hello_facts
    by auto
qed

lemma bad_parsed: "snd (phr_parse_request False [CHR 0x01] 0 (fresh_request MAX_HEADERS)) = Ret (- 1)"
  by code_simp

lemma bad_request_witness:
  "\<exists>ctx' k'. serve_connection (yotta some_user) (ask [CHR 0x01]) accepted hello_kernel = Ret (ctx', YTA_LOOP_CONTINUE, k') \<and>
     sent_on 7 (k_trace k') = text_400"
proof -
  obtain st where p: "phr_parse_request False [CHR 0x01] 0 (fresh_request MAX_HEADERS) = (st, Ret (- 1))"
    using bad_parsed by (metis prod.collapse)
  have "one_request (ask [CHR 0x01]) [CHR 0x01] text_400"
    using plain_responses(5) by (intro one_request_ask) simp_all
  from bad_request [OF accepted_waiting this p hello_facts(8), of some_user] show ?thesis
    using hello_facts by auto
qed

text \<open>The connection after a range that started at 2.\<close>

definition after_range :: yotta_ctx where
  "after_range = accepted\<lparr>ctx_user_data := Some (accepted_user\<lparr>offset := 2\<rparr>)\<rparr>"

lemma after_range_waiting: "waiting after_range (accepted_user\<lparr>offset := 2\<rparr>)"
  using accepted_waiting write_ok_same [of after_range accepted]
  by (auto simp: waiting_def after_range_def yotta_ok_def user_ok_def read_ok_def)

lemma stale_offset_kills_worker_witness:
  "serve_connection (yotta some_user) (hello_event\<lparr>ev_writes := [Room 2048, Room 11, Room 1]\<rparr>) after_range hello_kernel =
     Crash AssertFailed"
proof -
  define st where "st = fst (phr_parse_request False hello_request 0 (fresh_request MAX_HEADERS))"
  have p: "phr_parse_request False hello_request 0 (fresh_request MAX_HEADERS) = (st, Ret 34)"
    using hello_parsed(1) by (simp add: st_def prod_eq_iff)
  have path: "request_path hello_request st = ''/hello''" using hello_parsed(2) by (simp add: st_def)
  have "\<forall>h \<in> set (take (num_headers st) (headers st)). name_of hello_request h = ''Host''"
    using arg_cong [OF hello_parsed(3), of set] by (auto simp: st_def)
  then have plain: "plain_headers hello_request st" by (auto simp: plain_headers_def)
  have n: "length hello_request \<le> 2048" "hello_request \<noteq> []" by (simp_all add: hello_request_def)
  have kf: "k_files hello_kernel (file_name (request_path hello_request st)) = Some hello_file"
    using hello_facts by (simp add: path)
  show ?thesis
    by (rule stale_offset_kills_worker [OF after_range_waiting _ _ _ _ _ n(2,1) _ p _ _ _ _ plain kf hello_facts(4,5) _ hello_facts(7)])
       (use hello_facts path in \<open>simp_all add: hello_event_def\<close>)
qed

end
