(* ===== verification/Pico_Chunked.thy ===== *)
theory Pico_Chunked
  imports Buffer_Parsing
begin

text \<open>
  \<^verbatim>\<open>phr_decode_chunked\<close> of \<^verbatim>\<open>picohttpparser.c\<close>: it removes the chunked encoding from a
  buffer in place and keeps what it must remember in a decoder, so that the data may arrive in pieces.
  The abstract specification is an automaton that takes one byte after the other; the code refines it,
  and everything else is proved of the automaton.
\<close>

section \<open>The decoder\<close>

datatype chunked_state =
    CHUNKED_IN_CHUNK_SIZE
  | CHUNKED_IN_CHUNK_EXT
  | CHUNKED_IN_CHUNK_DATA
  | CHUNKED_IN_CHUNK_CRLF
  | CHUNKED_IN_TRAILERS_LINE_HEAD
  | CHUNKED_IN_TRAILERS_LINE_MIDDLE

text \<open>
  \<^verbatim>\<open>struct phr_chunked_decoder\<close>.  The state is a \<^verbatim>\<open>char\<close> there; the decoder starts
  zero-filled and only ever holds one of the six values.
\<close>

record phr_chunked_decoder =
  bytes_left_in_chunk :: "64 word"
  consume_trailer :: bool
  hex_count :: "8 word"
  chunk_state :: chunked_state

definition decode_hex :: "int \<Rightarrow> int" where
  "decode_hex ch =
     (if schar CHR ''0'' \<le> ch \<and> ch \<le> schar CHR ''9'' then ch - schar CHR ''0''
      else if schar CHR ''A'' \<le> ch \<and> ch \<le> schar CHR ''F'' then ch - schar CHR ''A'' + 10
      else if schar CHR ''a'' \<le> ch \<and> ch \<le> schar CHR ''f'' then ch - schar CHR ''a'' + 10
      else -1)"

section \<open>The loops inside the cases\<close>

text \<open>
  The loop over the digits of a chunk size: the decoder, \<^verbatim>\<open>src\<close>, and the value \<^verbatim>\<open>ret\<close>
  with which it goes to \<^verbatim>\<open>Exit\<close>, if it does.
\<close>

function size_loop :: "char list \<Rightarrow> nat \<Rightarrow> phr_chunked_decoder \<Rightarrow>
    (phr_chunked_decoder \<times> nat \<times> int option) outcome" where
  "size_loop buf src d =
     (if src = length buf then Ret (d, src, Some (-2))
      else
        obind (rd buf src) (\<lambda>c.
        let v = decode_hex (schar c) in
        if v = -1 then
          if hex_count d = 0 then Ret (d, src, Some (-1)) else Ret (d, src, None)
        else if hex_count d = 8 * 2 then Ret (d, src, Some (-1))
        else
          size_loop buf (src + 1)
            (d\<lparr>bytes_left_in_chunk := bytes_left_in_chunk d * 16 + of_int v, hex_count := hex_count d + 1\<rparr>)))"
  by pat_completeness auto
termination
  by (relation "measure (\<lambda>(buf, src, d). length buf - src)") (auto simp: rd_Ret_iff)

declare size_loop.simps [simp del]

text \<open>
  \<^verbatim>\<open>for (;; ++src)\<close> up to a byte that satisfies \<open>stop\<close>; \<open>None\<close> when the data ends before.
\<close>

function skip_until :: "(char \<Rightarrow> bool) \<Rightarrow> char list \<Rightarrow> nat \<Rightarrow> nat option outcome" where
  "skip_until stop buf src =
     (if src = length buf then Ret None
      else obind (rd buf src) (\<lambda>c. if stop c then Ret (Some src) else skip_until stop buf (src + 1)))"
  by pat_completeness auto
termination
  by (relation "measure (\<lambda>(stop, buf, src). length buf - src)") (auto simp: rd_Ret_iff)

declare skip_until.simps [simp del]

definition memmove :: "char list \<Rightarrow> nat \<Rightarrow> nat \<Rightarrow> nat \<Rightarrow> char list outcome" where
  "memmove buf dst src n =
     (if src + n \<le> length buf \<and> dst + n \<le> length buf
      then Ret (take dst buf @ take n (drop src buf) @ drop (dst + n) buf)
      else Crash OutOfBounds)"

text \<open>\<^verbatim>\<open>if (dst != src) memmove(buf + dst, buf + src, n)\<close>\<close>

definition move_down :: "char list \<Rightarrow> nat \<Rightarrow> nat \<Rightarrow> nat \<Rightarrow> char list outcome" where
  "move_down buf dst src n = (if dst \<noteq> src then memmove buf dst src n else Ret buf)"

section \<open>The cases\<close>

record chunk_run =
  decoder :: phr_chunked_decoder
  bytes :: "char list"
  dst :: nat
  src :: nat

text \<open>
  How a case ends: \<open>Loop\<close> goes on with the case of the state just stored, whether the code falls
  through to it or breaks and dispatches again.
\<close>

datatype flow = Loop | Exit int | Complete

definition in_chunk_size :: "chunk_run \<Rightarrow> (chunk_run \<times> flow) outcome" where
  "in_chunk_size r =
     obind (size_loop (bytes r) (src r) (decoder r)) (\<lambda>(d, s, ret).
     case ret of
       Some ret \<Rightarrow> Ret (r\<lparr>decoder := d, src := s\<rparr>, Exit ret)
     | None \<Rightarrow> Ret (r\<lparr>decoder := d\<lparr>hex_count := 0, chunk_state := CHUNKED_IN_CHUNK_EXT\<rparr>, src := s\<rparr>, Loop))"

definition in_chunk_ext :: "chunk_run \<Rightarrow> (chunk_run \<times> flow) outcome" where
  "in_chunk_ext r =
     obind (skip_until (\<lambda>c. c = LF) (bytes r) (src r)) (\<lambda>found.
     case found of
       None \<Rightarrow> Ret (r\<lparr>src := length (bytes r)\<rparr>, Exit (-2))
     | Some s \<Rightarrow>
         (let r = r\<lparr>src := s + 1\<rparr>; d = decoder r in
          if bytes_left_in_chunk d = 0 then
            if consume_trailer d then
              Ret (r\<lparr>decoder := d\<lparr>chunk_state := CHUNKED_IN_TRAILERS_LINE_HEAD\<rparr>\<rparr>, Loop)
            else Ret (r, Complete)
          else Ret (r\<lparr>decoder := d\<lparr>chunk_state := CHUNKED_IN_CHUNK_DATA\<rparr>\<rparr>, Loop)))"

definition in_chunk_data :: "chunk_run \<Rightarrow> (chunk_run \<times> flow) outcome" where
  "in_chunk_data r =
     (let avail = length (bytes r) - src r; d = decoder r; left = unat (bytes_left_in_chunk d) in
      if avail < left then
        obind (move_down (bytes r) (dst r) (src r) avail) (\<lambda>buf.
        Ret (r\<lparr>bytes := buf, src := src r + avail, dst := dst r + avail,
               decoder := d\<lparr>bytes_left_in_chunk := bytes_left_in_chunk d - of_nat avail\<rparr>\<rparr>, Exit (-2)))
      else
        obind (move_down (bytes r) (dst r) (src r) left) (\<lambda>buf.
        Ret (r\<lparr>bytes := buf, src := src r + left, dst := dst r + left,
               decoder := d\<lparr>bytes_left_in_chunk := 0, chunk_state := CHUNKED_IN_CHUNK_CRLF\<rparr>\<rparr>, Loop)))"

definition in_chunk_crlf :: "chunk_run \<Rightarrow> (chunk_run \<times> flow) outcome" where
  "in_chunk_crlf r =
     obind (skip_until (\<lambda>c. c \<noteq> CR) (bytes r) (src r)) (\<lambda>found.
     case found of
       None \<Rightarrow> Ret (r\<lparr>src := length (bytes r)\<rparr>, Exit (-2))
     | Some s \<Rightarrow>
         obind (rd (bytes r) s) (\<lambda>c.
         if c \<noteq> LF then Ret (r\<lparr>src := s\<rparr>, Exit (-1))
         else
           Ret (r\<lparr>src := s + 1, decoder := (decoder r)\<lparr>chunk_state := CHUNKED_IN_CHUNK_SIZE\<rparr>\<rparr>, Loop)))"

definition in_trailers_line_head :: "chunk_run \<Rightarrow> (chunk_run \<times> flow) outcome" where
  "in_trailers_line_head r =
     obind (skip_until (\<lambda>c. c \<noteq> CR) (bytes r) (src r)) (\<lambda>found.
     case found of
       None \<Rightarrow> Ret (r\<lparr>src := length (bytes r)\<rparr>, Exit (-2))
     | Some s \<Rightarrow>
         obind (rd (bytes r) s) (\<lambda>c.
         if c = LF then Ret (r\<lparr>src := s + 1\<rparr>, Complete)
         else
           Ret (r\<lparr>src := s + 1,
                  decoder := (decoder r)\<lparr>chunk_state := CHUNKED_IN_TRAILERS_LINE_MIDDLE\<rparr>\<rparr>, Loop)))"

definition in_trailers_line_middle :: "chunk_run \<Rightarrow> (chunk_run \<times> flow) outcome" where
  "in_trailers_line_middle r =
     obind (skip_until (\<lambda>c. c = LF) (bytes r) (src r)) (\<lambda>found.
     case found of
       None \<Rightarrow> Ret (r\<lparr>src := length (bytes r)\<rparr>, Exit (-2))
     | Some s \<Rightarrow>
         Ret (r\<lparr>src := s + 1,
                decoder := (decoder r)\<lparr>chunk_state := CHUNKED_IN_TRAILERS_LINE_HEAD\<rparr>\<rparr>, Loop))"

definition chunk_step :: "chunk_run \<Rightarrow> (chunk_run \<times> flow) outcome" where
  "chunk_step r =
     (case chunk_state (decoder r) of
        CHUNKED_IN_CHUNK_SIZE \<Rightarrow> in_chunk_size r
      | CHUNKED_IN_CHUNK_EXT \<Rightarrow> in_chunk_ext r
      | CHUNKED_IN_CHUNK_DATA \<Rightarrow> in_chunk_data r
      | CHUNKED_IN_CHUNK_CRLF \<Rightarrow> in_chunk_crlf r
      | CHUNKED_IN_TRAILERS_LINE_HEAD \<Rightarrow> in_trailers_line_head r
      | CHUNKED_IN_TRAILERS_LINE_MIDDLE \<Rightarrow> in_trailers_line_middle r)"

text \<open>Every case consumes a byte, or the next one does.\<close>

lemma size_loop_progress:
  "size_loop buf s d = Ret (d', s', ret) \<Longrightarrow> s \<le> length buf \<Longrightarrow>
   s \<le> s' \<and> s' \<le> length buf \<and> chunk_state d' = chunk_state d"
proof (induction buf s d rule: size_loop.induct)
  case (1 buf s d)
  from "1.prems" show ?case
    by (subst (asm) size_loop.simps)
       (auto simp: obind_Ret_iff rd_Ret_iff Let_def Suc_le_eq split: if_splits dest!: "1.IH" [rotated 3])
qed

lemma skip_until_scan_end:
  "s \<le> length buf \<Longrightarrow> skip_until stop buf s =
     (let e = scan_end (\<lambda>c. \<not> stop c) buf s in Ret (if e < length buf then Some e else None))"
proof (induction stop buf s rule: skip_until.induct)
  case (1 stop buf s)
  show ?case
  proof (cases "s = length buf")
    case True
    then show ?thesis by (subst skip_until.simps) simp
  next
    case False
    with 1 show ?thesis by (subst skip_until.simps) (auto simp: scan_end_step Let_def)
  qed
qed

lemma skip_until_Some:
  "skip_until stop buf s = Ret (Some e) \<Longrightarrow> s \<le> length buf \<Longrightarrow> s \<le> e \<and> e < length buf \<and> stop (buf ! e)"
  using scan_end_bounds [of s buf "\<lambda>c. \<not> stop c"] scan_end_stop [of "\<lambda>c. \<not> stop c" buf s]
  by (auto simp: skip_until_scan_end Let_def split: if_splits)


lemma starts_inside:
  "size_loop buf s d = Ret x \<Longrightarrow> s \<le> length buf"
  "skip_until stop buf s = Ret y \<Longrightarrow> s \<le> length buf"
  by (subst (asm) size_loop.simps, auto simp: obind_Ret_iff rd_Ret_iff split: if_splits)
     (subst (asm) skip_until.simps, auto simp: obind_Ret_iff rd_Ret_iff split: if_splits)

lemma move_down_length: "move_down buf d s n = Ret buf' \<Longrightarrow> length buf' = length buf"
  by (auto simp: move_down_def memmove_def split: if_splits)

definition rank :: "chunked_state \<Rightarrow> nat" where
  "rank st = (if st = CHUNKED_IN_CHUNK_SIZE \<or> st = CHUNKED_IN_CHUNK_DATA then 1 else 0)"

definition chunk_order :: "(chunk_run \<times> chunk_run) set" where
  "chunk_order = measures [\<lambda>r. length (bytes r) - src r, \<lambda>r. rank (chunk_state (decoder r))]"

lemma skip_until_found:
  "skip_until stop buf s = Ret (Some e) \<Longrightarrow> s \<le> e \<and> e < length buf"
  using starts_inside(2) skip_until_Some by blast

lemma chunk_order_src:
  "src r < src r' \<Longrightarrow> src r < length (bytes r) \<Longrightarrow> bytes r' = bytes r \<Longrightarrow> (r', r) \<in> chunk_order"
  by (auto simp: chunk_order_def)

lemma chunk_step_decreases:
  assumes "chunk_step r = Ret (r', Loop)"
  shows "(r', r) \<in> chunk_order"
proof (cases "chunk_state (decoder r)")
  case CHUNKED_IN_CHUNK_SIZE
  with assms obtain d s where "size_loop (bytes r) (src r) (decoder r) = Ret (d, s, None)"
    "r' = r\<lparr>decoder := d\<lparr>hex_count := 0, chunk_state := CHUNKED_IN_CHUNK_EXT\<rparr>, src := s\<rparr>"
    by (auto simp: chunk_step_def in_chunk_size_def obind_Ret_iff split: option.splits)
  moreover from this have "src r \<le> s" using starts_inside(1) size_loop_progress by blast
  ultimately show ?thesis using CHUNKED_IN_CHUNK_SIZE by (auto simp: chunk_order_def rank_def)
next
  case CHUNKED_IN_CHUNK_EXT
  with assms show ?thesis
    by (auto simp: chunk_step_def in_chunk_ext_def obind_Ret_iff Let_def
        split: option.splits if_splits dest!: skip_until_found intro!: chunk_order_src)
next
  case CHUNKED_IN_CHUNK_DATA
  with assms show ?thesis
    by (auto simp: chunk_step_def in_chunk_data_def obind_Ret_iff Let_def chunk_order_def rank_def
        split: if_splits dest!: move_down_length)
next
  case CHUNKED_IN_CHUNK_CRLF
  with assms show ?thesis
    by (auto simp: chunk_step_def in_chunk_crlf_def obind_Ret_iff
        split: option.splits if_splits dest!: skip_until_found intro!: chunk_order_src)
next
  case CHUNKED_IN_TRAILERS_LINE_HEAD
  with assms show ?thesis
    by (auto simp: chunk_step_def in_trailers_line_head_def obind_Ret_iff
        split: option.splits if_splits dest!: skip_until_found intro!: chunk_order_src)
next
  case CHUNKED_IN_TRAILERS_LINE_MIDDLE
  with assms show ?thesis
    by (auto simp: chunk_step_def in_trailers_line_middle_def obind_Ret_iff
        split: option.splits if_splits dest!: skip_until_found intro!: chunk_order_src)
qed

section \<open>The decoder's loop\<close>

function decode_loop :: "chunk_run \<Rightarrow> (chunk_run \<times> flow) outcome" where
  "decode_loop r =
     obind (chunk_step r) (\<lambda>(r, f). case f of Loop \<Rightarrow> decode_loop r | _ \<Rightarrow> Ret (r, f))"
  by pat_completeness auto
termination
proof (relation chunk_order)
  show "wf chunk_order" by (simp add: chunk_order_def)
qed (auto intro: chunk_step_decreases)

declare decode_loop.simps [simp del]

text \<open>
  The decoder, the buffer and the new \<^verbatim>\<open>*_bufsz\<close> with the value returned.  What was not
  decoded is moved behind the decoded data.
\<close>

definition phr_decode_chunked :: "phr_chunked_decoder \<Rightarrow> char list \<Rightarrow>
    (phr_chunked_decoder \<times> char list \<times> nat \<times> int) outcome" where
  "phr_decode_chunked d buf =
     obind (decode_loop \<lparr>decoder = d, bytes = buf, dst = 0, src = 0\<rparr>) (\<lambda>(r, f).
     let rest = length buf - src r;
         ret = (case f of Exit ret \<Rightarrow> ret | _ \<Rightarrow> int rest)
     in obind (move_down (bytes r) (dst r) (src r) rest) (\<lambda>buf.
        Ret (decoder r, buf, dst r, ret)))"

section \<open>One byte after the other\<close>

text \<open>
  The automaton: a byte is kept (it belongs to the encoding), emitted (it is data), wrong, or the
  last one.
\<close>

datatype fed = Keep phr_chunked_decoder | Emit phr_chunked_decoder | Bad phr_chunked_decoder | Last phr_chunked_decoder

definition feed_ext :: "phr_chunked_decoder \<Rightarrow> char \<Rightarrow> fed" where
  "feed_ext d c =
     (if c \<noteq> LF then Keep d
      else if bytes_left_in_chunk d \<noteq> 0 then Keep (d\<lparr>chunk_state := CHUNKED_IN_CHUNK_DATA\<rparr>)
      else if consume_trailer d then Keep (d\<lparr>chunk_state := CHUNKED_IN_TRAILERS_LINE_HEAD\<rparr>)
      else Last d)"

definition feed_size :: "phr_chunked_decoder \<Rightarrow> char \<Rightarrow> fed" where
  "feed_size d c =
     (let v = decode_hex (schar c) in
      if v = -1 then
        if hex_count d = 0 then Bad d
        else feed_ext (d\<lparr>hex_count := 0, chunk_state := CHUNKED_IN_CHUNK_EXT\<rparr>) c
      else if hex_count d = 16 then Bad d
      else Keep (d\<lparr>bytes_left_in_chunk := bytes_left_in_chunk d * 16 + of_int v, hex_count := hex_count d + 1\<rparr>))"

definition feed :: "phr_chunked_decoder \<Rightarrow> char \<Rightarrow> fed" where
  "feed d c =
     (case chunk_state d of
        CHUNKED_IN_CHUNK_SIZE \<Rightarrow> feed_size d c
      | CHUNKED_IN_CHUNK_EXT \<Rightarrow> feed_ext d c
      | CHUNKED_IN_CHUNK_DATA \<Rightarrow>
          (let left = bytes_left_in_chunk d - 1 in
           Emit (d\<lparr>bytes_left_in_chunk := left,
                   chunk_state := if left = 0 then CHUNKED_IN_CHUNK_CRLF else CHUNKED_IN_CHUNK_DATA\<rparr>))
      | CHUNKED_IN_CHUNK_CRLF \<Rightarrow>
          if c = CR then Keep d
          else if c = LF then Keep (d\<lparr>chunk_state := CHUNKED_IN_CHUNK_SIZE\<rparr>)
          else Bad d
      | CHUNKED_IN_TRAILERS_LINE_HEAD \<Rightarrow>
          if c = CR then Keep d
          else if c = LF then Last d
          else Keep (d\<lparr>chunk_state := CHUNKED_IN_TRAILERS_LINE_MIDDLE\<rparr>)
      | CHUNKED_IN_TRAILERS_LINE_MIDDLE \<Rightarrow>
          if c = LF then Keep (d\<lparr>chunk_state := CHUNKED_IN_TRAILERS_LINE_HEAD\<rparr>) else Keep d)"

datatype verdict = More | Malformed | Finished

text \<open>The decoder afterwards, the data, the verdict and the bytes not consumed.\<close>

fun run_chunked :: "phr_chunked_decoder \<Rightarrow> char list \<Rightarrow> phr_chunked_decoder \<times> char list \<times> verdict \<times> char list" where
  "run_chunked d [] = (d, [], More, [])"
| "run_chunked d (c # cs) =
     (case feed d c of
        Keep d \<Rightarrow> run_chunked d cs
      | Emit d \<Rightarrow> (case run_chunked d cs of (d, data, v, rest) \<Rightarrow> (d, c # data, v, rest))
      | Bad d \<Rightarrow> (d, [], Malformed, c # cs)
      | Last d \<Rightarrow> (d, [], Finished, cs))"

definition verdict_value :: "verdict \<Rightarrow> char list \<Rightarrow> int" where
  "verdict_value v rest = (case v of More \<Rightarrow> -2 | Malformed \<Rightarrow> -1 | Finished \<Rightarrow> int (length rest))"

text \<open>Between two bytes there is data to come in the data state.\<close>

definition decoder_ok :: "phr_chunked_decoder \<Rightarrow> bool" where
  "decoder_ok d \<longleftrightarrow> (chunk_state d = CHUNKED_IN_CHUNK_DATA \<longrightarrow> bytes_left_in_chunk d \<noteq> 0)"


section \<open>The code refines the automaton\<close>

lemma run_keep:
  "(\<And>c. c \<in> set xs \<Longrightarrow> feed d c = Keep d) \<Longrightarrow> run_chunked d (xs @ ys) = run_chunked d ys"
  by (induction xs) auto

lemma run_data_short:
  "chunk_state d = CHUNKED_IN_CHUNK_DATA \<Longrightarrow> length xs < unat (bytes_left_in_chunk d) \<Longrightarrow>
   run_chunked d xs = (d\<lparr>bytes_left_in_chunk := bytes_left_in_chunk d - of_nat (length xs)\<rparr>, xs, More, [])"
proof (induction xs arbitrary: d)
  case (Cons c xs)
  let ?l = "bytes_left_in_chunk d"
  have u: "unat (?l - 1) = unat ?l - 1" using Cons.prems(2) by (intro unat_minus_one) auto
  then have "?l - 1 \<noteq> 0" using Cons.prems(2) by auto
  with Cons.prems u Cons.IH [of "d\<lparr>bytes_left_in_chunk := ?l - 1, chunk_state := CHUNKED_IN_CHUNK_DATA\<rparr>"]
  show ?case by (simp add: feed_def Let_def algebra_simps)
qed simp

lemma run_data_full:
  "chunk_state d = CHUNKED_IN_CHUNK_DATA \<Longrightarrow> length xs = unat (bytes_left_in_chunk d) \<Longrightarrow> xs \<noteq> [] \<Longrightarrow>
   run_chunked d (xs @ ys) =
     (case run_chunked (d\<lparr>bytes_left_in_chunk := 0, chunk_state := CHUNKED_IN_CHUNK_CRLF\<rparr>) ys of
        (d', data, v, rest) \<Rightarrow> (d', xs @ data, v, rest))"
proof (induction xs arbitrary: d)
  case (Cons c xs)
  let ?l = "bytes_left_in_chunk d"
  have u: "unat (?l - 1) = unat ?l - 1" using Cons.prems(2) by (intro unat_minus_one) auto
  then have l: "unat (?l - 1) = length xs" using Cons.prems(2) by simp
  show ?case
  proof (cases "xs = []")
    case True
    with l have "?l - 1 = 0" by (simp add: unat_eq_zero)
    with True Cons.prems(1) show ?thesis by (simp add: feed_def Let_def split: prod.splits)
  next
    case False
    with l have "?l - 1 \<noteq> 0" by (auto simp: unat_eq_zero)
    with Cons.prems(1) l False
      Cons.IH [of "d\<lparr>bytes_left_in_chunk := ?l - 1, chunk_state := CHUNKED_IN_CHUNK_DATA\<rparr>"]
    show ?thesis by (simp add: feed_def Let_def split: prod.splits)
  qed
qed simp

text \<open>What the two loops find, in terms of the bytes that are left.\<close>

lemma skip_until_None:
  "skip_until stop buf s = Ret None \<Longrightarrow> c \<in> set (drop s buf) \<Longrightarrow> \<not> stop c"
proof -
  assume a: "skip_until stop buf s = Ret None" and c: "c \<in> set (drop s buf)"
  have "s \<le> length buf" using a starts_inside(2) by blast
  with a have e: "\<not> scan_end (\<lambda>c. \<not> stop c) buf s < length buf"
    by (auto simp: skip_until_scan_end Let_def split: if_splits)
  obtain i where "i < length buf" "s \<le> i" "c = buf ! i"
    using c \<open>s \<le> length buf\<close> by (auto simp: in_set_conv_nth) (metis add.commute le_add1 less_diff_conv)
  with e scan_end_inside [of s i "\<lambda>c. \<not> stop c" buf] show ?thesis by simp
qed

lemma skip_until_skipped:
  assumes "skip_until stop buf s = Ret (Some e)"
  shows "drop s buf = take (e - s) (drop s buf) @ buf ! e # drop (Suc e) buf"
    and "c \<in> set (take (e - s) (drop s buf)) \<Longrightarrow> \<not> stop c" and "stop (buf ! e)"
proof -
  have b: "s \<le> e" "e < length buf" using skip_until_found [OF assms] by auto
  show "drop s buf = take (e - s) (drop s buf) @ buf ! e # drop (Suc e) buf"
    using b append_take_drop_id [of "e - s" "drop s buf"] by (simp add: Cons_nth_drop_Suc)
  show "stop (buf ! e)" using skip_until_Some [OF assms] b by simp
  show "\<not> stop c" if c: "c \<in> set (take (e - s) (drop s buf))"
  proof -
    have "e = scan_end (\<lambda>c. \<not> stop c) buf s"
      using assms b by (auto simp: skip_until_scan_end Let_def split: if_splits)
    moreover from c b obtain i where "i < e - s" "c = buf ! (s + i)"
      by (auto simp: in_set_conv_nth)
    ultimately show ?thesis using scan_end_inside [of s "s + i" "\<lambda>c. \<not> stop c" buf] by simp
  qed
qed

lemma size_loop_run:
  "s \<le> length buf \<Longrightarrow> chunk_state d = CHUNKED_IN_CHUNK_SIZE \<Longrightarrow>
   \<exists>d' s' ret. size_loop buf s d = Ret (d', s', ret) \<and> s \<le> s' \<and> s' \<le> length buf \<and>
     chunk_state d' = CHUNKED_IN_CHUNK_SIZE \<and> run_chunked d (drop s buf) = run_chunked d' (drop s' buf) \<and>
     (case ret of
        None \<Rightarrow> s' < length buf \<and> hex_count d' \<noteq> 0 \<and> decode_hex (schar (buf ! s')) = -1
      | Some ret \<Rightarrow> ret = -2 \<and> s' = length buf \<or> ret = -1 \<and> s' < length buf \<and> feed d' (buf ! s') = Bad d')"
proof (induction buf s d rule: size_loop.induct)
  case (1 buf s d)
  show ?case
  proof (cases "s = length buf")
    case True
    with 1 show ?thesis by (subst size_loop.simps) simp
  next
    case False
    with "1.prems" have lt: "s < length buf" by simp
    have dr: "drop s buf = buf ! s # drop (Suc s) buf" using lt by (simp add: Cons_nth_drop_Suc)
    define v where "v = decode_hex (schar (buf ! s))"
    have f: "feed d (buf ! s) = feed_size d (buf ! s)" using "1.prems" by (simp add: feed_def)
    show ?thesis
    proof (cases "v = -1 \<or> hex_count d = 16")
      case True
      then have "size_loop buf s d = (if v = -1 \<and> hex_count d \<noteq> 0 then Ret (d, s, None) else Ret (d, s, Some (-1)))"
        using lt by (subst size_loop.simps) (auto simp: v_def)
      moreover have "\<not> (v = -1 \<and> hex_count d \<noteq> 0) \<Longrightarrow> feed d (buf ! s) = Bad d"
        using True by (auto simp: f feed_size_def v_def Let_def)
      ultimately show ?thesis using lt "1.prems" by (auto simp: v_def)
    next
      case no: False
      define d2 where "d2 = d\<lparr>bytes_left_in_chunk := bytes_left_in_chunk d * 16 + of_int v, hex_count := hex_count d + 1\<rparr>"
      have "size_loop buf s d = size_loop buf (Suc s) d2"
        using no lt by (subst size_loop.simps) (auto simp: v_def d2_def Let_def)
      moreover have "run_chunked d (drop s buf) = run_chunked d2 (drop (Suc s) buf)"
        using no by (simp add: dr f feed_size_def Let_def v_def d2_def)
      moreover have "\<exists>d' s' ret. size_loop buf (Suc s) d2 = Ret (d', s', ret) \<and> Suc s \<le> s' \<and> s' \<le> length buf \<and>
         chunk_state d' = CHUNKED_IN_CHUNK_SIZE \<and> run_chunked d2 (drop (Suc s) buf) = run_chunked d' (drop s' buf) \<and>
         (case ret of
            None \<Rightarrow> s' < length buf \<and> hex_count d' \<noteq> 0 \<and> decode_hex (schar (buf ! s')) = -1
          | Some ret \<Rightarrow> ret = -2 \<and> s' = length buf \<or> ret = -1 \<and> s' < length buf \<and> feed d' (buf ! s') = Bad d')"
        using "1.IH" [OF False _ refl, of "buf ! s"] no lt "1.prems" by (simp add: v_def d2_def)
      ultimately show ?thesis using Suc_leD by fastforce
    qed
  qed
qed

lemma move_down_run:
  assumes "d \<le> s" "s + n \<le> length buf"
  shows "\<exists>buf'. move_down buf d s n = Ret buf' \<and> length buf' = length buf \<and>
    take (d + n) buf' = take d buf @ take n (drop s buf) \<and> drop (s + n) buf' = drop (s + n) buf"
proof (cases "d = s")
  case True
  then show ?thesis by (simp add: move_down_def take_add)
next
  case False
  let ?b = "take d buf @ take n (drop s buf) @ drop (d + n) buf"
  have l: "length (take d buf) = d" "length (take n (drop s buf)) = n" using assms by auto
  have "take (d + n) ?b = take d buf @ take n (drop s buf)" using l by simp
  moreover have "drop (s + n) ?b = drop (s + n) buf" using l assms by simp
  moreover have "length ?b = length buf" using l assms by simp
  ultimately show ?thesis using False assms by (simp add: move_down_def memmove_def)
qed

text \<open>
  A run in the middle of the loop means: what is decoded already, followed by what the automaton makes of
  the bytes that are left.
\<close>

definition chunk_inv :: "chunk_run \<Rightarrow> bool" where
  "chunk_inv r \<longleftrightarrow> dst r \<le> src r \<and> src r \<le> length (bytes r) \<and> decoder_ok (decoder r)"

definition meaning :: "chunk_run \<Rightarrow> phr_chunked_decoder \<times> char list \<times> verdict \<times> char list" where
  "meaning r =
     (case run_chunked (decoder r) (drop (src r) (bytes r)) of
        (d, data, v, rest) \<Rightarrow> (d, take (dst r) (bytes r) @ data, v, rest))"

definition ended :: "chunk_run \<Rightarrow> verdict \<Rightarrow> phr_chunked_decoder \<times> char list \<times> verdict \<times> char list" where
  "ended r v = (decoder r, take (dst r) (bytes r), v, drop (src r) (bytes r))"

definition flow_ok :: "chunk_run \<Rightarrow> chunk_run \<times> flow \<Rightarrow> bool" where
  "flow_ok r x \<longleftrightarrow> (case x of (r', f) \<Rightarrow> chunk_inv r' \<and> length (bytes r') = length (bytes r) \<and>
     (case f of
        Loop \<Rightarrow> meaning r' = meaning r
      | Complete \<Rightarrow> meaning r = ended r' Finished
      | Exit ret \<Rightarrow> ret = -2 \<and> meaning r = ended r' More \<or> ret = -1 \<and> meaning r = ended r' Malformed))"

lemma meaning_step:
  "bytes r' = bytes r \<Longrightarrow> dst r' = dst r \<Longrightarrow>
   run_chunked (decoder r) (drop (src r) (bytes r)) = run_chunked (decoder r') (drop (src r') (bytes r)) \<Longrightarrow>
   meaning r' = meaning r"
  by (simp add: meaning_def)

lemma meaning_end:
  "bytes r' = bytes r \<Longrightarrow> dst r' = dst r \<Longrightarrow>
   run_chunked (decoder r) (drop (src r) (bytes r)) = (decoder r', [], v, drop (src r') (bytes r)) \<Longrightarrow>
   meaning r = ended r' v"
  by (simp add: meaning_def ended_def)

lemmas flow_simps = flow_ok_def chunk_inv_def decoder_ok_def meaning_step [THEN eqTrueI] meaning_end [THEN eqTrueI]

lemma in_chunk_size_ok:
  assumes "chunk_inv r" "chunk_state (decoder r) = CHUNKED_IN_CHUNK_SIZE"
  shows "\<exists>x. in_chunk_size r = Ret x \<and> flow_ok r x"
proof -
  obtain d s ret where L: "size_loop (bytes r) (src r) (decoder r) = Ret (d, s, ret)" "src r \<le> s" "s \<le> length (bytes r)"
    "chunk_state d = CHUNKED_IN_CHUNK_SIZE"
    "run_chunked (decoder r) (drop (src r) (bytes r)) = run_chunked d (drop s (bytes r))"
    "case ret of
        None \<Rightarrow> s < length (bytes r) \<and> hex_count d \<noteq> 0 \<and> decode_hex (schar (bytes r ! s)) = -1
      | Some ret \<Rightarrow> ret = -2 \<and> s = length (bytes r) \<or> ret = -1 \<and> s < length (bytes r) \<and> feed d (bytes r ! s) = Bad d"
    using size_loop_run [of "src r" "bytes r" "decoder r"] assms by (auto simp: chunk_inv_def)
  show ?thesis
  proof (cases ret)
    case None
    define d2 where "d2 = d\<lparr>hex_count := 0, chunk_state := CHUNKED_IN_CHUNK_EXT\<rparr>"
    have "feed d (bytes r ! s) = feed d2 (bytes r ! s)"
      using L(4,6) None by (simp add: feed_def feed_size_def d2_def)
    then have "run_chunked d (drop s (bytes r)) = run_chunked d2 (drop s (bytes r))"
      using L(6) None by (simp add: Cons_nth_drop_Suc [symmetric])
    with L None assms(1) show ?thesis
      by (simp add: in_chunk_size_def flow_ok_def chunk_inv_def decoder_ok_def d2_def meaning_step [THEN eqTrueI])
  next
    case (Some k)
    then have "run_chunked d (drop s (bytes r)) =
        (d, [], if k = -2 then More else Malformed, drop s (bytes r))"
      using L(6) by (auto simp: Cons_nth_drop_Suc [symmetric])
    with L Some assms(1) show ?thesis
      by (auto simp: in_chunk_size_def flow_ok_def chunk_inv_def decoder_ok_def meaning_end [THEN eqTrueI])
  qed
qed

text \<open>The four cases that skip bytes.\<close>

lemma skip_cases:
  assumes "chunk_inv r" "\<And>c. \<not> stop c \<Longrightarrow> feed (decoder r) c = Keep (decoder r)"
  obtains (none) "skip_until stop (bytes r) (src r) = Ret None"
      "run_chunked (decoder r) (drop (src r) (bytes r)) = (decoder r, [], More, drop (length (bytes r)) (bytes r))"
    | (some) e where "skip_until stop (bytes r) (src r) = Ret (Some e)" "src r \<le> e" "e < length (bytes r)"
      "stop (bytes r ! e)"
      "run_chunked (decoder r) (drop (src r) (bytes r)) =
         run_chunked (decoder r) (bytes r ! e # drop (Suc e) (bytes r))"
proof (cases "skip_until stop (bytes r) (src r)")
  case (Ret x)
  show ?thesis
  proof (cases x)
    case None
    have "run_chunked (decoder r) (drop (src r) (bytes r) @ []) = run_chunked (decoder r) []"
      by (rule run_keep, rule assms(2), rule skip_until_None) (use Ret None in auto)
    then show ?thesis using none Ret None by simp
  next
    case (Some e)
    note R = Ret [unfolded Some]
    have "run_chunked (decoder r) (take (e - src r) (drop (src r) (bytes r)) @ bytes r ! e # drop (Suc e) (bytes r)) =
        run_chunked (decoder r) (bytes r ! e # drop (Suc e) (bytes r))"
      by (rule run_keep, rule assms(2), rule skip_until_skipped(2) [OF R])
    then show ?thesis
      using skip_until_skipped(1,3) [OF R] skip_until_found [OF R] by (intro some [OF R]) auto
  qed
qed (use assms(1) in \<open>simp_all add: skip_until_scan_end Let_def chunk_inv_def\<close>)

lemma in_chunk_ext_ok:
  assumes "chunk_inv r" "chunk_state (decoder r) = CHUNKED_IN_CHUNK_EXT"
  shows "\<exists>x. in_chunk_ext r = Ret x \<and> flow_ok r x"
proof -
  have k: "c \<noteq> LF \<Longrightarrow> feed (decoder r) c = Keep (decoder r)" for c
    using assms(2) by (simp add: feed_def feed_ext_def)
  show ?thesis using assms
    by (cases rule: skip_cases [where stop = "\<lambda>c. c = LF", OF assms(1) k])
       (simp_all add: in_chunk_ext_def flow_simps feed_def feed_ext_def Let_def)
qed

lemma in_chunk_crlf_ok:
  assumes "chunk_inv r" "chunk_state (decoder r) = CHUNKED_IN_CHUNK_CRLF"
  shows "\<exists>x. in_chunk_crlf r = Ret x \<and> flow_ok r x"
proof -
  have k: "\<not> c \<noteq> CR \<Longrightarrow> feed (decoder r) c = Keep (decoder r)" for c
    using assms(2) by (simp add: feed_def)
  show ?thesis using assms
    by (cases rule: skip_cases [where stop = "\<lambda>c. c \<noteq> CR", OF assms(1) k])
       (simp_all add: in_chunk_crlf_def flow_simps feed_def Cons_nth_drop_Suc [symmetric])
qed

lemma in_trailers_line_head_ok:
  assumes "chunk_inv r" "chunk_state (decoder r) = CHUNKED_IN_TRAILERS_LINE_HEAD"
  shows "\<exists>x. in_trailers_line_head r = Ret x \<and> flow_ok r x"
proof -
  have k: "\<not> c \<noteq> CR \<Longrightarrow> feed (decoder r) c = Keep (decoder r)" for c
    using assms(2) by (simp add: feed_def)
  show ?thesis using assms
    by (cases rule: skip_cases [where stop = "\<lambda>c. c \<noteq> CR", OF assms(1) k])
       (simp_all add: in_trailers_line_head_def flow_simps feed_def)
qed

lemma in_trailers_line_middle_ok:
  assumes "chunk_inv r" "chunk_state (decoder r) = CHUNKED_IN_TRAILERS_LINE_MIDDLE"
  shows "\<exists>x. in_trailers_line_middle r = Ret x \<and> flow_ok r x"
proof -
  have k: "c \<noteq> LF \<Longrightarrow> feed (decoder r) c = Keep (decoder r)" for c
    using assms(2) by (simp add: feed_def)
  show ?thesis using assms
    by (cases rule: skip_cases [where stop = "\<lambda>c. c = LF", OF assms(1) k])
       (simp_all add: in_trailers_line_middle_def flow_simps feed_def)
qed

lemma in_chunk_data_ok:
  assumes "chunk_inv r" "chunk_state (decoder r) = CHUNKED_IN_CHUNK_DATA"
  shows "\<exists>x. in_chunk_data r = Ret x \<and> flow_ok r x"
proof -
  let ?d = "decoder r" and ?rest = "drop (src r) (bytes r)"
  define left where "left = unat (bytes_left_in_chunk ?d)"
  have i: "dst r \<le> src r" "src r \<le> length (bytes r)" "left \<noteq> 0"
    using assms by (auto simp: chunk_inv_def decoder_ok_def left_def unat_eq_zero)
  define n where "n = min (length ?rest) left"
  have n: "src r + n \<le> length (bytes r)" using i by (simp add: n_def)
  obtain buf where M: "move_down (bytes r) (dst r) (src r) n = Ret buf" "length buf = length (bytes r)"
    "take (dst r + n) buf = take (dst r) (bytes r) @ take n ?rest" "drop (src r + n) buf = drop (src r + n) (bytes r)"
    using move_down_run [OF i(1) n] by blast
  show ?thesis
  proof (cases "length ?rest < left")
    case True
    have "bytes_left_in_chunk ?d \<noteq> of_nat (length ?rest)"
    proof
      assume "bytes_left_in_chunk ?d = of_nat (length ?rest)"
      then have "left = length ?rest"
        using True le_unat_uoi [of "length ?rest" "bytes_left_in_chunk ?d"] by (simp add: left_def)
      with True show False by simp
    qed
    with True M i run_data_short [OF assms(2), of ?rest] assms(2) show ?thesis
      by (simp add: in_chunk_data_def Let_def flow_ok_def chunk_inv_def decoder_ok_def meaning_def ended_def
          left_def [symmetric] n_def)
  next
    case False
    then have t: "length (take left ?rest) = left" "n = left" by (auto simp: n_def)
    have "run_chunked ?d ?rest = run_chunked ?d (take left ?rest @ drop left ?rest)"
      by (simp only: append_take_drop_id)
    also have "\<dots> =
       (case run_chunked (?d\<lparr>bytes_left_in_chunk := 0, chunk_state := CHUNKED_IN_CHUNK_CRLF\<rparr>) (drop left ?rest) of
          (d', data, v, rest) \<Rightarrow> (d', take left ?rest @ data, v, rest))"
      using t(1) i by (intro run_data_full assms(2)) (auto simp: left_def)
    finally have R: "run_chunked ?d ?rest =
       (case run_chunked (?d\<lparr>bytes_left_in_chunk := 0, chunk_state := CHUNKED_IN_CHUNK_CRLF\<rparr>)
               (drop (src r + left) (bytes r)) of
          (d', data, v, rest) \<Rightarrow> (d', take left ?rest @ data, v, rest))"
      by (simp only: drop_drop add.commute [of left])
    have "in_chunk_data r = Ret (r\<lparr>bytes := buf, src := src r + left, dst := dst r + left,
        decoder := ?d\<lparr>bytes_left_in_chunk := 0, chunk_state := CHUNKED_IN_CHUNK_CRLF\<rparr>\<rparr>, Loop)"
      using False M(1) t(2) by (simp add: in_chunk_data_def Let_def left_def [symmetric])
    with M i t(2) n R show ?thesis
      by (simp add: flow_ok_def chunk_inv_def decoder_ok_def meaning_def split: prod.splits)
  qed
qed

lemma chunk_step_ok: "chunk_inv r \<Longrightarrow> \<exists>x. chunk_step r = Ret x \<and> flow_ok r x"
  using in_chunk_size_ok in_chunk_ext_ok in_chunk_data_ok in_chunk_crlf_ok in_trailers_line_head_ok
    in_trailers_line_middle_ok
  by (cases "chunk_state (decoder r)") (simp_all add: chunk_step_def)

lemma decode_loop_ok: "chunk_inv r \<Longrightarrow> \<exists>x. decode_loop r = Ret x \<and> snd x \<noteq> Loop \<and> flow_ok r x"
proof (induction r rule: decode_loop.induct)
  case (1 r)
  obtain r' f where S: "chunk_step r = Ret (r', f)" "flow_ok r (r', f)"
    using chunk_step_ok [OF "1.prems"] by auto
  show ?case
  proof (cases "f = Loop")
    case True
    then have "chunk_inv r'" using S(2) by (simp add: flow_ok_def)
    from "1.IH" [OF S(1) refl True this] obtain x where
      x: "decode_loop r' = Ret x" "snd x \<noteq> Loop" "flow_ok r' x" by blast
    then have "flow_ok r x" using S(2) True by (auto simp: flow_ok_def split: flow.splits)
    with x S True show ?thesis by (subst decode_loop.simps) simp
  next
    case False
    with S show ?thesis by (subst decode_loop.simps) (cases f; simp)
  qed
qed

lemma decode_chunked_run:
  assumes "decoder_ok d" "run_chunked d buf = (d', data, v, rest)"
  shows "\<exists>buf'. phr_decode_chunked d buf = Ret (d', buf', length data, verdict_value v rest) \<and>
    length buf' = length buf \<and> take (length data + length rest) buf' = data @ rest"
proof -
  let ?r = "\<lparr>decoder = d, bytes = buf, dst = 0, src = 0\<rparr>"
  have "chunk_inv ?r" using assms(1) by (simp add: chunk_inv_def)
  then obtain r f where L: "decode_loop ?r = Ret (r, f)" "f \<noteq> Loop" "flow_ok ?r (r, f)"
    using decode_loop_ok [of ?r] by auto
  have m: "meaning ?r = (d', data, v, rest)" using assms(2) by (simp add: meaning_def)
  from L m have E: "d' = decoder r" "data = take (dst r) (bytes r)" "rest = drop (src r) (bytes r)"
    "(case f of Exit ret \<Rightarrow> ret | _ \<Rightarrow> int (length rest)) = verdict_value v rest"
    by (auto simp: flow_ok_def ended_def verdict_value_def split: flow.splits)
  have I: "dst r \<le> src r" "src r \<le> length (bytes r)" "length (bytes r) = length buf"
    using L(3) by (auto simp: flow_ok_def chunk_inv_def)
  have n: "src r + (length buf - src r) \<le> length (bytes r)" using I by simp
  obtain buf' where B: "move_down (bytes r) (dst r) (src r) (length buf - src r) = Ret buf'"
    "length buf' = length (bytes r)"
    "take (dst r + (length buf - src r)) buf' = take (dst r) (bytes r) @ take (length buf - src r) (drop (src r) (bytes r))"
    using move_down_run [OF I(1) n] by blast
  have l: "length data = dst r" "length rest = length buf - src r" using E I by auto
  from E(4) have "(case f of Exit ret \<Rightarrow> ret | _ \<Rightarrow> int (length buf - src r)) = verdict_value v rest"
    unfolding l(2) .
  with L(1) B(1) l(1) E(1) have "phr_decode_chunked d buf = Ret (d', buf', length data, verdict_value v rest)"
    by (simp add: phr_decode_chunked_def Let_def)
  with B l I E(2,3) show ?thesis by simp
qed

section \<open>The automaton in pieces\<close>

lemma feed_keeps_ok:
  assumes "decoder_ok d"
  shows "feed d c = Keep d' \<Longrightarrow> decoder_ok d'" "feed d c = Emit d' \<Longrightarrow> decoder_ok d'"
  using assms
  by (auto simp: feed_def feed_size_def feed_ext_def decoder_ok_def Let_def split: chunked_state.splits if_splits)

lemma run_chunked_keeps_ok: "decoder_ok d \<Longrightarrow> run_chunked d cs = (d', data, More, rest) \<Longrightarrow> decoder_ok d' \<and> rest = []"
proof (induction cs arbitrary: d data)
  case (Cons c cs)
  show ?case
  proof (cases "feed d c")
    case (Keep d2)
    with Cons.prems Cons.IH [OF feed_keeps_ok(1) [OF Cons.prems(1) Keep]] show ?thesis by simp
  next
    case (Emit d2)
    with Cons.prems Cons.IH [OF feed_keeps_ok(2) [OF Cons.prems(1) Emit]] show ?thesis
      by (auto split: prod.splits)
  qed (use Cons.prems in simp_all)
qed simp

lemma run_chunked_append:
  "run_chunked d (a @ b) =
     (case run_chunked d a of
        (d', data, v, rest) \<Rightarrow>
          if v = More then (case run_chunked d' b of (d'', data', v, rest) \<Rightarrow> (d'', data @ data', v, rest))
          else (d', data, v, rest @ b))"
proof (induction a arbitrary: d)
  case (Cons c a)
  then show ?case by (cases "feed d c") (simp_all split: prod.splits)
qed (simp split: prod.splits)

section \<open>Chunk sizes\<close>

abbreviation is_hex :: "char \<Rightarrow> bool" where
  "is_hex c \<equiv> decode_hex (schar c) \<noteq> -1"

definition hex_value :: "char list \<Rightarrow> nat" where
  "hex_value ds = foldl (\<lambda>v c. v * 16 + nat (decode_hex (schar c))) 0 ds"

lemma decode_hex_range: "is_hex c \<Longrightarrow> 0 \<le> decode_hex (schar c) \<and> decode_hex (schar c) < 16"
proof -
  have "schar CHR ''0'' = 48" "schar CHR ''9'' = 57" "schar CHR ''A'' = 65" "schar CHR ''F'' = 70"
    "schar CHR ''a'' = 97" "schar CHR ''f'' = 102"
    by (simp_all add: schar_def uchar_def)
  then show "is_hex c \<Longrightarrow> 0 \<le> decode_hex (schar c) \<and> decode_hex (schar c) < 16"
    by (auto simp: decode_hex_def split: if_splits)
qed

lemma hex_value_snoc: "hex_value (ds @ [c]) = hex_value ds * 16 + nat (decode_hex (schar c))"
  by (simp add: hex_value_def)

lemma hex_value_less: "\<forall>c \<in> set ds. is_hex c \<Longrightarrow> hex_value ds < 16 ^ length ds"
proof (induction ds rule: rev_induct)
  case (snoc c ds)
  then have "hex_value ds + 1 \<le> 16 ^ length ds" "nat (decode_hex (schar c)) < 16"
    using decode_hex_range [of c] by (auto simp: Suc_le_eq)
  then have "hex_value ds * 16 + nat (decode_hex (schar c)) < (hex_value ds + 1) * 16" by simp
  also have "\<dots> \<le> 16 ^ length ds * 16" using \<open>hex_value ds + 1 \<le> 16 ^ length ds\<close> by (intro mult_right_mono) auto
  finally show ?case by (simp add: hex_value_snoc mult.commute)
qed (simp add: hex_value_def)

text \<open>Up to sixteen digits are read, and the 64-bit word holds exactly their value.\<close>

definition fresh_decoder :: "bool \<Rightarrow> phr_chunked_decoder" where
  "fresh_decoder trailer =
     \<lparr>bytes_left_in_chunk = 0, consume_trailer = trailer, hex_count = 0, chunk_state = CHUNKED_IN_CHUNK_SIZE\<rparr>"

lemma run_hex:
  "\<forall>c \<in> set ds. is_hex c \<Longrightarrow> length ds \<le> 16 \<Longrightarrow>
   run_chunked (fresh_decoder t) (ds @ ys) =
     run_chunked ((fresh_decoder t)\<lparr>bytes_left_in_chunk := of_nat (hex_value ds), hex_count := of_nat (length ds)\<rparr>) ys"
proof (induction ds arbitrary: ys rule: rev_induct)
  case Nil
  then show ?case by (simp add: hex_value_def fresh_decoder_def)
next
  case (snoc c ds)
  define k where "k = length ds"
  have k: "k < 16" using snoc.prems by (simp add: k_def)
  then have "(of_nat k :: 8 word) \<noteq> 16"
  proof -
    have "unat (of_nat k :: 8 word) = k" using k by (simp add: unsigned_of_nat take_bit_nat_eq_self)
    then show ?thesis using k by auto
  qed
  moreover have "0 \<le> decode_hex (schar c)" using snoc.prems(1) decode_hex_range [of c] by simp
  moreover have "run_chunked (fresh_decoder t) (ds @ (c # ys)) =
     run_chunked ((fresh_decoder t)\<lparr>bytes_left_in_chunk := of_nat (hex_value ds), hex_count := of_nat k\<rparr>) (c # ys)"
    unfolding k_def using snoc.prems by (intro snoc.IH) auto
  ultimately have "run_chunked (fresh_decoder t) (ds @ (c # ys)) =
     run_chunked ((fresh_decoder t)\<lparr>bytes_left_in_chunk := of_nat (hex_value ds) * 16 + of_int (decode_hex (schar c)),
       hex_count := of_nat k + 1\<rparr>) ys"
    using snoc.prems(1) by (simp add: fresh_decoder_def feed_def feed_size_def Let_def)
  moreover have "of_nat (hex_value (ds @ [c])) = of_nat (hex_value ds) * 16 + (of_int (decode_hex (schar c)) :: 64 word)"
    using \<open>0 \<le> decode_hex (schar c)\<close> by (simp add: hex_value_snoc of_nat_nat)
  moreover have "of_nat (length (ds @ [c])) = (of_nat k :: 8 word) + 1" by (simp add: k_def)
  ultimately show ?case by (simp only: append_assoc append_Cons append_Nil)
qed

text \<open>The digits of a number.\<close>

definition hex_digit :: "nat \<Rightarrow> char" where
  "hex_digit n = (''0123456789abcdef'' ! n)"

fun hex_text :: "nat \<Rightarrow> char list" where
  "hex_text n = (if n < 16 then [hex_digit n] else hex_text (n div 16) @ [hex_digit (n mod 16)])"

declare hex_text.simps [simp del]

lemma decode_hex_digit: "n < 16 \<Longrightarrow> decode_hex (schar (hex_digit n)) = int n"
proof -
  have "\<forall>n \<in> set [0..<16]. decode_hex (schar (hex_digit n)) = int n" by code_simp
  then show "n < 16 \<Longrightarrow> decode_hex (schar (hex_digit n)) = int n" by auto
qed

lemma hex_text_digits: "\<forall>c \<in> set (hex_text n). is_hex c"
  by (induction n rule: hex_text.induct) (subst hex_text.simps, auto simp: decode_hex_digit)

lemma hex_value_text: "hex_value (hex_text n) = n"
proof (induction n rule: hex_text.induct)
  case (1 n)
  show ?case
  proof (cases "n < 16")
    case True
    then show ?thesis by (subst hex_text.simps) (simp add: hex_value_def decode_hex_digit)
  next
    case False
    with 1 show ?thesis by (subst hex_text.simps) (simp add: hex_value_snoc decode_hex_digit)
  qed
qed

lemma length_hex_text: "n < 16 ^ k \<Longrightarrow> 0 < k \<Longrightarrow> length (hex_text n) \<le> k"
proof (induction k arbitrary: n)
  case (Suc k)
  show ?case
  proof (cases "n < 16")
    case False
    then have "0 < k" using Suc.prems by (cases k) auto
    moreover have "n div 16 < 16 ^ k" using Suc.prems(1) by (simp add: less_mult_imp_div_less mult.commute)
    ultimately have "length (hex_text (n div 16)) \<le> k" by (intro Suc.IH)
    with False show ?thesis by (subst hex_text.simps) simp
  qed (subst hex_text.simps, simp)
qed simp

lemma hex_text_not_Nil: "hex_text n \<noteq> []"
  by (subst hex_text.simps) simp

section \<open>The chunked encoding\<close>

text \<open>A body as a sequence of chunks, closed by the chunk of size 0 and an empty trailer.\<close>

definition encode_chunk :: "char list \<Rightarrow> char list" where
  "encode_chunk xs = hex_text (length xs) @ [CR, LF] @ xs @ [CR, LF]"

definition encode_chunked :: "char list list \<Rightarrow> char list" where
  "encode_chunked xss = concat (map encode_chunk xss) @ ''0'' @ [CR, LF] @ [CR, LF]"

lemma run_chunk_size:
  assumes "n < 2 ^ 64"
  shows "run_chunked (fresh_decoder t) (hex_text n @ CR # ys) =
    run_chunked ((fresh_decoder t)\<lparr>bytes_left_in_chunk := of_nat n, chunk_state := CHUNKED_IN_CHUNK_EXT\<rparr>) ys"
proof -
  have l: "length (hex_text n) \<le> 16" using length_hex_text [of n 16] assms by simp
  have "unat (of_nat (length (hex_text n)) :: 8 word) = length (hex_text n)"
    using l by (simp add: unsigned_of_nat take_bit_nat_eq_self)
  then have "(of_nat (length (hex_text n)) :: 8 word) \<noteq> 0"
    using hex_text_not_Nil [of n] by (metis length_0_conv unat_eq_zero)
  moreover have "decode_hex (schar CR) = -1" by code_simp
  ultimately show ?thesis
    using run_hex [OF hex_text_digits l, of t "CR # ys"]
    by (simp add: hex_value_text feed_def feed_size_def feed_ext_def fresh_decoder_def)
qed

lemma run_chunk:
  assumes "xs \<noteq> []" "length xs < 2 ^ 64"
  shows "run_chunked (fresh_decoder t) (encode_chunk xs @ ys) =
    (case run_chunked (fresh_decoder t) ys of (d, data, v, rest) \<Rightarrow> (d, xs @ data, v, rest))"
proof -
  let ?d = "(fresh_decoder t)\<lparr>bytes_left_in_chunk := of_nat (length xs), chunk_state := CHUNKED_IN_CHUNK_DATA\<rparr>"
  have u: "unat (of_nat (length xs) :: 64 word) = length xs"
    using assms(2) by (simp add: unsigned_of_nat take_bit_nat_eq_self)
  then have nz: "(of_nat (length xs) :: 64 word) \<noteq> 0" using assms(1) by (metis length_0_conv unat_eq_zero)
  have "run_chunked (fresh_decoder t) (encode_chunk xs @ ys) = run_chunked ?d (xs @ CR # LF # ys)"
    using run_chunk_size [OF assms(2), of t "LF # xs @ CR # LF # ys"] nz
    by (simp add: encode_chunk_def feed_def feed_ext_def)
  also have "\<dots> = (case run_chunked (?d\<lparr>bytes_left_in_chunk := 0, chunk_state := CHUNKED_IN_CHUNK_CRLF\<rparr>)
      (CR # LF # ys) of (d, data, v, rest) \<Rightarrow> (d, xs @ data, v, rest))"
    using u assms(1) by (intro run_data_full) simp_all
  also have "run_chunked (?d\<lparr>bytes_left_in_chunk := 0, chunk_state := CHUNKED_IN_CHUNK_CRLF\<rparr>) (CR # LF # ys) =
      run_chunked (fresh_decoder t) ys"
    by (simp add: feed_def fresh_decoder_def)
  finally show ?thesis .
qed

lemma run_encoded:
  "\<forall>xs \<in> set xss. xs \<noteq> [] \<and> length xs < 2 ^ 64 \<Longrightarrow>
   \<exists>d. run_chunked (fresh_decoder True) (encode_chunked xss @ rest) = (d, concat xss, Finished, rest)"
proof (induction xss)
  case Nil
  have "''0'' = hex_text 0" by code_simp
  then show ?case
    using run_chunk_size [of 0 True "LF # CR # LF # rest"]
    by (simp add: encode_chunked_def feed_def feed_ext_def fresh_decoder_def)
next
  case (Cons xs xss)
  then obtain d where "run_chunked (fresh_decoder True) (encode_chunked xss @ rest) = (d, concat xss, Finished, rest)"
    by auto
  then show ?case
    using run_chunk [of xs True "encode_chunked xss @ rest"] Cons.prems by (simp add: encode_chunked_def)
qed

section \<open>Properties\<close>

text \<open>
  C13.  \<^verbatim>\<open>phr_decode_chunked\<close> refines the automaton: it returns, without leaving its buffer, with the
  decoder and the verdict of the automaton (\<open>-2\<close> for more, \<open>-1\<close> for an error, the number of bytes
  left behind the end otherwise), \<^verbatim>\<open>*bufsz\<close> is the length of the data, and the buffer starts with
  the data followed by the bytes that were not consumed.
\<close>

theorem decode_chunked_refines:
  assumes "decoder_ok d" "run_chunked d buf = (d', data, v, rest)"
  shows "\<exists>buf'. phr_decode_chunked d buf = Ret (d', buf', length data, verdict_value v rest) \<and>
    length buf' = length buf \<and> take (length data + length rest) buf' = data @ rest"
  by (rule decode_chunked_run [OF assms])

definition some_encoding :: "char list" where
  "some_encoding = ''3'' @ [CR, LF] @ ''abc'' @ [CR, LF] @ ''2;x'' @ [LF] @ ''de'' @ [CR, LF] @ ''0'' @ [LF] @ [LF] @ ''tail''"

lemma decode_chunked_refines_witness:
  "\<exists>d' buf'. phr_decode_chunked (fresh_decoder True) some_encoding = Ret (d', buf', 5, 4) \<and>
     take 9 buf' = ''abcdetail''"
proof -
  have "decoder_ok (fresh_decoder True)" by (simp add: decoder_ok_def fresh_decoder_def)
  moreover have "snd (run_chunked (fresh_decoder True) some_encoding) = (''abcde'', Finished, ''tail'')" by code_simp
  then obtain d' where "run_chunked (fresh_decoder True) some_encoding = (d', ''abcde'', Finished, ''tail'')"
    by (metis prod.collapse)
  ultimately show ?thesis using decode_chunked_refines [of "fresh_decoder True" some_encoding d']
    by (auto simp: verdict_value_def eval_nat_numeral)
qed

text \<open>
  C14.  It does not matter how the data is cut: decoding a piece that is not the end and then the rest gives the
  decoder, the result and the data of decoding all at once.
\<close>

theorem decode_chunked_pieces:
  assumes "decoder_ok d" "phr_decode_chunked d a = Ret (d1, a', n, -2)"
    and "phr_decode_chunked d1 b = Ret (d2, b', m, ret)"
  shows "\<exists>buf. phr_decode_chunked d (a @ b) = Ret (d2, buf, n + m, ret) \<and>
    take (n + m) buf = take n a' @ take m b'"
proof -
  obtain e1 data1 v1 rest1 where R1: "run_chunked d a = (e1, data1, v1, rest1)" by (metis prod_cases4)
  from decode_chunked_run [OF assms(1) R1] assms(2)
  have 1: "e1 = d1" "v1 = More" "n = length data1" "take (n + length rest1) a' = data1 @ rest1"
    by (auto simp: verdict_value_def split: verdict.splits)
  note ok = run_chunked_keeps_ok [OF assms(1) R1 [unfolded 1(2)]]
  obtain e2 data2 v2 rest2 where R2: "run_chunked d1 b = (e2, data2, v2, rest2)" by (metis prod_cases4)
  from ok have "decoder_ok d1" by (simp add: 1)
  from decode_chunked_run [OF this R2] assms(3)
  have 2: "e2 = d2" "ret = verdict_value v2 rest2" "m = length data2" "take (m + length rest2) b' = data2 @ rest2"
    by auto
  have "run_chunked d (a @ b) = (d2, data1 @ data2, v2, rest2)"
    using R1 R2 1 2 by (simp add: run_chunked_append)
  from decode_chunked_run [OF assms(1) this] obtain buf where
    "phr_decode_chunked d (a @ b) = Ret (d2, buf, n + m, ret)"
    "take (n + m + length rest2) buf = (data1 @ data2) @ rest2"
    using 1 2 by auto
  moreover have "take n a' = data1" "take m b' = data2"
    using arg_cong [OF 1(4), of "take n"] arg_cong [OF 2(4), of "take m"] 1(3) 2(3) by (simp_all add: min_def)
  moreover have "take (n + m) buf = data1 @ data2"
    using arg_cong [OF calculation(2), of "take (n + m)"] 1(3) 2(3) by (simp add: min_def)
  ultimately show ?thesis by simp
qed

lemma decode_chunked_pieces_witness:
  "\<exists>d2 buf. phr_decode_chunked (fresh_decoder False) (''3'' @ [LF] @ ''ab'' @ ''c'' @ [LF] @ ''z'') = Ret (d2, buf, 3, -1) \<and>
     take 3 buf = ''abc''"
proof -
  obtain d1 a' where 1: "phr_decode_chunked (fresh_decoder False) (''3'' @ [LF] @ ''ab'') = Ret (d1, a', 2, -2)"
    "take 2 a' = ''ab''" "d1 = (fresh_decoder False)\<lparr>bytes_left_in_chunk := 1, chunk_state := CHUNKED_IN_CHUNK_DATA\<rparr>"
  proof -
    have "run_chunked (fresh_decoder False) (''3'' @ [LF] @ ''ab'') =
      ((fresh_decoder False)\<lparr>bytes_left_in_chunk := 1, chunk_state := CHUNKED_IN_CHUNK_DATA\<rparr>, ''ab'', More, [])"
      by code_simp
    from decode_chunked_run [OF _ this] that show ?thesis
      by (auto simp: decoder_ok_def fresh_decoder_def verdict_value_def numeral_2_eq_2)
  qed
  obtain d2 b' where 2: "phr_decode_chunked d1 (''c'' @ [LF] @ ''z'') = Ret (d2, b', 1, -1)" "take 1 b' = ''c''"
  proof -
    have "run_chunked d1 (''c'' @ [LF] @ ''z'') = (fresh_decoder False, ''c'', Malformed, ''z'')"
      unfolding 1(3) by code_simp
    from decode_chunked_run [OF _ this] obtain b' where
      b: "phr_decode_chunked d1 (''c'' @ [LF] @ ''z'') = Ret (fresh_decoder False, b', 1, -1)" "take 2 b' = ''cz''"
      by (auto simp: decoder_ok_def 1(3) verdict_value_def numeral_2_eq_2)
    moreover have "take 1 b' = take 1 (take 2 b')" by simp
    ultimately show ?thesis using that by simp
  qed
  have "decoder_ok (fresh_decoder False)" by (simp add: decoder_ok_def fresh_decoder_def)
  from decode_chunked_pieces [OF this 1(1) 2(1)] 1(2) 2(2) show ?thesis by auto
qed

text \<open>
  C15.  Decoding undoes the encoding: from chunks that are not empty the body comes back, and what follows the
  encoding is left and counted.
\<close>

theorem chunked_round_trip:
  assumes "\<forall>xs \<in> set xss. xs \<noteq> [] \<and> length xs < 2 ^ 64"
  shows "\<exists>d buf. phr_decode_chunked (fresh_decoder True) (encode_chunked xss @ rest) =
      Ret (d, buf, length (concat xss), int (length rest)) \<and>
    take (length (concat xss) + length rest) buf = concat xss @ rest"
proof -
  have "decoder_ok (fresh_decoder True)" by (simp add: decoder_ok_def fresh_decoder_def)
  with run_encoded [OF assms, of rest] decode_chunked_run show ?thesis by (fastforce simp: verdict_value_def)
qed

lemma chunked_round_trip_witness:
  "\<exists>d buf. phr_decode_chunked (fresh_decoder True) (encode_chunked [''hello '', ''world''] @ ''GET'') =
      Ret (d, buf, 11, 3) \<and> take 14 buf = ''hello worldGET''"
proof -
  have "\<forall>xs \<in> set [''hello '', ''world'']. xs \<noteq> [] \<and> length xs < 2 ^ 64" by simp
  from chunked_round_trip [OF this, of "''GET''"] show ?thesis by (simp add: eval_nat_numeral)
qed



end
