(* ===== verification/Listen_Env.thy ===== *)
theory Listen_Env
  imports Http_Response
begin

text \<open>
  \<^verbatim>\<open>create_listen_fds_env\<close> and \<^verbatim>\<open>parse_listen_fds_env\<close> of
  \<^verbatim>\<open>core/yta_process.c\<close>: the listening descriptors handed to the next binary as an environment
  variable.  Both work on heap blocks whose size is modelled, with every write checked.
\<close>

section \<open>Writing the variable\<close>

definition int_at :: "int list \<Rightarrow> nat \<Rightarrow> int outcome" where
  "int_at fds i = (if i < length fds then Ret (fds ! i) else Crash OutOfBounds)"

text \<open>The loop over all but the last descriptor, each followed by a space.\<close>

function put_fds :: "int list \<Rightarrow> nat \<Rightarrow> nat \<Rightarrow> char list \<times> nat \<Rightarrow> (char list \<times> nat) outcome" where
  "put_fds fds worker_count i out =
     (if i + 1 < worker_count then
        obind (int_at fds i) (\<lambda>fd.
        obind (sprintf (int_text fd @ '' '') out) (\<lambda>out.
        put_fds fds worker_count (i + 1) out))
      else Ret out)"
  by pat_completeness auto
termination
  by (relation "measure (\<lambda>(fds, worker_count, i, out). worker_count - i)") auto

declare put_fds.simps [simp del]

text \<open>
  The block of \<^verbatim>\<open>sizeof("listen_fds=") + worker_count * 5 + worker_count - 1\<close> zero bytes
  and what is printed into it; for no worker the last read is in front of the array.
\<close>

definition create_listen_fds_env :: "int list \<Rightarrow> nat \<Rightarrow> char list outcome" where
  "create_listen_fds_env fds worker_count =
     (let buf_size = 12 + worker_count * 5 + worker_count - 1 in
      obind (sprintf ''listen_fds='' (replicate buf_size NUL, 0)) (\<lambda>out.
      obind (put_fds fds worker_count 0 out) (\<lambda>out.
      if worker_count = 0 then Crash OutOfBounds
      else
        obind (int_at fds (worker_count - 1)) (\<lambda>fd.
        obind (sprintf (int_text fd) out) (\<lambda>(buf, _). Ret buf)))))"

section \<open>Reading it\<close>

text \<open>
  The two loops of \<^verbatim>\<open>parse_listen_fds_env\<close> from one entry on: \<open>s\<close> is what \<^verbatim>\<open>iter\<close> and
  \<^verbatim>\<open>cur\<close> point to, up to the terminating zero byte.
\<close>

function parse_fds :: "char list \<Rightarrow> int list \<Rightarrow> nat \<Rightarrow> int list outcome" where
  "parse_fds s listen_fds fd_iter =
     (if s = [] then Ret listen_fds
      else
        (let cur = dropWhile (\<lambda>c. c \<noteq> SP) s in
         obind (atoi s) (\<lambda>fd.
         if fd_iter < length listen_fds then
           (let listen_fds = listen_fds[fd_iter := fd] in
            if cur = [] then Ret listen_fds else parse_fds (tl cur) listen_fds (fd_iter + 1))
         else Crash OutOfBounds)))"
  by pat_completeness auto
termination
proof (relation "measure (\<lambda>(s, listen_fds, fd_iter). length s)")
  fix s cur :: "char list" and y z :: nat and fds fds' :: "int list"
  assume "s \<noteq> []" "cur = dropWhile (\<lambda>c. c \<noteq> SP) s" "cur \<noteq> []"
  then have "length (tl cur) < length s"
    using length_dropWhile_le [of "\<lambda>c. c \<noteq> SP" s] by (cases s) auto
  then show "((tl cur, fds', z), s, fds, y) \<in> measure (\<lambda>(s, listen_fds, fd_iter). length s)" by simp
qed auto

declare parse_fds.simps [simp del]

definition parse_listen_fds_env :: "char list \<Rightarrow> nat \<Rightarrow> int list outcome" where
  "parse_listen_fds_env listen_fds_env fd_count = parse_fds listen_fds_env (replicate fd_count 0) 0"

section \<open>The text\<close>

fun fds_text :: "int list \<Rightarrow> char list" where
  "fds_text [] = []"
| "fds_text [fd] = int_text fd"
| "fds_text (fd # fds) = int_text fd @ SP # fds_text fds"

text \<open>Printing into a block that holds a text already.\<close>

definition holds_text :: "char list \<Rightarrow> char list \<times> nat \<Rightarrow> bool" where
  "holds_text t out \<longleftrightarrow> snd out = length t \<and> length t < length (fst out) \<and> take (length t) (fst out) = t \<and>
     fst out ! length t = NUL"

lemma sprintf_holds:
  assumes "holds_text t out" "length t + length s < length (fst out)"
  shows "\<exists>out'. sprintf s out = Ret out' \<and> holds_text (t @ s) out' \<and> length (fst out') = length (fst out)"
proof -
  obtain a where a: "out = (a, length t)" "take (length t) a = t" "length t + length s < length a"
    using assms by (cases out) (auto simp: holds_text_def)
  define a' where "a' = t @ (s @ [NUL]) @ drop (length t + length s + 1) a"
  have "length a' = length a" using a(3) by (simp add: a'_def)
  moreover have "sprintf s out = Ret (a', length (t @ s))"
    using a by (simp add: sprintf_def copy_out_def a'_def)
  ultimately show ?thesis using a by (auto simp: holds_text_def a'_def nth_append)
qed

lemma sprintf_overflow:
  "holds_text t out \<Longrightarrow> length (fst out) \<le> length t + length s \<Longrightarrow> sprintf s out = Crash OutOfBounds"
  by (cases out) (simp add: sprintf_def copy_out_def holds_text_def)

lemma sprintf_cases:
  assumes "holds_text t out"
  shows "length t + length s < length (fst out) \<and>
      (\<exists>out'. sprintf s out = Ret out' \<and> holds_text (t @ s) out' \<and> length (fst out') = length (fst out)) \<or>
    length (fst out) \<le> length t + length s \<and> sprintf s out = Crash OutOfBounds"
  using sprintf_holds [OF assms] sprintf_overflow [OF assms] by (meson not_le)

text \<open>The loop and the last \<^verbatim>\<open>sprintf\<close> print the text, if the block has room for it.\<close>

definition put_last :: "int list \<Rightarrow> nat \<Rightarrow> char list \<times> nat \<Rightarrow> char list outcome" where
  "put_last fds n out = obind (int_at fds (n - 1)) (\<lambda>fd. obind (sprintf (int_text fd) out) (\<lambda>(buf, _). Ret buf))"

lemma put_all:
  assumes "i < length fds" "holds_text t out"
  shows "length t + length (fds_text (drop i fds)) < length (fst out) \<and>
      (\<exists>a. obind (put_fds fds (length fds) i out) (put_last fds (length fds)) = Ret a \<and>
        holds_text (t @ fds_text (drop i fds)) (a, length t + length (fds_text (drop i fds)))) \<or>
    length (fst out) \<le> length t + length (fds_text (drop i fds)) \<and>
    obind (put_fds fds (length fds) i out) (put_last fds (length fds)) = Crash OutOfBounds"
  using assms
proof (induction "length fds - i" arbitrary: i t out)
  case (Suc n)
  show ?case
  proof (cases "i + 1 < length fds")
    case False
    then have i: "i = length fds - 1" "drop i fds = [fds ! i]"
      using Suc.prems(1) by (auto simp: Cons_nth_drop_Suc [symmetric])
    have "obind (put_fds fds (length fds) i out) (put_last fds (length fds)) =
      obind (sprintf (int_text (fds ! i)) out) (\<lambda>(buf, _). Ret buf)"
      using False Suc.prems(1) i(1) by (subst put_fds.simps) (simp add: put_last_def int_at_def)
    with sprintf_cases [OF Suc.prems(2), of "int_text (fds ! i)"] i(2) show ?thesis
      by (auto simp: holds_text_def)
  next
    case True
    let ?s = "int_text (fds ! i) @ [SP]"
    have d: "fds_text (drop i fds) = ?s @ fds_text (drop (i + 1) fds)"
      using True Suc.prems(1) by (simp add: Cons_nth_drop_Suc [symmetric])
    have run: "put_fds fds (length fds) i out = obind (sprintf ?s out) (put_fds fds (length fds) (i + 1))"
      using True Suc.prems(1) by (subst put_fds.simps) (simp add: int_at_def)
    note c = sprintf_cases [OF Suc.prems(2), of ?s]
    show ?thesis
    proof (cases "length t + length ?s < length (fst out)")
      case room: True
      then obtain out' where o: "sprintf ?s out = Ret out'" "holds_text (t @ ?s) out'"
        "length (fst out') = length (fst out)" using c by auto
      have IH: "length (t @ ?s) + length (fds_text (drop (i + 1) fds)) < length (fst out') \<and>
          (\<exists>a. obind (put_fds fds (length fds) (i + 1) out') (put_last fds (length fds)) = Ret a \<and>
            holds_text ((t @ ?s) @ fds_text (drop (i + 1) fds))
              (a, length (t @ ?s) + length (fds_text (drop (i + 1) fds)))) \<or>
        length (fst out') \<le> length (t @ ?s) + length (fds_text (drop (i + 1) fds)) \<and>
        obind (put_fds fds (length fds) (i + 1) out') (put_last fds (length fds)) = Crash OutOfBounds"
        using Suc.hyps(2) True o(2) by (intro Suc.hyps(1)) auto
      have "obind (put_fds fds (length fds) i out) (put_last fds (length fds)) =
        obind (put_fds fds (length fds) (i + 1) out') (put_last fds (length fds))"
        by (simp only: run o(1) obind.simps)
      then show ?thesis using IH o(3) by (simp only: d length_append append_assoc add.assoc)
    next
      case False
      then have "sprintf ?s out = Crash OutOfBounds" using c by blast
      then have "obind (put_fds fds (length fds) i out) (put_last fds (length fds)) = Crash OutOfBounds"
        by (simp only: run obind.simps)
      moreover have "length (fst out) \<le> length t + length (fds_text (drop i fds))"
        using False by (simp only: d length_append)
      ultimately show ?thesis by blast
    qed
  qed
qed simp

lemma create_listen_fds_env_cases:
  assumes "fds \<noteq> []"
  shows "length (fds_text fds) < 6 * length fds \<and>
      (\<exists>a. create_listen_fds_env fds (length fds) = Ret a \<and>
        takeWhile (\<lambda>c. c \<noteq> NUL) a = takeWhile (\<lambda>c. c \<noteq> NUL) (''listen_fds='' @ fds_text fds @ [NUL])) \<or>
    6 * length fds \<le> length (fds_text fds) \<and> create_listen_fds_env fds (length fds) = Crash OutOfBounds"
proof -
  define out0 where "out0 = (replicate (6 * length fds + 11) NUL, 0 :: nat)"
  have h0: "holds_text [] out0" by (simp add: out0_def holds_text_def)
  have "length ''listen_fds='' < length (fst out0)" using assms by (cases fds) (simp_all add: out0_def)
  then obtain out where out: "sprintf ''listen_fds='' out0 = Ret out" "holds_text ''listen_fds='' out"
    "length (fst out) = 6 * length fds + 11"
    using sprintf_holds [OF h0, of "''listen_fds=''"] by (auto simp: out0_def)
  have run: "create_listen_fds_env fds (length fds) = obind (put_fds fds (length fds) 0 out) (put_last fds (length fds))"
    using assms out(1) by (simp add: create_listen_fds_env_def out0_def put_last_def [abs_def] mult.commute
      add.commute)
  have tw: "takeWhile (\<lambda>c. c \<noteq> NUL) a = takeWhile (\<lambda>c. c \<noteq> NUL) (t @ [NUL])" if "holds_text t (a, n)" for a t n
  proof -
    have "length t < length a" "take (length t) a = t" "a ! length t = NUL" using that by (auto simp: holds_text_def)
    then have "a = (t @ [NUL]) @ drop (Suc (length t)) a"
      by (metis append_take_drop_id take_Suc_conv_app_nth)
    moreover have "takeWhile (\<lambda>c. c \<noteq> NUL) ((t @ [NUL]) @ r) = takeWhile (\<lambda>c. c \<noteq> NUL) (t @ [NUL])" for r
      by (rule takeWhile_append1 [of NUL]) simp_all
    ultimately show ?thesis by metis
  qed
  obtain pre where pre: "pre = ''listen_fds=''" "length pre = 11" by simp
  have "0 < length fds" using assms by simp
  from put_all [OF this out(2) [folded pre(1)]] show ?thesis
  proof (elim disjE conjE exE)
    fix a
    assume "length pre + length (fds_text (drop 0 fds)) < length (fst out)"
      and a: "obind (put_fds fds (length fds) 0 out) (put_last fds (length fds)) = Ret a"
        "holds_text (pre @ fds_text (drop 0 fds)) (a, length pre + length (fds_text (drop 0 fds)))"
    then have "length (fds_text fds) < 6 * length fds" using out(3) pre(2) by simp
    moreover note tw [OF a(2)]
    ultimately show ?thesis unfolding run pre(1) [symmetric] using a(1) by simp
  next
    assume "length (fst out) \<le> length pre + length (fds_text (drop 0 fds))"
      and "obind (put_fds fds (length fds) 0 out) (put_last fds (length fds)) = Crash OutOfBounds"
    then show ?thesis unfolding run using out(3) pre(2) by simp
  qed
qed

section \<open>Reading the text back\<close>

lemma int_text_nat: "0 \<le> fd \<Longrightarrow> int_text fd = dec (nat fd)"
  by (simp add: int_text_def)

lemma fds_text_not_Nil: "fds \<noteq> [] \<Longrightarrow> fds_text fds \<noteq> []"
  by (cases fds rule: fds_text.cases) (auto simp: int_text_def dec_not_Nil)

lemma atoi_dec: "int n \<le> 2147483647 \<Longrightarrow> rest = [] \<or> \<not> ascii_digit (List.hd rest) \<Longrightarrow> atoi (dec n @ rest) = Ret (int n)"
  by (simp add: atoi_def scan_dec fits_int_def)

lemma dec_no_blank: "SP \<notin> set (dec n)" "NUL \<notin> set (dec n)"
  using dec_digits [of n] ascii_digit_not_space ascii_digit_no_sign by blast+

lemma parse_fds_step:
  assumes "0 \<le> fd" "fd \<le> 2147483647" "i < length a"
  shows "parse_fds (int_text fd) a i = Ret (a[i := fd])"
    "parse_fds (int_text fd @ SP # s) a i = parse_fds s (a[i := fd]) (i + 1)"
proof -
  have t: "int_text fd = dec (nat fd)" using assms by (simp add: int_text_nat)
  have dw: "dropWhile (\<lambda>c. c \<noteq> SP) (dec n @ r) = dropWhile (\<lambda>c. c \<noteq> SP) r" for n r
    using dec_no_blank(1) [of n] by (subst dropWhile_append2) auto
  have at1: "atoi (dec (nat fd)) = Ret fd" using assms atoi_dec [of "nat fd" "[]"] by simp
  have "\<not> ascii_digit SP" by (simp add: ascii_digit_def uchar_def)
  then have at2: "atoi (dec (nat fd) @ SP # s) = Ret fd" using assms atoi_dec [of "nat fd" "SP # s"] by simp
  have d1: "dropWhile (\<lambda>c. c \<noteq> SP) (dec (nat fd)) = []" using dw [of "nat fd" "[]"] by simp
  have d2: "dropWhile (\<lambda>c. c \<noteq> SP) (dec (nat fd) @ SP # s) = SP # s" using dw [of "nat fd" "SP # s"] by simp
  show "parse_fds (int_text fd) a i = Ret (a[i := fd])"
    unfolding t parse_fds.simps [of "dec (nat fd)"] d1 at1 Let_def using assms(3) dec_not_Nil by simp
  show "parse_fds (int_text fd @ SP # s) a i = parse_fds s (a[i := fd]) (i + 1)"
    unfolding t parse_fds.simps [of "dec (nat fd) @ SP # s"] d2 at2 Let_def using assms(3) by simp
qed

text \<open>The entries go into the block one after the other; it must have a place for each.\<close>

lemma parse_fds_text:
  assumes "\<forall>fd \<in> set fds. 0 \<le> fd \<and> fd \<le> 2147483647" "fds \<noteq> []"
  shows "parse_fds (fds_text fds) a i =
    (if i + length fds \<le> length a then Ret (take i a @ fds @ drop (i + length fds) a) else Crash OutOfBounds)"
  using assms
proof (induction fds arbitrary: a i rule: fds_text.induct)
  case (2 fd)
  have "atoi (int_text fd) = Ret fd"
    using 2 atoi_dec [of "nat fd" "[]"] by (simp add: int_text_nat)
  then have "length a \<le> i \<Longrightarrow> parse_fds (int_text fd) a i = Crash OutOfBounds"
    using fds_text_not_Nil [of "[fd]"] by (subst parse_fds.simps) (simp add: Let_def)
  with parse_fds_step(1) [of fd i a] 2 show ?case
    by (cases "i < length a") (simp_all add: upd_conv_take_nth_drop)
next
  case (3 fd fd' fds)
  let ?s = "fds_text (fd' # fds)"
  have "\<not> ascii_digit SP" by (simp add: ascii_digit_def uchar_def)
  then have "atoi (int_text fd @ SP # ?s) = Ret fd"
    using 3 atoi_dec [of "nat fd" "SP # ?s"] by (simp add: int_text_nat)
  then have "length a \<le> i \<Longrightarrow> parse_fds (int_text fd @ SP # ?s) a i = Crash OutOfBounds"
    by (subst parse_fds.simps) (simp add: Let_def)
  with parse_fds_step(2) [of fd i a ?s] 3 show ?case
    by (cases "i < length a") (auto simp: take_update_cancel take_Suc_conv_app_nth upd_conv_take_nth_drop add.commute)
qed simp

lemma fds_text_no_NUL: "\<forall>fd \<in> set fds. 0 \<le> fd \<Longrightarrow> \<forall>c \<in> set (fds_text fds). c \<noteq> NUL"
  by (induction fds rule: fds_text.induct) (auto simp: int_text_nat dest: dec_no_blank(2) [THEN notE])

lemma length_fds_text:
  "fds \<noteq> [] \<Longrightarrow> length (fds_text fds) + 1 = length fds + (\<Sum>fd\<leftarrow>fds. length (int_text fd))"
  by (induction fds rule: fds_text.induct) auto

text \<open>Five digits per descriptor fit.\<close>

lemma create_listen_fds_env_fits:
  assumes "fds \<noteq> []" "\<forall>fd \<in> set fds. 0 \<le> fd \<and> fd < 100000"
  shows "\<exists>a. create_listen_fds_env fds (length fds) = Ret a \<and>
    takeWhile (\<lambda>c. c \<noteq> NUL) a = ''listen_fds='' @ fds_text fds"
proof -
  have "length (int_text fd) \<le> 5" if "fd \<in> set fds" for fd
    using that assms(2) length_dec [of "nat fd" 5] by (auto simp: int_text_nat)
  then have "(\<Sum>fd\<leftarrow>fds. length (int_text fd)) \<le> (\<Sum>fd\<leftarrow>fds. 5)"
    by (intro sum_list_mono)
  then have "length (fds_text fds) < 6 * length fds"
    using length_fds_text [OF assms(1)] by (simp add: sum_list_triv)
  with create_listen_fds_env_cases [OF assms(1)] obtain a where
    a: "create_listen_fds_env fds (length fds) = Ret a"
      "takeWhile (\<lambda>c. c \<noteq> NUL) a = takeWhile (\<lambda>c. c \<noteq> NUL) (''listen_fds='' @ fds_text fds @ [NUL])" by auto
  have "takeWhile (\<lambda>c. c \<noteq> NUL) (''listen_fds='' @ fds_text fds @ [NUL]) = ''listen_fds='' @ fds_text fds"
    using fds_text_no_NUL [of fds] assms(2) by (simp add: takeWhile_append)
  with a show ?thesis by auto
qed

lemma parse_listen_fds_env_text:
  assumes "fds \<noteq> []" "\<forall>fd \<in> set fds. 0 \<le> fd \<and> fd \<le> 2147483647"
  shows "parse_listen_fds_env (fds_text fds) (length fds) = Ret fds"
  using parse_fds_text [OF assms(2,1), of "replicate (length fds) 0" 0] by (simp add: parse_listen_fds_env_def)

section \<open>Properties\<close>

text \<open>
  C10.  What a process hands to its successor arrives: for descriptors of at most five digits
  \<^verbatim>\<open>create_listen_fds_env\<close> stays inside its block, and \<^verbatim>\<open>parse_listen_fds_env\<close>, given the value
  of the variable (behind the eleven characters of its name), returns the same descriptors.
\<close>

theorem listen_fds_round_trip:
  assumes "fds \<noteq> []" "\<forall>fd \<in> set fds. 0 \<le> fd \<and> fd < 100000"
  shows "\<exists>a. create_listen_fds_env fds (length fds) = Ret a \<and>
    parse_listen_fds_env (drop 11 (takeWhile (\<lambda>c. c \<noteq> NUL) a)) (length fds) = Ret fds"
proof -
  have "\<forall>fd \<in> set fds. 0 \<le> fd \<and> fd \<le> 2147483647" using assms(2) by auto
  from parse_listen_fds_env_text [OF assms(1) this] create_listen_fds_env_fits [OF assms] show ?thesis by auto
qed

lemma listen_fds_round_trip_witness:
  "\<exists>a. create_listen_fds_env [3, 99999] 2 = Ret a \<and>
    parse_listen_fds_env (drop 11 (takeWhile (\<lambda>c. c \<noteq> NUL) a)) 2 = Ret [3, 99999]"
  using listen_fds_round_trip [of "[3, 99999]"] by (simp add: numeral_2_eq_2)

text \<open>
  C33.  The block of \<^verbatim>\<open>create_listen_fds_env\<close> has room for five digits per descriptor and no more:
  it is overrun exactly when the descriptors together have more digits than that.
\<close>

theorem listen_fds_overflow:
  assumes "fds \<noteq> []"
  shows "create_listen_fds_env fds (length fds) = Crash OutOfBounds \<longleftrightarrow>
    5 * length fds < (\<Sum>fd\<leftarrow>fds. length (int_text fd))"
proof -
  have "6 * length fds \<le> length (fds_text fds) \<longleftrightarrow> 5 * length fds < (\<Sum>fd\<leftarrow>fds. length (int_text fd))"
    using length_fds_text [OF assms] by linarith
  with create_listen_fds_env_cases [OF assms] show ?thesis
    by (metis linorder_not_le outcome.distinct(3))
qed

lemma listen_fds_overflow_witness: "create_listen_fds_env [100000] 1 = Crash OutOfBounds"
proof -
  have "length (int_text 100000) = 6" by (simp add: int_text_def dec.simps)
  then show ?thesis using listen_fds_overflow [of "[100000]"] by simp
qed

text \<open>
  C34.  \<^verbatim>\<open>parse_listen_fds_env\<close> does not look at its \<^verbatim>\<open>fd_count\<close>: a variable with more entries than
  workers is written behind the end of the block, and with fewer the remaining workers get descriptor 0.
\<close>

theorem parse_listen_fds_count:
  assumes "fds \<noteq> []" "\<forall>fd \<in> set fds. 0 \<le> fd \<and> fd \<le> 2147483647"
  shows "parse_listen_fds_env (fds_text fds) n =
    (if n < length fds then Crash OutOfBounds else Ret (fds @ replicate (n - length fds) 0))"
  using parse_fds_text [OF assms(2,1), of "replicate n 0" 0] by (simp add: parse_listen_fds_env_def)

lemma parse_listen_fds_count_witness:
  "parse_listen_fds_env ''3 4'' 1 = Crash OutOfBounds \<and> parse_listen_fds_env ''3 4'' 3 = Ret [3, 4, 0]"
proof -
  have t: "fds_text [3, 4] = ''3 4''" by code_simp
  show ?thesis
    using parse_listen_fds_count [of "[3, 4]" 1, unfolded t] parse_listen_fds_count [of "[3, 4]" 3, unfolded t]
    by (simp add: numeral_3_eq_3)
qed

text \<open>The cases of \<^verbatim>\<open>core_test.cpp\<close>.\<close>

lemma listen_fds_unit_test:
  "list_all (\<lambda>fds. case create_listen_fds_env fds (length fds) of
       Ret a \<Rightarrow> takeWhile (\<lambda>c. c \<noteq> NUL) a = ''listen_fds='' @ fds_text fds \<and>
         parse_listen_fds_env (fds_text fds) (length fds) = Ret fds
     | _ \<Rightarrow> False) [[1], [100], [1, 2, 3, 4], [100, 200, 300, 400]]"
  "map fds_text [[1], [100], [1, 2, 3, 4], [100, 200, 300, 400]] = [''1'', ''100'', ''1 2 3 4'', ''100 200 300 400'']"
  by code_simp+

end
