(* ===== verification/Worker_Pool.thy ===== *)
theory Worker_Pool
  imports Listen_Env
begin

text \<open>
  \<^verbatim>\<open>core/yta_process.c\<close>: the master process, which starts the workers, restarts those that
  die, and shuts down or starts an upgraded binary on signals.  Its global variables are a record; what
  \<^verbatim>\<open>fork\<close> returns, and whether the other calls succeed, are answers taken from lists; what the
  process does to others is recorded in order.  A function that does not return still leaves its state,
  so the computations are \<open>stateful\<close>.
\<close>

section \<open>State\<close>

datatype signal = SIGINT | SIGTERM | SIGQUIT | SIGUSR1 | SIGPIPE

datatype handler = SIG_DFL | SIG_IGN | Signal_handler | Upgrade_handler

datatype act =
    Handler_set signal handler
  | Mask_cleared
  | Wrote_pidfile "char list" "char list"
  | Forked int                       \<comment> \<open>a worker was started\<close>
  | Reaped int                       \<comment> \<open>what \<^verbatim>\<open>waitpid\<close> returned in the respawn loop\<close>
  | Killed int signal
  | Waited int
  | Removed "char list option"
  | Renamed "char list" "char list"
  | Forked_upgrade int
  | Executed "char list list" "char list list"   \<comment> \<open>arguments, environment\<close>
  | New_session
  | Group_set int
  | User_set int

record master =
  worker_pids :: "int list option"
  worker_count :: nat
  pidfile_to_delete :: "char list option"
  stored_argv :: "char list list"
  stored_listen_fds :: "int list"
  upgraded :: bool
  own_pid :: int
  forks :: "int list"
  results :: "bool list"
  acts :: "act list"

definition act :: "act \<Rightarrow> (master, unit) stateful" where
  "act e = smodify (\<lambda>m. m\<lparr>acts := acts m @ [e]\<rparr>)"

definition sys_result :: "(master, bool) stateful" where
  "sys_result = (\<lambda>m. case results m of [] \<Rightarrow> (m, Ret True) | b # bs \<Rightarrow> (m\<lparr>results := bs\<rparr>, Ret b))"

definition sys_fork :: "(master, int) stateful" where
  "sys_fork = (\<lambda>m. case forks m of [] \<Rightarrow> (m, Ret (- 1)) | p # ps \<Rightarrow> (m\<lparr>forks := ps\<rparr>, Ret p))"

definition exit_with :: "int \<Rightarrow> (master, 'a) stateful" where
  "exit_with n = slift (Crash (ProcessExit n))"

definition or_die :: "(master, unit) stateful" where
  "or_die = sbind sys_result (\<lambda>ok. if ok then sreturn () else exit_with 1)"

section \<open>Signals\<close>

definition forward_signal_to_workers :: "signal \<Rightarrow> (master, unit) stateful" where
  "forward_signal_to_workers signo =
     sbind (sget worker_pids) (\<lambda>pids.
     case pids of
       None \<Rightarrow> sreturn ()
     | Some pids \<Rightarrow>
         sbind (sget worker_count) (\<lambda>n.
         each (\<lambda>i. sbind (slift (int_at pids i)) (\<lambda>pid. act (Killed pid signo))) [0..<n]))"

text \<open>The blocks it frees are not modelled: the process is about to end.\<close>

definition exit_and_cleanup_main :: "signal \<Rightarrow> (master, unit) stateful" where
  "exit_and_cleanup_main signo =
     sbind (sget pidfile_to_delete) (\<lambda>path.
     sbind (act (Removed path)) (\<lambda>_.
     if signo = SIGQUIT then exit_with 0 else exit_with 1))"

definition signal_handler :: "signal \<Rightarrow> (master, unit) stateful" where
  "signal_handler signo =
     sbind (forward_signal_to_workers signo) (\<lambda>_.
     sbind (sget worker_count) (\<lambda>n.
     sbind (sget worker_pids) (\<lambda>pids.
     sbind (each (\<lambda>i. case pids of
              None \<Rightarrow> slift (Crash NullPointer)
            | Some pids \<Rightarrow> sbind (slift (int_at pids i)) (\<lambda>pid. act (Waited pid))) [0..<n]) (\<lambda>_.
     exit_and_cleanup_main signo))))"

text \<open>
  \<^verbatim>\<open>upgrade_handler\<close>.  The new name gets the length of the old one plus
  \<^verbatim>\<open>sizeof(old_pid) - 1\<close> bytes, where \<^verbatim>\<open>old_pid\<close> is a pointer, of 8 bytes.
\<close>

definition upgrade_handler :: "signal \<Rightarrow> (master, unit) stateful" where
  "upgrade_handler signo =
     sbind (sget pidfile_to_delete) (\<lambda>path.
     case path of
       None \<Rightarrow> slift (Crash NullPointer)
     | Some path \<Rightarrow>
         sbind sys_result (\<lambda>allocated.
         if \<not> allocated then sreturn ()
         else
           sbind (slift (sprintf (path @ ''.old'') (replicate (length path + 8 - 1) NUL, 0))) (\<lambda>(new_name, n).
           sbind sys_result (\<lambda>renamed.
           if \<not> renamed then sreturn ()
           else
             let new_name = take n new_name in
             sbind (act (Renamed path new_name)) (\<lambda>_.
             sbind (smodify (\<lambda>m. m\<lparr>pidfile_to_delete := Some new_name\<rparr>)) (\<lambda>_.
             sbind (sget stored_listen_fds) (\<lambda>fds.
             sbind (sget worker_count) (\<lambda>n.
             sbind (slift (create_listen_fds_env fds n)) (\<lambda>env.
             sbind (smodify (\<lambda>m. m\<lparr>upgraded := True\<rparr>)) (\<lambda>_.
             sbind sys_fork (\<lambda>pid.
             if pid = -1 then sreturn ()
             else if pid = 0 then
               sbind (sget stored_argv) (\<lambda>argv.
               sbind (act (Executed argv [takeWhile (\<lambda>c. c \<noteq> NUL) env])) (\<lambda>_.
               sbind sys_result (\<lambda>executed.
               if executed then slift (Crash ProcessReplaced) else exit_with 1)))
             else act (Forked_upgrade pid))))))))))))"

definition run_handler :: "handler \<Rightarrow> signal \<Rightarrow> (master, unit) stateful" where
  "run_handler h signo =
     (case h of
        SIG_DFL \<Rightarrow> exit_with (- 1)
      | SIG_IGN \<Rightarrow> sreturn ()
      | Signal_handler \<Rightarrow> signal_handler signo
      | Upgrade_handler \<Rightarrow> upgrade_handler signo)"

definition set_handlers :: "(signal \<times> handler) list \<Rightarrow> (master, unit) stateful" where
  "set_handlers hs = each (\<lambda>(s, h). act (Handler_set s h)) hs"

definition master_handlers :: "(signal \<times> handler) list" where
  "master_handlers =
     [(SIGPIPE, SIG_IGN), (SIGTERM, Signal_handler), (SIGINT, Signal_handler), (SIGQUIT, Signal_handler),
      (SIGUSR1, Upgrade_handler)]"

definition worker_handlers :: "(signal \<times> handler) list" where
  "worker_handlers =
     [(SIGTERM, SIG_DFL), (SIGQUIT, SIG_DFL), (SIGINT, SIG_DFL), (SIGUSR1, Upgrade_handler)]"

definition setup_master_signal_handlers :: "(master, unit) stateful" where
  "setup_master_signal_handlers = set_handlers master_handlers"

definition setup_worker_signal_handlers :: "(master, unit) stateful" where
  "setup_worker_signal_handlers = set_handlers worker_handlers"

definition clear_sigmask :: "(master, unit) stateful" where
  "clear_sigmask = sbind or_die (\<lambda>_. sbind or_die (\<lambda>_. act Mask_cleared))"

section \<open>The workers\<close>

definition write_pidfile :: "char list \<Rightarrow> (master, unit) stateful" where
  "write_pidfile path =
     sbind or_die (\<lambda>_.
     sbind (sget own_pid) (\<lambda>pid.
     sbind (slift (sprintf (int_text pid) (replicate 10 NUL, 0))) (\<lambda>(pid_buf, n).
     sbind or_die (\<lambda>_.
     sbind (act (Wrote_pidfile path (take n pid_buf))) (\<lambda>_.
     smodify (\<lambda>m. m\<lparr>pidfile_to_delete := Some path\<rparr>))))))"

definition store_pid :: "nat \<Rightarrow> int \<Rightarrow> (master, unit) stateful" where
  "store_pid i pid =
     sbind (sget worker_pids) (\<lambda>pids.
     case pids of
       None \<Rightarrow> slift (Crash NullPointer)
     | Some pids \<Rightarrow>
         if i < length pids then smodify (\<lambda>m. m\<lparr>worker_pids := Some (pids[i := pid])\<rparr>)
         else slift (Crash OutOfBounds))"

text \<open>
  One \<^verbatim>\<open>fork\<close> of worker \<open>i\<close>, as in both loops of \<^verbatim>\<open>yta_fork_workers\<close>: the result is
  \<^verbatim>\<open>worker_pid\<close>, which is 0 in the child.
\<close>

definition start_worker :: "nat \<Rightarrow> (master, int) stateful" where
  "start_worker i =
     sbind sys_fork (\<lambda>worker_pid.
     if worker_pid = -1 then exit_with 1
     else if worker_pid = 0 then sbind setup_worker_signal_handlers (\<lambda>_. sreturn 0)
     else
       sbind (act (Forked worker_pid)) (\<lambda>_.
       sbind (store_pid i worker_pid) (\<lambda>_. sreturn worker_pid)))"

text \<open>The initial loop, with \<^verbatim>\<open>worker_pid\<close> and \<^verbatim>\<open>worker_id\<close>.\<close>

function spawn_workers :: "nat \<Rightarrow> nat \<Rightarrow> int \<times> int \<Rightarrow> (master, int \<times> int) stateful" where
  "spawn_workers i workers r =
     (if i < workers then
        sbind (start_worker i) (\<lambda>worker_pid.
        if worker_pid = 0 then sreturn (0, int i)
        else spawn_workers (i + 1) workers (worker_pid, snd r))
      else sreturn r)"
  by pat_completeness auto
termination
  by (relation "measure (\<lambda>(i, workers, r). workers - i)") auto

declare spawn_workers.simps [simp del]

text \<open>The inner loop of the respawner: the entry of the dead process is started again.\<close>

function restart_worker :: "nat \<Rightarrow> nat \<Rightarrow> int \<Rightarrow> int \<times> int \<Rightarrow> (master, int \<times> int) stateful" where
  "restart_worker i workers pid r =
     (if i < workers then
        sbind (sget worker_pids) (\<lambda>pids.
        case pids of
          None \<Rightarrow> slift (Crash NullPointer)
        | Some pids \<Rightarrow>
            sbind (slift (int_at pids i)) (\<lambda>p.
            sbind (sget upgraded) (\<lambda>up.
            if pid = p \<and> \<not> up then
              sbind (start_worker i) (\<lambda>worker_pid.
              sreturn (worker_pid, if worker_pid = 0 then int i else snd r))
            else restart_worker (i + 1) workers pid r)))
      else sreturn r)"
  by pat_completeness auto
termination
  by (relation "measure (\<lambda>(i, workers, pid, r). workers - i)") auto

declare restart_worker.simps [simp del]

text \<open>
  What ends a wait of the master: \<^verbatim>\<open>waitpid\<close> returns (a process that died, or \<open>-1\<close>), or a signal
  is caught, after whose handler the wait goes on.
\<close>

datatype wait_event = Died int | Caught signal

text \<open>
  The respawn loop on the events it gets: \<open>None\<close> when the master waits for more,
  \<open>Some worker_id\<close> in a worker.
\<close>

fun respawn_loop :: "nat \<Rightarrow> wait_event list \<Rightarrow> int \<times> int \<Rightarrow> (master, int option) stateful" where
  "respawn_loop workers ws r =
     (if fst r = 0 then sreturn (Some (snd r))
      else (case ws of
              [] \<Rightarrow> sreturn None
            | Died pid # ws \<Rightarrow>
                sbind (act (Reaped pid)) (\<lambda>_.
                sbind (restart_worker 0 workers pid r) (respawn_loop workers ws))
            | Caught signo # ws \<Rightarrow>
                sbind (case map_of master_handlers signo of None \<Rightarrow> sreturn () | Some h \<Rightarrow> run_handler h signo)
                  (\<lambda>_. respawn_loop workers ws r)))"

declare respawn_loop.simps [simp del]

text \<open>The beginning of \<^verbatim>\<open>yta_fork_workers\<close>, up to the assignment of \<^verbatim>\<open>worker_count\<close>.\<close>

definition prepare_workers :: "int \<Rightarrow> char list \<Rightarrow> (master, unit) stateful" where
  "prepare_workers workers pidfile_path =
     sbind clear_sigmask (\<lambda>_.
     sbind setup_master_signal_handlers (\<lambda>_.
     sbind (write_pidfile pidfile_path) (\<lambda>_.
     smodify (\<lambda>m. m\<lparr>worker_count := nat workers\<rparr>))))"

text \<open>A negative number of workers makes \<^verbatim>\<open>calloc\<close> fail.\<close>

definition yta_fork_workers :: "int \<Rightarrow> char list \<Rightarrow> char list list \<Rightarrow> int list \<Rightarrow> wait_event list \<Rightarrow>
    (master, int option) stateful" where
  "yta_fork_workers workers pidfile_path argv listen_fds ws =
     sbind (prepare_workers workers pidfile_path) (\<lambda>_.
     sbind sys_result (\<lambda>allocated.
     sbind (smodify (\<lambda>m. m\<lparr>stored_argv := argv, stored_listen_fds := listen_fds\<rparr>)) (\<lambda>_.
     if \<not> allocated \<or> workers < 0 then exit_with 1
     else
       sbind (smodify (\<lambda>m. m\<lparr>worker_pids := Some (replicate (nat workers) 0)\<rparr>)) (\<lambda>_.
       sbind (spawn_workers 0 (nat workers) (0, - 1)) (respawn_loop (nat workers) ws)))))"

end
