(* ===== verification/Worker_Safety.thy ===== *)
theory Worker_Safety
  imports Worker_Pool
begin

text \<open>
  What the master process guarantees: the pool of workers is full as long as no upgrade has begun,
  shutdown reaches every worker, an upgraded binary gets the listening descriptors; and the situations in
  which the code falls short of that.
\<close>

section \<open>Running the pieces\<close>

lemma act_run [simp]: "act e m = (m\<lparr>acts := acts m @ [e]\<rparr>, Ret ())"
  by (simp add: act_def)

lemma exit_with_run [simp]: "exit_with n m = (m, Crash (ProcessExit n))"
  by (simp add: exit_with_def)

lemma sbind_act [simp]: "sbind (act e) f m = f () (m\<lparr>acts := acts m @ [e]\<rparr>)"
  by (simp add: sbind_run)

lemma sbind_exit [simp]: "sbind (exit_with n) f m = (m, Crash (ProcessExit n))"
  by (simp add: sbind_run)

lemma sys_fork_run: "sys_fork m = (case forks m of [] \<Rightarrow> (m, Ret (- 1)) | p # ps \<Rightarrow> (m\<lparr>forks := ps\<rparr>, Ret p))"
  by (simp add: sys_fork_def)

lemma set_handlers_run: "set_handlers hs m = (m\<lparr>acts := acts m @ map (\<lambda>(s, h). Handler_set s h) hs\<rparr>, Ret ())"
proof (induction hs arbitrary: m)
  case (Cons h hs)
  then show ?case by (cases h) (simp add: set_handlers_def)
qed (simp add: set_handlers_def)

lemma setup_worker_run:
  "setup_worker_signal_handlers m = (m\<lparr>acts := acts m @ map (\<lambda>(s, h). Handler_set s h) worker_handlers\<rparr>, Ret ())"
  by (simp add: setup_worker_signal_handlers_def set_handlers_run)

text \<open>An action for each of the first entries of the table.\<close>

lemma each_pid_run:
  assumes "j \<le> n" "n \<le> length ps"
  shows "each (\<lambda>i. sbind (slift (int_at ps i)) (\<lambda>pid. act (e pid))) [j..<n] m =
    (m\<lparr>acts := acts m @ map e (take (n - j) (drop j ps))\<rparr>, Ret ())"
  using assms
proof (induction "n - j" arbitrary: j m)
  case (Suc d)
  then have j: "j < n" by simp
  have "take (n - j) (drop j ps) = ps ! j # take (n - Suc j) (drop (Suc j) ps)"
    using j Suc.prems(2) by (simp add: Cons_nth_drop_Suc [symmetric] Suc_diff_Suc [symmetric])
  with Suc.hyps(1) [of "Suc j" "m\<lparr>acts := acts m @ [e (ps ! j)]\<rparr>"] Suc.hyps(2) j Suc.prems(2) show ?case
    by (simp add: upt_conv_Cons sbind_assoc int_at_def)
qed simp

section \<open>The live workers\<close>

text \<open>The workers that were started and have not been reaped, from the record of actions.\<close>

fun alive_step :: "int set \<Rightarrow> act \<Rightarrow> int set" where
  "alive_step S (Forked p) = insert p S"
| "alive_step S (Reaped p) = S - {p}"
| "alive_step S _ = S"

definition alive :: "act list \<Rightarrow> int set" where
  "alive es = foldl alive_step {} es"

lemma alive_append [simp]:
  "alive [] = {}" "alive (es @ es') = foldl alive_step (alive es) es'"
  by (simp_all add: alive_def)

lemma alive_same: "\<forall>e \<in> set es'. \<forall>S. alive_step S e = S \<Longrightarrow> alive (es @ es') = alive es"
  by (induction es' rule: rev_induct) simp_all

text \<open>
  What \<^verbatim>\<open>fork\<close> will answer: \<open>-1\<close>, 0 in a child, or the number of a process that is new.
\<close>

definition fresh_forks :: "master \<Rightarrow> bool" where
  "fresh_forks m \<longleftrightarrow> distinct (filter ((<) 0) (forks m)) \<and>
     (\<forall>p \<in> set (forks m). -1 \<le> p \<and> (0 < p \<longrightarrow> p \<notin> alive (acts m)))"

text \<open>The table holds exactly the live workers, each once, if no upgrade has begun.\<close>

definition pool_ok :: "master \<Rightarrow> bool" where
  "pool_ok m \<longleftrightarrow>
     (\<exists>ps. worker_pids m = Some ps \<and> length ps = worker_count m \<and>
       (\<not> upgraded m \<longrightarrow> distinct ps \<and> (\<forall>p \<in> set ps. 0 < p) \<and> set ps = alive (acts m) \<and> fresh_forks m))"

section \<open>Starting a worker\<close>

lemma start_worker_run:
  assumes "worker_pids m = Some ps" "i < length ps"
  shows "start_worker i m =
    (case forks m of
       [] \<Rightarrow> (m, Crash (ProcessExit 1))
     | p # fs \<Rightarrow>
         if p = -1 then (m\<lparr>forks := fs\<rparr>, Crash (ProcessExit 1))
         else if p = 0 then
           (m\<lparr>forks := fs, acts := acts m @ map (\<lambda>(s, h). Handler_set s h) worker_handlers\<rparr>, Ret 0)
         else (m\<lparr>forks := fs, acts := acts m @ [Forked p], worker_pids := Some (ps[i := p])\<rparr>, Ret p))"
proof (cases "forks m")
  case (Cons p fs)
  have "store_pid i p (m\<lparr>forks := fs, acts := acts m @ [Forked p]\<rparr>) =
    (m\<lparr>forks := fs, acts := acts m @ [Forked p], worker_pids := Some (ps[i := p])\<rparr>, Ret ())"
    using assms by (simp add: store_pid_def)
  with Cons show ?thesis
    by (simp add: start_worker_def sbind_run [of sys_fork] sys_fork_run
        sbind_run [of setup_worker_signal_handlers] setup_worker_run sbind_run [of "store_pid i p"])
qed (simp add: start_worker_def sbind_run [of sys_fork] sys_fork_run)

lemma fresh_fork:
  assumes "fresh_forks m" "forks m = p # fs" "0 < p" "acts m' = acts m @ [Forked p]" "forks m' = fs"
  shows "fresh_forks m'"
  using assms by (auto simp: fresh_forks_def)

lemma fresh_reap:
  "fresh_forks m \<Longrightarrow> fresh_forks (m\<lparr>acts := acts m @ [Reaped pid]\<rparr>)"
  by (auto simp: fresh_forks_def)

text \<open>The search in the table.\<close>

lemma restart_worker_upgraded:
  "upgraded m \<Longrightarrow> worker_pids m = Some ps \<Longrightarrow> n \<le> length ps \<Longrightarrow> restart_worker i n pid r m = (m, Ret r)"
proof (induction i n pid r rule: restart_worker.induct)
  case (1 i n pid r)
  have "i < n \<Longrightarrow> restart_worker (i + 1) n pid r m = (m, Ret r)"
    using 1 by (intro "1.IH") auto
  with 1 show ?case by (subst restart_worker.simps) (simp add: int_at_def)
qed

lemma restart_worker_unknown:
  assumes "worker_pids m = Some ps" "n \<le> length ps" "\<And>j. i \<le> j \<Longrightarrow> j < n \<Longrightarrow> ps ! j \<noteq> pid"
  shows "restart_worker i n pid r m = (m, Ret r)"
  using assms
proof (induction i n pid r rule: restart_worker.induct)
  case (1 i n pid r)
  have "i < n \<Longrightarrow> restart_worker (i + 1) n pid r m = (m, Ret r)"
    using 1 by (intro "1.IH") auto
  moreover have "i < n \<Longrightarrow> ps ! i \<noteq> pid" using "1.prems"(3) [of i] by simp
  ultimately show ?case using 1 by (subst restart_worker.simps) (auto simp: int_at_def)
qed

lemma restart_worker_found:
  assumes "\<not> upgraded m" "worker_pids m = Some ps" "n \<le> length ps" "i \<le> j" "j < n" "ps ! j = pid"
    "\<And>k. i \<le> k \<Longrightarrow> k < j \<Longrightarrow> ps ! k \<noteq> pid"
  shows "restart_worker i n pid r m =
    sbind (start_worker j) (\<lambda>worker_pid. sreturn (worker_pid, if worker_pid = 0 then int j else snd r)) m"
  using assms
proof (induction i n pid r rule: restart_worker.induct)
  case (1 i n pid r)
  show ?case
  proof (cases "i = j")
    case True
    with 1 show ?thesis by (subst restart_worker.simps) (auto simp: int_at_def)
  next
    case False
    then have ne: "ps ! i \<noteq> pid" using "1.prems"(4) "1.prems"(7) [of i] by simp
    have "restart_worker i n pid r m = restart_worker (i + 1) n pid r m"
      using "1.prems"(1-6) False ne by (subst restart_worker.simps) (auto simp: int_at_def)
    moreover have "restart_worker (i + 1) n pid r m =
      sbind (start_worker j) (\<lambda>worker_pid. sreturn (worker_pid, if worker_pid = 0 then int j else snd r)) m"
      using 1 False by (intro "1.IH") auto
    ultimately show ?thesis by (rule trans)
  qed
qed

text \<open>One death: the entry is replaced, or this is the new worker, or the master exits.\<close>

lemma reap_keeps:
  assumes "pool_ok m" "restart_worker 0 (worker_count m) pid r (m\<lparr>acts := acts m @ [Reaped pid]\<rparr>) = (m', res)"
    "fst r \<noteq> 0"
  shows "(\<exists>r'. res = Ret r' \<and> (fst r' = 0 \<longrightarrow> 0 \<le> snd r' \<and> snd r' < int (worker_count m)) \<and>
      (fst r' \<noteq> 0 \<longrightarrow> pool_ok m' \<and> worker_count m' = worker_count m)) \<or> res = Crash (ProcessExit 1)"
proof -
  define m1 where "m1 = m\<lparr>acts := acts m @ [Reaped pid]\<rparr>"
  obtain ps where ps: "worker_pids m1 = Some ps" "length ps = worker_count m"
    using assms(1) by (auto simp: pool_ok_def m1_def)
  show ?thesis
  proof (cases "upgraded m")
    case True
    then have "m' = m1" "res = Ret r"
      using restart_worker_upgraded [of m1 ps "worker_count m" 0 pid r] assms(2) ps by (simp_all add: m1_def)
    with assms(1,3) True show ?thesis by (auto simp: pool_ok_def m1_def)
  next
    case False
    then have p: "distinct ps" "\<forall>p \<in> set ps. 0 < p" "set ps = alive (acts m)" "fresh_forks m1"
      using assms(1) ps fresh_reap by (auto simp: pool_ok_def m1_def)
    show ?thesis
    proof (cases "pid \<in> set ps")
      case unknown: False
      then have "restart_worker 0 (worker_count m) pid r m1 = (m1, Ret r)"
        using ps by (intro restart_worker_unknown [of m1 ps]) auto
      then have "m' = m1" "res = Ret r" using assms(2) by (auto simp: m1_def)
      with assms(3) p ps unknown show ?thesis by (auto simp: pool_ok_def m1_def)
    next
      case True
      then obtain j where j: "j < length ps" "ps ! j = pid" by (auto simp: in_set_conv_nth)
      have "restart_worker 0 (worker_count m) pid r m1 =
        sbind (start_worker j) (\<lambda>worker_pid. sreturn (worker_pid, if worker_pid = 0 then int j else snd r)) m1"
        using j p(1) ps False by (intro restart_worker_found) (auto simp: m1_def nth_eq_iff_index_eq)
      then have run: "(m', res) =
        sbind (start_worker j) (\<lambda>worker_pid. sreturn (worker_pid, if worker_pid = 0 then int j else snd r)) m1"
        using assms(2) by (simp add: m1_def)
      show ?thesis
      proof (cases "\<exists>p fs. forks m1 = p # fs \<and> 0 < p")
        case False
        then show ?thesis
          using run j ps p(4) start_worker_run [OF ps(1) j(1)]
          by (auto simp: sbind_run fresh_forks_def split: list.splits if_splits)
      next
        case True
        then obtain q fs where q: "forks m1 = q # fs" "0 < q" by blast
        define m2 where "m2 = m1\<lparr>forks := fs, acts := acts m1 @ [Forked q], worker_pids := Some (ps[j := q])\<rparr>"
        have "m' = m2" "res = Ret (q, snd r)"
          using run start_worker_run [OF ps(1) j(1)] q by (auto simp: sbind_run m2_def)
        moreover have "q \<notin> alive (acts m1)" using p(4) q by (auto simp: fresh_forks_def)
        then have "q \<notin> set ps - {pid}" using p(3) by (simp add: m1_def)
        then have "distinct (ps[j := q])" "set (ps[j := q]) = insert q (set ps - {pid})"
          using p(1) j by (auto simp: distinct_list_update set_update_distinct)
        moreover have "fresh_forks m2" using fresh_fork [OF p(4) q] by (simp add: m2_def)
        ultimately show ?thesis
          using p ps q False by (auto simp: pool_ok_def m2_def m1_def)
      qed
    qed
  qed
qed

section \<open>Signals\<close>

lemma sys_result_run: "\<exists>b rs. sys_result m = (m\<lparr>results := rs\<rparr>, Ret b)"
  by (cases "results m") (auto simp: sys_result_def intro: exI [of _ "results m"])

lemma sys_result_ok [simp]: "results m = [] \<Longrightarrow> sys_result m = (m, Ret True)"
  by (simp add: sys_result_def)

text \<open>
  The name of the old pid file fits its block: the pointer's size leaves more room than the suffix needs.
\<close>

lemma old_name_fits:
  "\<exists>a. sprintf (path @ ''.old'') (replicate (length path + 8 - 1) NUL, 0) = Ret (a, length path + 4) \<and>
     take (length path + 4) a = path @ ''.old''"
  by (simp add: sprintf_def copy_out_def)

text \<open>The state of a running master.\<close>

definition master_ok :: "master \<Rightarrow> bool" where
  "master_ok m \<longleftrightarrow> pool_ok m \<and> pidfile_to_delete m \<noteq> None \<and>
     (\<exists>env. create_listen_fds_env (stored_listen_fds m) (worker_count m) = Ret env)"

definition master_exit :: "crash \<Rightarrow> bool" where
  "master_exit x \<longleftrightarrow> x = ProcessExit 0 \<or> x = ProcessExit 1 \<or> x = ProcessReplaced"

lemma fresh_less:
  "fresh_forks m \<Longrightarrow> forks m = p # fs \<Longrightarrow> alive (acts m') = alive (acts m) \<Longrightarrow> forks m' = fs \<Longrightarrow> fresh_forks m'"
  by (auto simp: fresh_forks_def split: if_splits)

lemma upgrade_keeps:
  assumes "master_ok m"
  shows "(\<exists>m'. upgrade_handler s m = (m', Ret ()) \<and> master_ok m' \<and> worker_count m' = worker_count m) \<or>
    (\<exists>m' x. upgrade_handler s m = (m', Crash x) \<and> master_exit x)"
proof -
  obtain path env where p: "pidfile_to_delete m = Some path"
    "create_listen_fds_env (stored_listen_fds m) (worker_count m) = Ret env"
    using assms by (auto simp: master_ok_def)
  obtain a where a: "sprintf (path @ ''.old'') (replicate (length path + 8 - 1) NUL, 0) = Ret (a, length path + 4)"
    "take (length path + 4) a = path @ ''.old''" using old_name_fits by blast
  have keep: "pool_ok (m\<lparr>results := rs\<rparr>)" for rs
    using assms by (auto simp: master_ok_def pool_ok_def fresh_forks_def)
  obtain b1 rs1 where r1: "sys_result m = (m\<lparr>results := rs1\<rparr>, Ret b1)" using sys_result_run by blast
  define m1 where "m1 = m\<lparr>results := rs1\<rparr>"
  obtain b2 rs2 where r2: "sys_result m1 = (m1\<lparr>results := rs2\<rparr>, Ret b2)" using sys_result_run by blast
  define m2 where "m2 = m1\<lparr>results := rs2, acts := acts m1 @ [Renamed path (path @ ''.old'')],
    pidfile_to_delete := Some (path @ ''.old''), upgraded := True\<rparr>"
  have run: "upgrade_handler s m =
    (if \<not> b1 then (m1, Ret ()) else if \<not> b2 then (m1\<lparr>results := rs2\<rparr>, Ret ())
     else sbind sys_fork (\<lambda>pid.
       if pid = -1 then sreturn ()
       else if pid = 0 then
         sbind (sget stored_argv) (\<lambda>argv.
         sbind (act (Executed argv [takeWhile (\<lambda>c. c \<noteq> NUL) env])) (\<lambda>_.
         sbind sys_result (\<lambda>executed.
         if executed then slift (Crash ProcessReplaced) else exit_with 1)))
       else act (Forked_upgrade pid)) m2)"
    using p a r1 [folded m1_def] r2
    by (simp add: upgrade_handler_def sbind_run [of sys_result] m2_def Let_def) (simp add: m1_def)
  show ?thesis
  proof (cases "b1 \<and> b2")
    case False
    then show ?thesis using run keep p assms by (auto simp: m1_def master_ok_def)
  next
    case True
    have ok: "master_ok m2" "master_ok (m2\<lparr>forks := fs\<rparr>)" "master_ok (m2\<lparr>forks := fs, acts := acts m2 @ [Forked_upgrade q]\<rparr>)" for fs q
      using assms p by (auto simp: master_ok_def m2_def m1_def pool_ok_def)
    show ?thesis
    proof (cases "forks m2")
      case Nil
      then show ?thesis using run True ok(1) p
        by (auto simp: sbind_run [of sys_fork] sys_fork_run m2_def m1_def)
    next
      case (Cons q fs)
      show ?thesis
      proof (cases "q = 0")
        case zero: True
        define m3 where "m3 = m2\<lparr>forks := fs,
          acts := acts m2 @ [Executed (stored_argv m2) [takeWhile (\<lambda>c. c \<noteq> NUL) env]]\<rparr>"
        obtain b3 rs3 where "sys_result m3 = (m3\<lparr>results := rs3\<rparr>, Ret b3)" using sys_result_run by blast
        then show ?thesis using run True Cons zero
          by (cases b3) (simp_all add: sbind_run [of sys_fork] sys_fork_run sbind_run [of sys_result] m3_def master_exit_def)
      next
        case False
        then show ?thesis using run True Cons ok(2) [where fs = fs] ok(3) [where fs = fs and q = q]
          by (auto simp: sbind_run [of sys_fork] sys_fork_run m2_def m1_def)
      qed
    qed
  qed
qed

text \<open>Shutting down: every worker gets the signal, every worker is waited for, and the pid file goes.\<close>

lemma signal_handler_run:
  assumes "worker_pids m = Some ps" "worker_count m = length ps"
  shows "signal_handler signo m =
    (m\<lparr>acts := acts m @ map (\<lambda>p. Killed p signo) ps @ map Waited ps @ [Removed (pidfile_to_delete m)]\<rparr>,
     Crash (ProcessExit (if signo = SIGQUIT then 0 else 1)))"
proof -
  have e: "each (\<lambda>i. sbind (slift (int_at ps i)) (\<lambda>pid. act (f pid))) [0..<length ps] m =
    (m\<lparr>acts := acts m @ map f ps\<rparr>, Ret ())" for f m
    using each_pid_run [of 0 "length ps" ps f m] by simp
  have "forward_signal_to_workers signo m = (m\<lparr>acts := acts m @ map (\<lambda>p. Killed p signo) ps\<rparr>, Ret ())"
    using assms e by (simp add: forward_signal_to_workers_def)
  then show ?thesis
    using assms e [of Waited "m\<lparr>acts := acts m @ map (\<lambda>p. Killed p signo) ps\<rparr>"]
    by (simp add: signal_handler_def sbind_run [of "forward_signal_to_workers signo"]
        sbind_run [of "each f is" for f "is"] exit_and_cleanup_main_def)
qed

section \<open>The loops of the master\<close>

text \<open>The table while the first workers are started.\<close>

definition pool_upto :: "nat \<Rightarrow> master \<Rightarrow> bool" where
  "pool_upto i m \<longleftrightarrow>
     (\<exists>ps. worker_pids m = Some (ps @ replicate (worker_count m - i) 0) \<and> length ps = i \<and> i \<le> worker_count m \<and>
       distinct ps \<and> (\<forall>p \<in> set ps. 0 < p) \<and> set ps = alive (acts m) \<and> fresh_forks m)"

lemma pool_upto_start:
  assumes "pool_upto i m" "i < worker_count m" "start_worker i m = (m', res)"
  shows "res = Crash (ProcessExit 1) \<or> res = Ret 0 \<or>
    (\<exists>p. res = Ret p \<and> p \<noteq> 0 \<and> pool_upto (i + 1) m' \<and> worker_count m' = worker_count m \<and>
      pidfile_to_delete m' = pidfile_to_delete m \<and> stored_listen_fds m' = stored_listen_fds m)"
proof -
  obtain ps where ps: "worker_pids m = Some (ps @ replicate (worker_count m - i) 0)" "length ps = i"
    "distinct ps" "\<forall>p \<in> set ps. 0 < p" "set ps = alive (acts m)" "fresh_forks m"
    using assms(1) by (auto simp: pool_upto_def)
  note run = start_worker_run [OF ps(1), of i]
  show ?thesis
  proof (cases "\<exists>p fs. forks m = p # fs \<and> 0 < p")
    case False
    then show ?thesis using run ps(2,6) assms(2,3)
      by (auto simp: fresh_forks_def split: list.splits if_splits)
  next
    case True
    then obtain q fs where q: "forks m = q # fs" "0 < q" by blast
    have rep: "replicate (worker_count m - i) 0 = 0 # replicate (worker_count m - (i + 1)) (0 :: int)"
      using assms(2) by (simp add: replicate_Suc [symmetric] Suc_diff_Suc del: replicate_Suc)
    define m2 where "m2 = m\<lparr>forks := fs, acts := acts m @ [Forked q],
      worker_pids := Some ((ps @ [q]) @ replicate (worker_count m - (i + 1)) 0)\<rparr>"
    have "(ps @ replicate (worker_count m - i) 0)[i := q] = (ps @ [q]) @ replicate (worker_count m - (i + 1)) 0"
      using ps(2) by (simp add: rep list_update_append)
    then have "m' = m2" "res = Ret q"
      using run q ps(2) assms(2,3) by (simp_all add: m2_def)
    moreover have "fresh_forks m2" using fresh_fork [OF ps(6) q] by (simp add: m2_def)
    moreover have "q \<notin> set ps" using ps(5,6) q by (auto simp: fresh_forks_def)
    ultimately show ?thesis
      using q ps assms(2) by (auto simp: pool_upto_def m2_def intro!: exI [of _ "ps @ [q]"])
  qed
qed

lemma pool_upto_all: "pool_upto (worker_count m) m \<Longrightarrow> pool_ok m"
  by (auto simp: pool_upto_def pool_ok_def)

lemma spawn_keeps:
  assumes "pool_upto i m" "spawn_workers i (worker_count m) r m = (m', res)" "0 < i \<Longrightarrow> fst r \<noteq> 0"
    "0 < worker_count m"
  shows "res = Crash (ProcessExit 1) \<or>
    (\<exists>r'. res = Ret r' \<and> (if fst r' = 0 then 0 \<le> snd r' \<and> snd r' < int (worker_count m)
      else pool_ok m' \<and> worker_count m' = worker_count m \<and>
        pidfile_to_delete m' = pidfile_to_delete m \<and> stored_listen_fds m' = stored_listen_fds m))"
  using assms
proof (induction "worker_count m - i" arbitrary: i m r)
  case 0
  then have "i = worker_count m" by (auto simp: pool_upto_def)
  moreover from this have "spawn_workers i (worker_count m) r m = (m, Ret r)" by (subst spawn_workers.simps) simp
  ultimately show ?case using 0 pool_upto_all [of m] by (cases r) auto
next
  case (Suc d)
  then have i: "i < worker_count m" by simp
  obtain m1 r1 where s: "start_worker i m = (m1, r1)" by fastforce
  have run: "spawn_workers i (worker_count m) r m =
    sbind (start_worker i) (\<lambda>worker_pid. if worker_pid = 0 then sreturn (0, int i)
      else spawn_workers (i + 1) (worker_count m) (worker_pid, snd r)) m"
    using i by (subst spawn_workers.simps) simp
  from pool_upto_start [OF Suc.prems(1) i s] show ?case
  proof (elim disjE exE conjE)
    fix p assume p: "r1 = Ret p" "p \<noteq> 0" "pool_upto (i + 1) m1" "worker_count m1 = worker_count m"
      "pidfile_to_delete m1 = pidfile_to_delete m" "stored_listen_fds m1 = stored_listen_fds m"
    have "spawn_workers (i + 1) (worker_count m1) (p, snd r) m1 = (m', res)"
      using run s p Suc.prems(2) by (simp add: sbind_run [of "start_worker i"])
    note IH = Suc.hyps(1) [OF _ p(3) this]
    have "d = worker_count m1 - (i + 1)" "fst (p, snd r) \<noteq> 0" "0 < worker_count m1"
      using Suc.hyps(2) p(2,4) Suc.prems(4) by simp_all
    from IH [OF this] show ?thesis by (simp only: p(4-6))
  qed (use run s Suc.prems(2) i in \<open>auto simp: sbind_run [of "start_worker i"]\<close>)
qed

text \<open>What the respawn loop can end in.\<close>

definition master_result :: "nat \<Rightarrow> master \<times> int option outcome \<Rightarrow> bool" where
  "master_result n res \<longleftrightarrow>
     (case snd res of
        Ret None \<Rightarrow> master_ok (fst res) \<and> worker_count (fst res) = n
      | Ret (Some worker_id) \<Rightarrow> 0 \<le> worker_id \<and> worker_id < int n
      | Fail _ \<Rightarrow> False
      | Crash x \<Rightarrow> master_exit x)"

lemma restart_same:
  "restart_worker i n pid r m = (m', Ret r') \<Longrightarrow>
   pidfile_to_delete m' = pidfile_to_delete m \<and> stored_listen_fds m' = stored_listen_fds m"
proof (induction i n pid r arbitrary: m rule: restart_worker.induct)
  case (1 i n pid r)
  have start: "start_worker i m = (m1, Ret w) \<Longrightarrow>
    pidfile_to_delete m1 = pidfile_to_delete m \<and> stored_listen_fds m1 = stored_listen_fds m" for m1 w
    by (auto simp: start_worker_def sbind_run sys_fork_run setup_worker_run store_pid_def split: list.splits if_splits
        option.splits)
  show ?case using 1 start
    by (subst (asm) restart_worker.simps)
       (auto simp: sbind_run [of "start_worker i"] int_at_def split: if_splits option.splits prod.splits outcome.splits)
qed

lemma respawn_keeps:
  assumes "master_ok m" "fst r \<noteq> 0" "worker_count m = n"
  shows "master_result n (respawn_loop n ws r m)"
  using assms
proof (induction ws arbitrary: m r)
  case Nil
  then show ?case by (subst respawn_loop.simps) (simp add: master_result_def)
next
  case (Cons w ws)
  show ?case
  proof (cases w)
    case (Died pid)
    obtain m1 res where re: "restart_worker 0 n pid r (m\<lparr>acts := acts m @ [Reaped pid]\<rparr>) = (m1, res)" by fastforce
    have run: "respawn_loop n (w # ws) r m =
      sbind (restart_worker 0 n pid r) (respawn_loop n ws) (m\<lparr>acts := acts m @ [Reaped pid]\<rparr>)"
      using Cons.prems(2) Died by (subst respawn_loop.simps) simp
    have "pool_ok m" using Cons.prems(1) by (simp add: master_ok_def)
    from reap_keeps [OF this re [folded Cons.prems(3)] Cons.prems(2)] show ?thesis
    proof (elim disjE exE conjE)
      fix r' assume r': "res = Ret r'" "fst r' = 0 \<longrightarrow> 0 \<le> snd r' \<and> snd r' < int (worker_count m)"
        "fst r' \<noteq> 0 \<longrightarrow> pool_ok m1 \<and> worker_count m1 = worker_count m"
      show ?thesis
      proof (cases "fst r' = 0")
        case True
        then have "respawn_loop n ws r' m1 = (m1, Ret (Some (snd r')))" by (subst respawn_loop.simps) simp
        then show ?thesis using run re r' True Cons.prems(3)
          by (simp add: sbind_run [of "restart_worker 0 n pid r"] master_result_def)
      next
        case False
        have "master_ok m1"
          using restart_same [OF re [unfolded r'(1)]] Cons.prems(1) r'(3) False by (simp add: master_ok_def)
        then show ?thesis using run re r' False Cons.IH [of m1 r'] Cons.prems(3)
          by (simp add: sbind_run [of "restart_worker 0 n pid r"])
      qed
    qed (use run re in \<open>simp add: sbind_run [of "restart_worker 0 n pid r"] master_result_def master_exit_def\<close>)
  next
    case (Caught signo)
    define h where "h = (case map_of master_handlers signo of None \<Rightarrow> sreturn () | Some h \<Rightarrow> run_handler h signo)"
    have run: "respawn_loop n (w # ws) r m = sbind h (\<lambda>_. respawn_loop n ws r) m"
      using Cons.prems(2) Caught by (subst respawn_loop.simps) (simp add: h_def)
    obtain ps where ps: "worker_pids m = Some ps" "worker_count m = length ps"
      using Cons.prems(1) by (auto simp: master_ok_def pool_ok_def)
    have "(\<exists>m1. h m = (m1, Ret ()) \<and> master_ok m1 \<and> worker_count m1 = worker_count m) \<or>
      (\<exists>m1 x. h m = (m1, Crash x) \<and> master_exit x)"
      using signal_handler_run [OF ps, of signo] upgrade_keeps [OF Cons.prems(1), of signo] Cons.prems(1)
      by (cases signo) (simp_all add: h_def master_handlers_def run_handler_def master_exit_def)
    then show ?thesis
    proof (elim disjE exE conjE)
      fix m1 assume m1: "h m = (m1, Ret ())" "master_ok m1" "worker_count m1 = worker_count m"
      with run have "respawn_loop n (w # ws) r m = respawn_loop n ws r m1" by (simp add: sbind_run [of h])
      with Cons.IH [OF m1(2) Cons.prems(2)] m1(3) Cons.prems(3) show ?thesis by simp
    next
      fix m1 x assume "h m = (m1, Crash x)" "master_exit x"
      with run show ?thesis by (simp add: sbind_run [of h] master_result_def)
    qed
  qed
qed

section \<open>Starting\<close>

definition initial_ok :: "master \<Rightarrow> bool" where
  "initial_ok m \<longleftrightarrow> alive (acts m) = {} \<and> fresh_forks m \<and> \<not> upgraded m \<and> 0 \<le> own_pid m \<and> own_pid m < 1000000000"

text \<open>What the preparation may change.\<close>

definition prepared :: "master \<Rightarrow> master \<Rightarrow> bool" where
  "prepared m m' \<longleftrightarrow> alive (acts m') = alive (acts m) \<and> forks m' = forks m \<and> upgraded m' = upgraded m \<and>
     worker_pids m' = worker_pids m \<and> own_pid m' = own_pid m"

lemma prepared_trans: "prepared m m1 \<Longrightarrow> prepared m1 m2 \<Longrightarrow> prepared m m2"
  by (simp add: prepared_def)

text \<open>A call that may end the process, or goes on in a state that satisfies \<open>Q\<close>.\<close>

definition or_exits :: "(master \<Rightarrow> bool) \<Rightarrow> master \<times> 'a outcome \<Rightarrow> bool" where
  "or_exits Q res \<longleftrightarrow> (case snd res of Ret _ \<Rightarrow> Q (fst res) | Fail _ \<Rightarrow> False | Crash x \<Rightarrow> x = ProcessExit 1)"

lemma or_exits_simps [simp]:
  "or_exits Q (m, Ret x) \<longleftrightarrow> Q m" "or_exits Q (m, Crash k) \<longleftrightarrow> k = ProcessExit 1"
  by (simp_all add: or_exits_def)

lemma or_exits_bind:
  "or_exits Q (c m) \<Longrightarrow> (\<And>x m'. Q m' \<Longrightarrow> or_exits R (f x m')) \<Longrightarrow> or_exits R (sbind c f m)"
proof (cases "c m")
  case (Pair m' res)
  assume "or_exits Q (c m)" "\<And>x m'. Q m' \<Longrightarrow> or_exits R (f x m')"
  with Pair show ?thesis by (cases res) (simp_all add: sbind_run [of c], simp add: or_exits_def)
qed

lemma or_die_prepared: "or_exits (prepared m) (or_die m)"
  using sys_result_run [of m] by (auto simp: or_die_def sbind_run [of sys_result] prepared_def)

lemma set_handlers_prepared: "or_exits (prepared m) (set_handlers hs m)"
proof -
  have "foldl alive_step S (map (\<lambda>(s, h). Handler_set s h) hs) = S" for S
  proof (induction hs)
    case (Cons h hs)
    then show ?case by (cases h) simp
  qed simp
  then have "alive (acts m @ map (\<lambda>(s, h). Handler_set s h) hs) = alive (acts m)"
    by (simp only: alive_append)
  then show ?thesis unfolding set_handlers_run prepared_def or_exits_simps by simp
qed

lemma clear_sigmask_prepared: "or_exits (prepared m) (clear_sigmask m)"
  unfolding clear_sigmask_def
  by (rule or_exits_bind [OF or_die_prepared], rule or_exits_bind [OF or_die_prepared])
     (simp add: prepared_def)

lemma write_pidfile_prepared:
  assumes "0 \<le> own_pid m" "own_pid m < 1000000000"
  shows "or_exits (\<lambda>m'. prepared m m' \<and> pidfile_to_delete m' = Some path) (write_pidfile path m)"
  unfolding write_pidfile_def
proof (rule or_exits_bind [OF or_die_prepared])
  fix m1 assume m1: "prepared m m1"
  have "length (int_text (own_pid m1)) \<le> 9"
    using assms m1 length_dec [of "nat (own_pid m1)" 9] by (simp add: int_text_nat prepared_def nat_less_iff)
  then obtain a where "sprintf (int_text (own_pid m1)) (replicate 10 NUL, 0) = Ret (a, length (int_text (own_pid m1)))"
    by (simp add: sprintf_def copy_out_def)
  moreover have "or_exits (\<lambda>m'. prepared m m' \<and> pidfile_to_delete m' = Some path)
    (sbind or_die (\<lambda>_. sbind (act e) (\<lambda>_. smodify (\<lambda>m. m\<lparr>pidfile_to_delete := Some path\<rparr>))) m1)"
    if "\<And>S. alive_step S e = S" for e
    using m1 that by (intro or_exits_bind [OF or_die_prepared]) (auto simp: prepared_def)
  ultimately show "or_exits (\<lambda>m'. prepared m m' \<and> pidfile_to_delete m' = Some path)
    (sbind (sget own_pid) (\<lambda>pid. sbind (slift (sprintf (int_text pid) (replicate 10 NUL, 0))) (\<lambda>(pid_buf, n).
       sbind or_die (\<lambda>_. sbind (act (Wrote_pidfile path (take n pid_buf))) (\<lambda>_.
       smodify (\<lambda>m. m\<lparr>pidfile_to_delete := Some path\<rparr>))))) m1)" by simp
qed

lemma prepare_workers_prepared:
  assumes "0 \<le> own_pid m" "own_pid m < 1000000000"
  shows "or_exits (\<lambda>m'. prepared m m' \<and> pidfile_to_delete m' = Some path \<and> worker_count m' = nat workers)
    (prepare_workers workers path m)"
  unfolding prepare_workers_def setup_master_signal_handlers_def
proof (rule or_exits_bind [OF clear_sigmask_prepared], rule or_exits_bind [OF set_handlers_prepared])
  fix m1 m2 assume m2: "prepared m m1" "prepared m1 m2"
  then have p: "prepared m m2" by (rule prepared_trans)
  have "or_exits (\<lambda>m'. prepared m2 m' \<and> pidfile_to_delete m' = Some path) (write_pidfile path m2)"
    using assms p by (intro write_pidfile_prepared) (simp_all add: prepared_def)
  then show "or_exits (\<lambda>m'. prepared m m' \<and> pidfile_to_delete m' = Some path \<and> worker_count m' = nat workers)
    (sbind (write_pidfile path) (\<lambda>_. smodify (worker_count_update (\<lambda>_. nat workers))) m2)"
    using p by (rule_tac or_exits_bind) (auto simp: prepared_def)
qed

lemma fork_workers_result:
  assumes "0 < workers" "length fds = nat workers" "\<forall>fd \<in> set fds. 0 \<le> fd \<and> fd < 100000" "initial_ok m"
  shows "master_result (nat workers) (yta_fork_workers workers path argv fds ws m)"
proof -
  have pw: "or_exits (\<lambda>m'. prepared m m' \<and> pidfile_to_delete m' = Some path \<and> worker_count m' = nat workers)
    (prepare_workers workers path m)"
    using assms(4) by (intro prepare_workers_prepared) (simp_all add: initial_ok_def)
  obtain m1 r1 where s1: "prepare_workers workers path m = (m1, r1)" by fastforce
  show ?thesis
  proof (cases r1)
    case (Ret x)
    then have m1: "prepared m m1" "pidfile_to_delete m1 = Some path" "worker_count m1 = nat workers"
      using pw s1 by simp_all
    obtain b rs where s2: "sys_result m1 = (m1\<lparr>results := rs\<rparr>, Ret b)" using sys_result_run by blast
    define m2 where "m2 = m1\<lparr>results := rs, stored_argv := argv, stored_listen_fds := fds,
      worker_pids := Some (replicate (nat workers) 0)\<rparr>"
    obtain m3 r3 where s3: "spawn_workers 0 (nat workers) (0, - 1) m2 = (m3, r3)" by fastforce
    have run: "yta_fork_workers workers path argv fds ws m =
      (if \<not> b then (m1\<lparr>results := rs, stored_argv := argv, stored_listen_fds := fds\<rparr>, Crash (ProcessExit 1))
       else sbind (spawn_workers 0 (nat workers) (0, - 1)) (respawn_loop (nat workers) ws) m2)"
      using s1 Ret s2 assms(1)
      by (simp add: yta_fork_workers_def sbind_run [of "prepare_workers workers path"] sbind_run [of sys_result] m2_def)
    have c2: "worker_count m2 = nat workers" using m1(3) by (simp add: m2_def)
    have n: "int (nat workers) = workers" using assms(1) by simp
    have p2: "pidfile_to_delete m2 = Some path" "stored_listen_fds m2 = fds" using m1(2) by (simp_all add: m2_def)
    have "pool_upto 0 m2"
      using assms(4) m1 by (auto simp: pool_upto_def m2_def initial_ok_def prepared_def fresh_forks_def)
    from spawn_keeps [OF this s3 [folded c2], unfolded c2 p2 n] assms(1)
    have "r3 = Crash (ProcessExit 1) \<or> (\<exists>r'. r3 = Ret r' \<and> (if fst r' = 0 then 0 \<le> snd r' \<and> snd r' < workers
      else pool_ok m3 \<and> worker_count m3 = nat workers \<and> pidfile_to_delete m3 = Some path \<and> stored_listen_fds m3 = fds))"
      by simp
    then show ?thesis
    proof (elim disjE exE conjE)
      fix r' assume r': "r3 = Ret r'" "if fst r' = 0 then 0 \<le> snd r' \<and> snd r' < workers
        else pool_ok m3 \<and> worker_count m3 = nat workers \<and> pidfile_to_delete m3 = Some path \<and> stored_listen_fds m3 = fds"
      show ?thesis
      proof (cases "fst r' = 0")
        case True
        then have "respawn_loop (nat workers) ws r' m3 = (m3, Ret (Some (snd r')))" by (subst respawn_loop.simps) simp
        then show ?thesis using run s3 r' True
          by (cases b) (simp_all add: sbind_run [of "spawn_workers 0 (nat workers) (0, - 1)"] master_result_def master_exit_def)
      next
        case False
        have "fds \<noteq> []" using assms(1,2) by auto
        then have "master_ok m3"
          using create_listen_fds_env_fits [of fds] assms(2,3) r'(2) False by (auto simp: master_ok_def)
        then have "master_result (nat workers) (respawn_loop (nat workers) ws r' m3)"
          using respawn_keeps False r'(2) by simp
        then show ?thesis using run s3 r'(1)
          by (cases b) (simp_all add: sbind_run [of "spawn_workers 0 (nat workers) (0, - 1)"] master_result_def master_exit_def)
      qed
    qed (use run s3 in \<open>cases b;
       simp add: sbind_run [of "spawn_workers 0 (nat workers) (0, - 1)"] master_result_def master_exit_def\<close>)
  qed (use pw s1 in \<open>simp_all add: yta_fork_workers_def sbind_run [of "prepare_workers workers path"] master_result_def
      master_exit_def or_exits_def\<close>)
qed

end
