(* ===== verification/Worker_Properties.thy ===== *)
theory Worker_Properties
  imports Worker_Safety
begin

text \<open>
  The properties of the master process, on the states \<^verbatim>\<open>yta_fork_workers\<close> reaches from its start,
  with concrete runs as examples.
\<close>

section \<open>Examples\<close>

text \<open>A master with process number 100, whose forks give the workers 201, 202, 203 and then a child.\<close>

definition some_master :: master where
  "some_master = \<lparr>worker_pids = None, worker_count = 0, pidfile_to_delete = None, stored_argv = [],
     stored_listen_fds = [], upgraded = False, own_pid = 100, forks = [201, 202, 203, 0], results = [], acts = []\<rparr>"

lemma some_master_initial: "initial_ok some_master"
  by (simp add: initial_ok_def some_master_def fresh_forks_def)

definition two_workers :: "wait_event list \<Rightarrow> master \<times> int option outcome" where
  "two_workers ws = yta_fork_workers 2 ''/tmp/y.pid'' [''yotta''] [3, 4] ws some_master"

text \<open>Worker 201 dies; a process that is no worker dies.\<close>

lemma two_workers_run:
  "map_prod (\<lambda>m. (worker_pids m, acts m)) id (two_workers [Died 201, Died 77]) =
   ((Some [203, 202],
     [Mask_cleared, Handler_set SIGPIPE SIG_IGN, Handler_set SIGTERM Signal_handler, Handler_set SIGINT Signal_handler,
      Handler_set SIGQUIT Signal_handler, Handler_set SIGUSR1 Upgrade_handler, Wrote_pidfile ''/tmp/y.pid'' ''100'',
      Forked 201, Forked 202, Reaped 201, Forked 203, Reaped 77]), Ret None)"
  by code_simp

section \<open>Properties\<close>

text \<open>
  C5.  The pool of workers stays full: whatever processes die and whatever signals arrive, while the master
  runs and has not upgraded, its table holds exactly the live workers, each once, and they are as many as
  asked for.
\<close>

theorem worker_pool_full:
  assumes "0 < workers" "length fds = nat workers" "\<forall>fd \<in> set fds. 0 \<le> fd \<and> fd < 100000" "initial_ok m"
    and "yta_fork_workers workers path argv fds ws m = (m', Ret None)" "\<not> upgraded m'"
  shows "\<exists>pids. worker_pids m' = Some pids \<and> length pids = nat workers \<and> distinct pids \<and> set pids = alive (acts m')"
  using fork_workers_result [OF assms(1-4), of path argv ws] assms(5,6)
  by (auto simp: master_result_def master_ok_def pool_ok_def)

lemma worker_pool_full_witness:
  "\<exists>pids. worker_pids (fst (two_workers [Died 201])) = Some pids \<and> length pids = 2 \<and> distinct pids \<and>
     set pids = alive (acts (fst (two_workers [Died 201])))"
proof -
  have r: "snd (two_workers [Died 201]) = Ret None" "\<not> upgraded (fst (two_workers [Died 201]))" by code_simp+
  then have "two_workers [Died 201] = (fst (two_workers [Died 201]), Ret None)" by (simp add: prod_eq_iff)
  from worker_pool_full [OF _ _ _ some_master_initial this [unfolded two_workers_def] r(2) [unfolded two_workers_def]]
  show ?thesis by (simp add: two_workers_def)
qed



text \<open>
  C12.  Shutting down: a running master that catches a terminating signal passes it to every worker, waits for
  every worker, removes its pid file and exits, with 0 for \<^verbatim>\<open>SIGQUIT\<close> and 1 otherwise.
\<close>

theorem shutdown_reaches_workers:
  assumes "0 < workers" "length fds = nat workers" "\<forall>fd \<in> set fds. 0 \<le> fd \<and> fd < 100000" "initial_ok m"
    and "yta_fork_workers workers path argv fds ws m = (m', Ret None)"
  shows "\<exists>pids. worker_pids m' = Some pids \<and> length pids = nat workers \<and>
    signal_handler signo m' =
      (m'\<lparr>acts := acts m' @ map (\<lambda>p. Killed p signo) pids @ map Waited pids @ [Removed (pidfile_to_delete m')]\<rparr>,
       Crash (ProcessExit (if signo = SIGQUIT then 0 else 1)))"
proof -
  obtain pids where "worker_pids m' = Some pids" "worker_count m' = length pids" "length pids = nat workers"
    using fork_workers_result [OF assms(1-4), of path argv ws] assms(5)
    by (auto simp: master_result_def master_ok_def pool_ok_def)
  with signal_handler_run [OF this(1,2)] show ?thesis by auto
qed

lemma shutdown_reaches_workers_witness:
  "snd (signal_handler SIGQUIT (fst (two_workers []))) = Crash (ProcessExit 0)"
proof -
  have r: "snd (two_workers []) = Ret None" by code_simp
  then have "two_workers [] = (fst (two_workers []), Ret None)" by (simp add: prod_eq_iff)
  from shutdown_reaches_workers [OF _ _ _ some_master_initial this [unfolded two_workers_def], of SIGQUIT]
  show ?thesis by (auto simp: two_workers_def)
qed

text \<open>
  C9.  The upgrade hands over the listening sockets: when its calls succeed, the child of
  \<^verbatim>\<open>upgrade_handler\<close> starts the binary with the stored arguments and one environment variable, from
  which \<^verbatim>\<open>parse_listen_fds_env\<close> reads exactly the stored descriptors; and the pid file has been
  renamed.
\<close>

theorem upgrade_hands_over:
  assumes "stored_listen_fds m \<noteq> []" "\<forall>fd \<in> set (stored_listen_fds m). 0 \<le> fd \<and> fd < 100000"
    and "worker_count m = length (stored_listen_fds m)" "pidfile_to_delete m = Some path"
    and "forks m = 0 # fs" "results m = []"
  shows "\<exists>m' env. upgrade_handler signo m = (m', Crash ProcessReplaced) \<and>
    acts m' = acts m @ [Renamed path (path @ ''.old''), Executed (stored_argv m) [env]] \<and>
    parse_listen_fds_env (drop (length ''listen_fds='') env) (worker_count m) = Ret (stored_listen_fds m)"
proof -
  obtain a where a: "create_listen_fds_env (stored_listen_fds m) (worker_count m) = Ret a"
    "takeWhile (\<lambda>c. c \<noteq> NUL) a = ''listen_fds='' @ fds_text (stored_listen_fds m)"
    using create_listen_fds_env_fits [OF assms(1,2)] assms(3) by auto
  have "\<forall>fd \<in> set (stored_listen_fds m). 0 \<le> fd \<and> fd \<le> 2147483647" using assms(2) by auto
  note p = parse_listen_fds_env_text [OF assms(1) this]
  obtain b where b: "sprintf (path @ ''.old'') (replicate (length path + 8 - 1) NUL, 0) = Ret (b, length path + 4)"
    "take (length path + 4) b = path @ ''.old''" using old_name_fits by blast
  have "upgrade_handler signo m =
    (m\<lparr>acts := acts m @ [Renamed path (path @ ''.old''), Executed (stored_argv m) [''listen_fds='' @ fds_text (stored_listen_fds m)]],
       pidfile_to_delete := Some (path @ ''.old''), upgraded := True, forks := fs\<rparr>, Crash ProcessReplaced)"
    using assms(4-6) a b
    by (simp add: upgrade_handler_def sbind_run [of sys_result] sbind_run [of sys_fork] sys_fork_run Let_def)
  then show ?thesis using p assms(3) by simp
qed

lemma upgrade_hands_over_witness:
  "\<exists>m' env. upgrade_handler SIGUSR1 (some_master\<lparr>stored_listen_fds := [3, 4], worker_count := 2,
       pidfile_to_delete := Some ''y.pid'', forks := [0], stored_argv := [''yotta'']\<rparr>) = (m', Crash ProcessReplaced) \<and>
     acts m' = [Renamed ''y.pid'' ''y.pid.old'', Executed [''yotta''] [env]] \<and>
     parse_listen_fds_env (drop (length ''listen_fds='') env) 2 = Ret [3, 4]"
  using upgrade_hands_over [of "some_master\<lparr>stored_listen_fds := [3, 4], worker_count := 2,
    pidfile_to_delete := Some ''y.pid'', forks := [0], stored_argv := [''yotta'']\<rparr>" "''y.pid''" "[]" SIGUSR1]
  by (simp add: some_master_def)

text \<open>The respawn loop of an upgraded master only reaps.\<close>

lemma respawn_upgraded:
  assumes "upgraded m" "worker_pids m = Some pids" "n \<le> length pids" "fst r \<noteq> 0"
  shows "respawn_loop n (map Died ds) r m = (m\<lparr>acts := acts m @ map Reaped ds\<rparr>, Ret None)"
  using assms
proof (induction ds arbitrary: m)
  case Nil
  then show ?case by (subst respawn_loop.simps) simp
next
  case (Cons d ds)
  let ?m = "m\<lparr>acts := acts m @ [Reaped d]\<rparr>"
  have "restart_worker 0 n d r ?m = (?m, Ret r)"
    using Cons.prems by (intro restart_worker_upgraded [of _ pids]) simp_all
  moreover have "respawn_loop n (map Died (d # ds)) r m = sbind (restart_worker 0 n d r) (respawn_loop n (map Died ds)) ?m"
    using Cons.prems(4) by (subst respawn_loop.simps) simp
  ultimately show ?case using Cons.IH [of ?m] Cons.prems
    by (simp add: sbind_run [of "restart_worker 0 n d r"])
qed

text \<open>
  C29.  A failed upgrade is not undone: when the \<^verbatim>\<open>fork\<close> of \<^verbatim>\<open>upgrade_handler\<close> fails, the master
  keeps running under the renamed pid file, marked as upgraded, and from then on restarts no worker, whichever
  die.
\<close>

theorem failed_upgrade_stops_respawn:
  assumes "create_listen_fds_env (stored_listen_fds m) (worker_count m) = Ret env" "pidfile_to_delete m = Some path"
    and "forks m = -1 # fs" "results m = []" "worker_pids m = Some pids" "length pids = n" "fst r \<noteq> 0"
  shows "\<exists>m'. upgrade_handler signo m = (m', Ret ()) \<and> upgraded m' \<and>
    pidfile_to_delete m' = Some (path @ ''.old'') \<and>
    (\<forall>ds. respawn_loop n (map Died ds) r m' = (m'\<lparr>acts := acts m' @ map Reaped ds\<rparr>, Ret None))"
proof -
  obtain b where b: "sprintf (path @ ''.old'') (replicate (length path + 8 - 1) NUL, 0) = Ret (b, length path + 4)"
    "take (length path + 4) b = path @ ''.old''" using old_name_fits by blast
  define m' where "m' = m\<lparr>acts := acts m @ [Renamed path (path @ ''.old'')],
    pidfile_to_delete := Some (path @ ''.old''), upgraded := True, forks := fs\<rparr>"
  have "upgrade_handler signo m = (m', Ret ())"
    using assms(1-4) b
    by (simp add: upgrade_handler_def sbind_run [of sys_result] sbind_run [of sys_fork] sys_fork_run Let_def m'_def)
  moreover have "respawn_loop n (map Died ds) r m' = (m'\<lparr>acts := acts m' @ map Reaped ds\<rparr>, Ret None)" for ds
    using assms(5-7) by (intro respawn_upgraded [of _ pids]) (simp_all add: m'_def)
  ultimately show ?thesis by (auto simp: m'_def)
qed

lemma failed_upgrade_stops_respawn_witness:
  "\<exists>m'. upgrade_handler SIGUSR1 (some_master\<lparr>stored_listen_fds := [3], worker_count := 1, forks := [-1],
       pidfile_to_delete := Some ''y.pid'', worker_pids := Some [201]\<rparr>) = (m', Ret ()) \<and>
     respawn_loop 1 [Died 201] (201, -1) m' = (m'\<lparr>acts := acts m' @ [Reaped 201]\<rparr>, Ret None)"
proof -
  let ?m = "some_master\<lparr>stored_listen_fds := [3], worker_count := 1, forks := [-1],
       pidfile_to_delete := Some ''y.pid'', worker_pids := Some [201]\<rparr>"
  obtain env where "create_listen_fds_env [3] 1 = Ret env"
    using create_listen_fds_env_fits [of "[3]"] by auto
  then have "\<exists>m'. upgrade_handler SIGUSR1 ?m = (m', Ret ()) \<and> upgraded m' \<and>
    pidfile_to_delete m' = Some (''y.pid'' @ ''.old'') \<and>
    (\<forall>ds. respawn_loop 1 (map Died ds) (201, -1) m' = (m'\<lparr>acts := acts m' @ map Reaped ds\<rparr>, Ret None))"
    by (intro failed_upgrade_stops_respawn [of _ env _ "[]" "[201]"]) (simp_all add: some_master_def)
  then obtain m' where m': "upgrade_handler SIGUSR1 ?m = (m', Ret ())"
    "\<forall>ds. respawn_loop 1 (map Died ds) (201, -1) m' = (m'\<lparr>acts := acts m' @ map Reaped ds\<rparr>, Ret None)" by blast
  from m'(2) [rule_format, of "[201]"] m'(1) show ?thesis by auto
qed

text \<open>
  C30.  The handlers are installed before the table exists: a terminating signal that is caught after
  \<^verbatim>\<open>worker_count\<close> is set and before \<^verbatim>\<open>worker_pids\<close> is allocated makes
  \<^verbatim>\<open>signal_handler\<close> index a null pointer.
\<close>

theorem signal_before_pool:
  assumes "prepare_workers workers path m = (m', Ret ())" "0 < workers" "worker_pids m = None" "initial_ok m"
  shows "signal_handler signo m' = (m', Crash NullPointer)"
proof -
  have "or_exits (\<lambda>m'. prepared m m' \<and> pidfile_to_delete m' = Some path \<and> worker_count m' = nat workers)
    (prepare_workers workers path m)"
    using assms(4) by (intro prepare_workers_prepared) (simp_all add: initial_ok_def)
  then have m': "worker_pids m' = None" "worker_count m' = nat workers"
    using assms(1,3) by (simp_all add: prepared_def)
  obtain k where "nat workers = Suc k" using assms(2) by (cases "nat workers") auto
  then have "[0..<nat workers] = 0 # [1..<Suc k]" by (simp add: upt_conv_Cons)
  then show ?thesis using m'
    by (simp add: signal_handler_def sbind_run [of "forward_signal_to_workers signo"] forward_signal_to_workers_def
        sbind_assoc)
qed

lemma signal_before_pool_witness:
  "\<exists>m'. prepare_workers 1 ''y.pid'' some_master = (m', Ret ()) \<and> signal_handler SIGTERM m' = (m', Crash NullPointer)"
proof -
  have "snd (prepare_workers 1 ''y.pid'' some_master) = Ret ()" by code_simp
  then obtain m' where m': "prepare_workers 1 ''y.pid'' some_master = (m', Ret ())" by (metis prod.collapse)
  from signal_before_pool [OF m' _ _ some_master_initial, of SIGTERM] m' show ?thesis by (simp add: some_master_def)
qed

text \<open>
  C31.  The table is zero until a worker is started: a terminating signal caught between two of the first
  forks is also sent to process 0, which is the whole process group, the master included.
\<close>

theorem signal_while_spawning:
  assumes "worker_pids m = Some (replicate n 0)" "worker_count m = n" "start_worker 0 m = (m1, Ret pid)" "pid \<noteq> 0" "1 < n"
  shows "Killed 0 signo \<in> set (acts (fst (signal_handler signo m1)))"
proof -
  have "0 < length (replicate n (0 :: int))" using assms(5) by simp
  from start_worker_run [OF assms(1) this] assms(2-4)
  have "worker_pids m1 = Some ((replicate n 0)[0 := pid])" "worker_count m1 = length ((replicate n 0)[0 := pid])"
    by (auto split: list.splits if_splits)
  from signal_handler_run [OF this, of signo] have
    "set (map (\<lambda>p. Killed p signo) ((replicate n 0)[0 := pid])) \<subseteq> set (acts (fst (signal_handler signo m1)))" by auto
  moreover have "((replicate n 0)[0 := pid]) ! 1 = (0 :: int)" using assms(5) by simp
  then have "0 \<in> set ((replicate n 0)[0 := pid])" using assms(5) nth_mem [of 1 "(replicate n 0)[0 := pid]"] by simp
  ultimately show ?thesis by force
qed

lemma signal_while_spawning_witness:
  "\<exists>m1. start_worker 0 (some_master\<lparr>worker_pids := Some [0, 0], worker_count := 2\<rparr>) = (m1, Ret 201) \<and>
     Killed 0 SIGTERM \<in> set (acts (fst (signal_handler SIGTERM m1)))"
proof -
  let ?m = "some_master\<lparr>worker_pids := Some [0, 0], worker_count := 2\<rparr>"
  have t: "worker_pids ?m = Some (replicate 2 0)" by (simp add: numeral_2_eq_2)
  have "snd (start_worker 0 ?m) = Ret 201" by code_simp
  then obtain m1 where m1: "start_worker 0 ?m = (m1, Ret 201)" by (metis prod.collapse)
  from signal_while_spawning [OF t _ m1, of SIGTERM] m1 show ?thesis by simp
qed

end
