(* ===== verification/Startup.thy ===== *)
theory Startup
  imports Worker_Safety Reactor
begin

text \<open>
  From the command line to the main loop: \<^verbatim>\<open>args.h\<close>, and \<^verbatim>\<open>get_listen_fds\<close>,
  \<^verbatim>\<open>drop_root\<close> and \<^verbatim>\<open>yta_run\<close> of \<^verbatim>\<open>core/yta_event_loop.c\<close> with
  \<^verbatim>\<open>yta_daemonize\<close> of \<^verbatim>\<open>core/yta_process.c\<close>, which put the sockets, the master
  process and the reactor together.
\<close>

section \<open>Options\<close>

record argument_options =
  daemonize :: bool
  pid_file :: "char list"
  port :: "char list"
  host :: "char list"
  workers :: int

definition default_options :: argument_options where
  "default_options = \<lparr>daemonize = False, pid_file = ''/tmp/yotta.pid'', port = ''8080'', host = ''::'', workers = 4\<rparr>"

text \<open>
  The loop over what \<^verbatim>\<open>getopt\<close> returns: the letter of an option with its argument (ignored for
  \<^verbatim>\<open>g\<close>), or \<^verbatim>\<open>?\<close>.
\<close>

fun get_program_opts :: "(char \<times> char list) list \<Rightarrow> argument_options \<Rightarrow> argument_options outcome" where
  "get_program_opts [] options = Ret options"
| "get_program_opts ((opt, optarg) # rest) options =
     (if opt = CHR ''g'' then get_program_opts rest (options\<lparr>daemonize := True\<rparr>)
      else if opt = CHR ''i'' then get_program_opts rest (options\<lparr>pid_file := optarg\<rparr>)
      else if opt = CHR ''p'' then get_program_opts rest (options\<lparr>port := optarg\<rparr>)
      else if opt = CHR ''h'' then get_program_opts rest (options\<lparr>host := optarg\<rparr>)
      else if opt = CHR ''w'' then obind (atoi optarg) (\<lambda>n. get_program_opts rest (options\<lparr>workers := n\<rparr>))
      else get_program_opts rest options)"

section \<open>Before the workers\<close>

definition yta_daemonize :: "(master, unit) stateful" where
  "yta_daemonize =
     sbind sys_fork (\<lambda>pid.
     if pid = 0 then sbind or_die (\<lambda>_. act New_session)
     else if pid = -1 then exit_with 1
     else exit_with 0)"

text \<open>
  The variable \<^verbatim>\<open>listen_fds\<close> of the environment decides; both branches allocate the block, which
  fails for a negative number.
\<close>

definition get_listen_fds :: "char list option \<Rightarrow> int \<Rightarrow> kernel \<Rightarrow> (int list \<times> kernel) outcome" where
  "get_listen_fds listen_fds_env count k =
     obind (or_exit k) (\<lambda>k.
     if count < 0 then Crash (ProcessExit 1)
     else
       (case listen_fds_env of
          None \<Rightarrow> make_listen_fds (nat count) k
        | Some env \<Rightarrow> obind (parse_listen_fds_env env (nat count)) (\<lambda>fds. Ret (fds, k))))"

text \<open>
  \<^verbatim>\<open>drop_root\<close>: \<open>gid\<close> is what \<^verbatim>\<open>getgid\<close> returns, \<open>nobody\<close> the user and group number of
  the user \<^verbatim>\<open>nobody\<close>, if there is one.
\<close>

definition drop_root :: "int \<Rightarrow> (int \<times> int) option \<Rightarrow> (master, unit) stateful" where
  "drop_root gid nobody =
     (if gid \<noteq> 0 then sreturn ()
      else
        (case nobody of
           None \<Rightarrow> sreturn ()
         | Some (pw_uid, pw_gid) \<Rightarrow>
             sbind or_die (\<lambda>_. sbind (act (Group_set pw_gid)) (\<lambda>_.
             sbind or_die (\<lambda>_. act (User_set pw_uid))))))"

section \<open>yta_run\<close>

definition index_at :: "int list \<Rightarrow> int \<Rightarrow> int outcome" where
  "index_at fds i = (if 0 \<le> i then int_at fds (nat i) else Crash OutOfBounds)"

text \<open>
  What the process finds around it: the environment, its group, the user \<^verbatim>\<open>nobody\<close>, and the
  events the master and the worker will see.
\<close>

record surroundings =
  env_listen_fds :: "char list option"
  gid :: int
  nobody :: "(int \<times> int) option"
  waits :: "wait_event list"
  events :: "master_event list"

text \<open>
  The result is \<open>None\<close> in the master, which waits for more, and the state of the main loop in a
  worker.
\<close>

definition yta_run :: "('u, 'b, 'c, 'd) client \<Rightarrow> 'd \<Rightarrow> char list list \<Rightarrow> char list \<Rightarrow> bool \<Rightarrow> int \<Rightarrow>
    surroundings \<Rightarrow> kernel \<Rightarrow> master \<Rightarrow> (bool \<times> ('u, 'b, 'c, 'd) world) option outcome" where
  "yta_run cl accept_callback argv pidfile_path daemon count env k m =
     (case (if daemon then yta_daemonize else sreturn ()) m of (m, res) \<Rightarrow> obind res (\<lambda>_.
      obind (get_listen_fds (env_listen_fds env) count k) (\<lambda>(listen_fds, k).
      case yta_fork_workers count pidfile_path argv listen_fds (waits env) m of (m, res) \<Rightarrow>
      obind res (\<lambda>worker_id.
      case worker_id of
        None \<Rightarrow> Ret None
      | Some worker_id \<Rightarrow>
          obind (snd (drop_root (gid env) (nobody env) m)) (\<lambda>_.
          obind (index_at listen_fds worker_id) (\<lambda>listen_fd.
          obind (serve cl accept_callback listen_fd (events env) k) (\<lambda>w. Ret (Some w))))))))"

definition main :: "('u, 'b, 'c, 'd) client \<Rightarrow> 'd \<Rightarrow> char list list \<Rightarrow> (char \<times> char list) list \<Rightarrow>
    surroundings \<Rightarrow> kernel \<Rightarrow> master \<Rightarrow> (bool \<times> ('u, 'b, 'c, 'd) world) option outcome" where
  "main cl accept_callback argv args env k m =
     obind (get_program_opts args default_options) (\<lambda>opts.
     yta_run cl accept_callback argv (pid_file opts) (daemonize opts) (workers opts) env k m)"

section \<open>The listening sockets\<close>

text \<open>What is done to one listening socket.\<close>

definition socket_setup :: "int \<Rightarrow> event list" where
  "socket_setup fd = [Reuse_addr fd, Reuse_port fd, Bound fd, Non_blocking fd, Listening fd]"

lemma or_exit_trace: "or_exit k = Ret k' \<Longrightarrow> k_trace k' = k_trace k"
  by (auto simp: or_exit_def next_result_def split: list.splits if_splits)

lemma call_trace: "call_or_exit e k = Ret k' \<Longrightarrow> k_trace k' = k_trace k @ [e]"
  using call_or_exit_cases [of e k] by auto

lemma fd_trace: "fd_or_exit k = Ret (fd, k') \<Longrightarrow> k_trace k' = k_trace k"
  by (auto simp: fd_or_exit_def new_fd_def split: list.splits if_splits)

lemma make_listen_fds_trace:
  "make_listen_fds n k = Ret (fds, k') \<Longrightarrow>
   length fds = n \<and> k_trace k' = k_trace k @ concat (map socket_setup fds)"
proof (induction n arbitrary: k fds k')
  case (Suc n)
  from Suc.prems obtain k1 k2 k3 fd fds2 where
    s: "make_listen_socket k = Ret (fd, k1)" "set_nonblock fd k1 = Ret k2" "call_or_exit (Listening fd) k2 = Ret k3"
      "make_listen_fds n k3 = Ret (fds2, k')" "fds = fd # fds2"
    by (auto simp: obind_Ret_iff)
  have "k_trace k1 = k_trace k @ [Reuse_addr fd, Reuse_port fd, Bound fd]"
    using s(1) by (auto simp: make_listen_socket_def obind_Ret_iff dest!: or_exit_trace fd_trace call_trace)
  moreover have "k_trace k2 = k_trace k1 @ [Non_blocking fd]"
    using s(2) by (auto simp: set_nonblock_def obind_Ret_iff dest!: or_exit_trace call_trace)
  ultimately show ?case using Suc.IH [OF s(4)] s(5) call_trace [OF s(3)] by (simp add: socket_setup_def)
qed simp

lemma parse_fds_length: "parse_fds s a i = Ret fds \<Longrightarrow> length fds = length a"
proof (induction s a i rule: parse_fds.induct)
  case (1 s a i)
  then show ?case
    by (subst (asm) (2) parse_fds.simps) (auto simp: obind_Ret_iff Let_def split: if_splits)
qed

lemma get_listen_fds_length:
  "get_listen_fds e n k = Ret (fds, k') \<Longrightarrow> 0 \<le> n \<and> length fds = nat n"
  using make_listen_fds_trace parse_fds_length
  by (force simp: get_listen_fds_def obind_Ret_iff parse_listen_fds_env_def split: if_splits option.splits)

section \<open>Starting without failures\<close>

lemma or_die_ok: "results m = [] \<Longrightarrow> or_die m = (m, Ret ())"
  by (simp add: or_die_def sbind_run [of sys_result])

lemma prepare_workers_ok:
  assumes "results m = []" "0 \<le> own_pid m" "own_pid m < 1000000000"
  shows "\<exists>m'. prepare_workers n path m = (m', Ret ()) \<and> results m' = [] \<and> worker_count m' = nat n"
proof -
  have "length (int_text (own_pid m)) \<le> 9"
    using assms length_dec [of "nat (own_pid m)" 9] by (simp add: int_text_nat nat_less_iff)
  then obtain a where a: "sprintf (int_text (own_pid m)) (replicate 10 NUL, 0) = Ret (a, length (int_text (own_pid m)))"
    by (simp add: sprintf_def copy_out_def)
  have wp: "\<exists>m2. write_pidfile path m1 = (m2, Ret ()) \<and> results m2 = []"
    if "results m1 = []" "own_pid m1 = own_pid m" for m1
    using that a by (simp add: write_pidfile_def sbind_run [of or_die] or_die_ok)
  define m1 where "m1 = m\<lparr>acts := (acts m @ [Mask_cleared]) @ map (\<lambda>(s, h). Handler_set s h) master_handlers\<rparr>"
  have "clear_sigmask m = (m\<lparr>acts := acts m @ [Mask_cleared]\<rparr>, Ret ())"
    using assms(1) by (simp add: clear_sigmask_def sbind_run [of or_die] or_die_ok)
  moreover have "setup_master_signal_handlers (m\<lparr>acts := acts m @ [Mask_cleared]\<rparr>) = (m1, Ret ())"
    by (simp add: setup_master_signal_handlers_def set_handlers_run m1_def)
  moreover obtain m2 where "write_pidfile path m1 = (m2, Ret ())" "results m2 = []"
    using wp [of m1] assms(1) by (auto simp: m1_def)
  ultimately show ?thesis
    by (simp add: prepare_workers_def sbind_run [of clear_sigmask] sbind_run [of setup_master_signal_handlers]
        sbind_run [of "write_pidfile path"])
qed

lemma no_workers:
  assumes "results m = []" "0 \<le> own_pid m" "own_pid m < 1000000000"
  shows "\<exists>m'. yta_fork_workers 0 path argv fds ws m = (m', Ret (Some (- 1))) \<and> results m' = []"
proof -
  obtain m1 where m1: "prepare_workers 0 path m = (m1, Ret ())" "results m1 = []"
    using prepare_workers_ok [OF assms, of 0 path] by auto
  have "spawn_workers 0 0 (0, - 1) m' = (m', Ret (0, - 1))" for m' by (subst spawn_workers.simps) simp
  moreover have "respawn_loop 0 ws (0, - 1) m' = (m', Ret (Some (- 1)))" for m' by (subst respawn_loop.simps) simp
  ultimately show ?thesis using m1
    by (simp add: yta_fork_workers_def sbind_run [of "prepare_workers 0 path"] sbind_run [of sys_result]
        sbind_run [of "spawn_workers 0 0 (0, - 1)"])
qed

lemma drop_root_ok: "results m = [] \<Longrightarrow> snd (drop_root g n m) = Ret ()"
  by (simp add: drop_root_def sbind_run [of or_die] or_die_ok split: option.split)

section \<open>Properties\<close>

text \<open>
  C23.  The sockets of a fresh start: one for each worker, each set to \<^verbatim>\<open>SO_REUSEADDR\<close> and
  \<^verbatim>\<open>SO_REUSEPORT\<close>, bound, made non-blocking and listening, in this order and one after the other.
\<close>

theorem listening_sockets_ready:
  assumes "get_listen_fds None n k = Ret (fds, k')"
  shows "length fds = nat n \<and> k_trace k' = k_trace k @
    concat (map (\<lambda>fd. [Reuse_addr fd, Reuse_port fd, Bound fd, Non_blocking fd, Listening fd]) fds)"
proof -
  have "(\<lambda>fd. [Reuse_addr fd, Reuse_port fd, Bound fd, Non_blocking fd, Listening fd]) = socket_setup"
    by (simp add: socket_setup_def fun_eq_iff)
  moreover obtain k1 where "k_trace k1 = k_trace k" "make_listen_fds (nat n) k1 = Ret (fds, k')"
    using assms by (auto simp: get_listen_fds_def obind_Ret_iff split: if_splits dest: or_exit_trace)
  ultimately show ?thesis using make_listen_fds_trace by metis
qed

definition start_kernel :: kernel where
  "start_kernel = \<lparr>k_files = (\<lambda>_. None), k_fds = (\<lambda>_. None), k_new_fds = [3, 4], k_results = [], k_trace = []\<rparr>"

lemma listening_sockets_ready_witness:
  "\<exists>k. get_listen_fds None 1 start_kernel = Ret ([3], k) \<and>
     k_trace k = [Reuse_addr 3, Reuse_port 3, Bound 3, Non_blocking 3, Listening 3]"
proof -
  obtain k where k: "get_listen_fds None 1 start_kernel = Ret ([3], k)"
    by (simp add: get_listen_fds_def or_exit_def next_result_def start_kernel_def make_listen_socket_def
        fd_or_exit_def new_fd_def call_or_exit_def set_nonblock_def trace_event_def)
  from listening_sockets_ready [OF this] k show ?thesis by (auto simp: start_kernel_def)
qed


definition start_master :: master where
  "start_master = \<lparr>worker_pids = None, worker_count = 0, pidfile_to_delete = None, stored_argv = [],
     stored_listen_fds = [], upgraded = False, own_pid = 100, forks = [201, 0], results = [], acts = []\<rparr>"

definition start_surroundings :: surroundings where
  "start_surroundings = \<lparr>env_listen_fds = Some ''3 4'', gid = 1000, nobody = None, waits = [], events = []\<rparr>"

definition idle_client :: "(unit, unit, unit, unit) client" where
  "idle_client = \<lparr>cl_store = (\<lambda>u _ _. Ret u), cl_load = (\<lambda>_ _ _. Ret []),
     cl_io = (\<lambda>_ ctx _ _ k. Ret (ctx, YTA_OK, k)), cl_plain = (\<lambda>_ ctx k. Ret (ctx, YTA_OK, k))\<rparr>"


text \<open>
  C32.  No workers: an argument of \<^verbatim>\<open>-w\<close> without digits is 0, no process is forked, and
  \<^verbatim>\<open>yta_run\<close> then uses the listening descriptor at place \<open>-1\<close>, in front of its array.
\<close>

theorem zero_workers_out_of_bounds:
  assumes "atoi optarg = Ret 0" "env_listen_fds env = None" "k_results k = []" "results m = []"
    "0 \<le> own_pid m" "own_pid m < 1000000000"
  shows "main cl accept_callback argv [(CHR ''w'', optarg)] env k m = Crash OutOfBounds"
proof -
  obtain m' where m': "yta_fork_workers 0 ''/tmp/yotta.pid'' argv [] (waits env) m = (m', Ret (Some (- 1)))" "results m' = []"
    using no_workers [OF assms(4-6), of "''/tmp/yotta.pid''" argv "[]" "waits env"] by auto
  have "get_listen_fds None 0 k = Ret ([], k)"
    using assms(3) by (simp add: get_listen_fds_def or_exit_def next_result_def)
  then show ?thesis using assms(1,2) m' drop_root_ok [OF m'(2)]
    by (simp add: main_def default_options_def yta_run_def index_at_def)
qed

lemma zero_workers_out_of_bounds_witness:
  "main idle_client () [] [(CHR ''w'', ''many'')] (start_surroundings\<lparr>env_listen_fds := None\<rparr>) start_kernel start_master =
     Crash OutOfBounds"
proof -
  have "atoi ''many'' = Ret 0" by code_simp
  from zero_workers_out_of_bounds [OF this, of "start_surroundings\<lparr>env_listen_fds := None\<rparr>" start_kernel start_master
      idle_client "()" "[]"]
  show ?thesis by (simp add: start_kernel_def start_master_def)
qed

end
