(* ===== verification/Spec2Isabelle.thy ===== *)
theory Spec2Isabelle
  imports Yotta_Responses Yotta_Names Pico_Request Pico_Chunked Worker_Properties Startup
begin

text \<open>Skeleton.\<close>

end
